(* ===== verification/Prelude.thy ===== *)
theory Prelude
  imports Main "HOL-Library.Word" "HOL-Library.Multiset"
begin

text \<open>
  Shared vocabulary of the development: the machine types of the C++ sources, the theorem
  collections the component theories extend, reachability of a step relation together with
  the interface every stateful component implements (an invariant that holds at the start
  and is kept by every step), and generic list and map lemmas.
\<close>

section \<open>Types\<close>

type_synonym u8 = "8 word"
type_synonym u16 = "16 word"
type_synonym u32 = "32 word"
type_synonym u64 = "64 word"

text \<open>\<open>using Bytes = std::vector<uint8_t>\<close> of \<open>CommonHeader.hpp\<close>.\<close>

type_synonym bytes = "u8 list"

section \<open>Theorem collections\<close>

named_theorems op_defs \<open>definitions of component operations\<close>
named_theorems inv_defs \<open>definitions of component invariants\<close>
named_theorems inv_intros \<open>operations preserve their component's invariant\<close>

section \<open>Reachable states of a step relation\<close>

inductive reach :: "('s \<Rightarrow> bool) \<Rightarrow> ('s \<Rightarrow> 's \<Rightarrow> bool) \<Rightarrow> 's \<Rightarrow> bool"
  for init :: "'s \<Rightarrow> bool" and step :: "'s \<Rightarrow> 's \<Rightarrow> bool" where
  reach_init: "init s \<Longrightarrow> reach init step s"
| reach_step: "reach init step s \<Longrightarrow> step s t \<Longrightarrow> reach init step t"

lemma reach_steps:
  "reach init step s \<Longrightarrow> step\<^sup>*\<^sup>* s t \<Longrightarrow> reach init step t"
  by (rotate_tac, induction rule: rtranclp_induct) (auto intro: reach.reach_step)

text \<open>
  The interface of a component with a step relation: it provides the initial states, the
  steps and an invariant, and promises that the invariant holds initially and is inductive.
  The client gets the invariant in every reachable state.
\<close>

locale stepping =
  fixes init :: "'s \<Rightarrow> bool"
    and step :: "'s \<Rightarrow> 's \<Rightarrow> bool"
    and inv :: "'s \<Rightarrow> bool"
  assumes inv_init: "init s \<Longrightarrow> inv s"
    and inv_step: "inv s \<Longrightarrow> step s t \<Longrightarrow> inv t"
begin

lemma reach_inv: "reach init step s \<Longrightarrow> inv s"
  by (induction rule: reach.induct) (auto intro: inv_init inv_step)

lemma steps_inv: "step\<^sup>*\<^sup>* s t \<Longrightarrow> inv s \<Longrightarrow> inv t"
  by (induction rule: rtranclp_induct) (auto intro: inv_step)

end

section \<open>Running a list of operations\<close>

text \<open>Deterministic components are driven by a list of calls, left to right.\<close>

fun run_ops :: "('op \<Rightarrow> 's \<Rightarrow> 's) \<Rightarrow> 'op list \<Rightarrow> 's \<Rightarrow> 's" where
  "run_ops f [] s = s"
| "run_ops f (x # xs) s = run_ops f xs (f x s)"

lemma run_ops_append [simp]: "run_ops f (xs @ ys) s = run_ops f ys (run_ops f xs s)"
  by (induction xs arbitrary: s) auto

lemma run_ops_inv:
  assumes "\<And>x s. P s \<Longrightarrow> P (f x s)" and "P s"
  shows "P (run_ops f xs s)"
  using assms(2) by (induction xs arbitrary: s) (auto intro: assms(1))

text \<open>Events that may be impossible in a state: the run is \<open>None\<close> when one of them is.\<close>

fun run_opt :: "('ev \<Rightarrow> 's \<Rightarrow> 's option) \<Rightarrow> 'ev list \<Rightarrow> 's \<Rightarrow> 's option" where
  "run_opt f [] s = Some s"
| "run_opt f (e # es) s = (case f e s of None \<Rightarrow> None | Some t \<Rightarrow> run_opt f es t)"

lemma run_opt_append:
  "run_opt f (es @ fs) s = (case run_opt f es s of None \<Rightarrow> None | Some t \<Rightarrow> run_opt f fs t)"
  by (induction es arbitrary: s) (auto split: option.splits)

lemma run_opt_inv:
  assumes step: "\<And>e s t. P s \<Longrightarrow> Q e \<Longrightarrow> f e s = Some t \<Longrightarrow> P t"
    and "P s" and "\<forall>e\<in>set es. Q e" and "run_opt f es s = Some t"
  shows "P t"
  using assms(2-4)
proof (induction es arbitrary: s)
  case (Cons e es)
  then obtain u where u: "f e s = Some u" "run_opt f es u = Some t" by (auto split: option.splits)
  from step [OF Cons.prems(1) _ u(1)] Cons.prems(2) have "P u" by simp
  then show ?case using Cons.IH Cons.prems(2) u(2) by simp
qed simp

lemma run_opt_reach:
  assumes step: "\<And>e s t. f e s = Some t \<Longrightarrow> step s t"
    and "reach init step s" and "run_opt f es s = Some t"
  shows "reach init step t"
  using assms(2,3)
proof (induction es arbitrary: s)
  case (Cons e es)
  then obtain u where u: "f e s = Some u" "run_opt f es u = Some t" by (auto split: option.splits)
  from Cons.IH [OF reach_step [OF Cons.prems(1) step [OF u(1)]] u(2)] show ?case .
qed simp

section \<open>Lists and words\<close>

lemma drop_last_snoc:
  "n < length xs \<Longrightarrow> drop n (xs @ [x]) = drop n xs @ [x]"
  by simp

lemma upt_nth_append:
  "map (\<lambda>i. (xs @ ys) ! i) [0..<length xs] = xs"
  by (rule nth_equalityI) (auto simp: nth_append)

lemma count_filter_neq: "count_list (filter (\<lambda>x. x \<noteq> y) xs) z = (if z = y then 0 else count_list xs z)"
  by (induction xs) auto

lemma unat_of_nat_small: "n < 2 ^ LENGTH('a) \<Longrightarrow> unat (of_nat n :: 'a::len word) = n"
  by (simp add: unat_of_nat take_bit_eq_mod)

lemma unat_Suc_word:
  fixes a :: "'a::len word"
  shows "unat a + 1 < 2 ^ LENGTH('a) \<Longrightarrow> unat (a + 1) = unat a + 1"
  by (simp add: unat_word_ariths(1))

lemma unat_minus_le:
  fixes a b :: "'a::len word"
  shows "b \<le> a \<Longrightarrow> unat (a - b) = unat a - unat b"
  by (rule unat_sub)

end
