(* ===== verification/Errors.thy ===== *)
theory Errors
  imports Prelude
begin

text \<open>
  The failures of the library as values: the exception classes of \<open>Exception.hpp\<close> with the
  text their \<open>what()\<close> builds, the error codes of \<open>ErrorCode.hpp\<close>, and the ways a call can
  fail to return normally (a thrown exception, a failed \<open>assert\<close>, \<open>std::abort\<close>,
  \<open>std::terminate\<close>, undefined behaviour).
\<close>

section \<open>Exceptions (Exception.hpp)\<close>

text \<open>Each constructor carries \<open>BaseException::_detail\<close>.\<close>

datatype exn =
    AlreadyRunningException string
  | BadHandlingException string
  | RuntimeException string
  | OutOfRangeException string
  | CommunicationException string

fun detail :: "exn \<Rightarrow> string" where
  "detail (AlreadyRunningException d) = d"
| "detail (BadHandlingException d) = d"
| "detail (RuntimeException d) = d"
| "detail (OutOfRangeException d) = d"
| "detail (CommunicationException d) = d"

definition with_detail :: "string \<Rightarrow> string \<Rightarrow> string" where
  "with_detail base d = (if d = [] then base else base @ '':'' @ d)"

text \<open>
  The string each \<open>what()\<close> override builds. The C++ returns \<open>c_str()\<close> of this local string,
  so the pointer itself is dangling once \<open>what()\<close> has returned.
\<close>

fun what_text :: "exn \<Rightarrow> string" where
  "what_text (AlreadyRunningException d) = with_detail ''already running'' d"
| "what_text (BadHandlingException d) = with_detail ''bad handling'' d"
| "what_text (RuntimeException d) = with_detail ''runtime error'' d"
| "what_text (OutOfRangeException d) = with_detail ''out of range'' d"
| "what_text (CommunicationException d) = with_detail ''communication error'' d"

section \<open>Error codes (ErrorCode.hpp)\<close>

datatype error_code =
    UNKNOWN | CONNECTION_LOST | RECEIVE_FAILURE | SEND_FAILURE | END_OF_FILE

section \<open>Outcomes of a call\<close>

text \<open>
  \<open>AssertionFailure\<close> is a failed \<open>assert\<close> (the process aborts; with \<open>NDEBUG\<close> the code goes on
  into undefined behaviour), \<open>Aborted\<close> is \<open>std::abort\<close>, \<open>Terminated\<close> is \<open>std::terminate\<close>,
  \<open>StdException\<close> an exception of the standard library, \<open>UndefinedBehaviour\<close> an operation the
  C++ standard gives no meaning.
\<close>

datatype fault =
    Thrown exn
  | StdException string
  | AssertionFailure string
  | Aborted
  | Terminated
  | UndefinedBehaviour string

type_synonym 'a res = "fault + 'a"

abbreviation ok :: "'a \<Rightarrow> 'a res" where
  "ok \<equiv> Inr"

definition bind_res :: "'a res \<Rightarrow> ('a \<Rightarrow> 'b res) \<Rightarrow> 'b res" where
  "bind_res r f = (case r of Inl e \<Rightarrow> Inl e | Inr x \<Rightarrow> f x)"

lemma bind_res_simps [simp]:
  "bind_res (Inl e) f = Inl e"
  "bind_res (Inr x) f = f x"
  by (simp_all add: bind_res_def)

lemma bind_res_ok_iff: "bind_res r f = Inr y \<longleftrightarrow> (\<exists>x. r = Inr x \<and> f x = Inr y)"
  by (cases r) auto

text \<open>Running a list of calls that may fail, stopping at the first failure.\<close>

fun run_res :: "('op \<Rightarrow> 's \<Rightarrow> 's res) \<Rightarrow> 'op list \<Rightarrow> 's \<Rightarrow> 's res" where
  "run_res f [] s = ok s"
| "run_res f (x # xs) s = bind_res (f x s) (run_res f xs)"

lemma run_res_append:
  "run_res f (xs @ ys) s = bind_res (run_res f xs s) (run_res f ys)"
proof (induction xs arbitrary: s)
  case (Cons x xs)
  then show ?case by (cases "f x s") auto
qed simp

lemma run_res_inv:
  assumes step: "\<And>x s. P s \<Longrightarrow> \<exists>t. f x s = ok t \<and> P t" and "P s"
  shows "\<exists>t. run_res f xs s = ok t \<and> P t"
  using assms(2)
proof (induction xs arbitrary: s)
  case (Cons x xs)
  from step [OF Cons.prems] obtain t where "f x s = ok t" "P t" by blast
  then show ?case using Cons.IH by simp
qed simp

end
