(* ===== verification/Utils.thy ===== *)
theory Utils
  imports Errors
begin

unbundle bit_operations_syntax

text \<open>
  The free functions of \<open>common/src/utils\<close>: \<open>next_pwr_of_2\<close> of \<open>Misc.cpp\<close>, which sizes the
  worker pool of the task executor, and \<open>string_to_hex\<close> of \<open>String.cpp\<close>. The bit-smearing
  lemmas are stated for any word length, since \<open>LockFreeWorkQueue::nextPowerOf2\<close> is the
  64-bit version of the same loop.
\<close>

section \<open>Rounding up to a power of two (Misc.cpp)\<close>

definition next_pwr_of_2 :: "u32 \<Rightarrow> u32" where
  "next_pwr_of_2 n =
     (if n \<le> 1 then 1
      else let n = n - 1;
               n = n OR drop_bit 1 n;
               n = n OR drop_bit 2 n;
               n = n OR drop_bit 4 n;
               n = n OR drop_bit 8 n;
               n = n OR drop_bit 16 n
           in n + 1)"

text \<open>What the documentation promises: the least power of two that is at least \<open>n\<close>.\<close>

definition least_pow2 :: "nat \<Rightarrow> nat" where
  "least_pow2 n = (LEAST p. n \<le> p \<and> (\<exists>k. p = 2 ^ k))"

lemma least_pow2_eqI:
  assumes "n \<le> 2 ^ k" and "k = 0 \<or> 2 ^ (k - 1) < n"
  shows "least_pow2 n = 2 ^ k"
  unfolding least_pow2_def
proof (rule Least_equality)
  show "n \<le> 2 ^ k \<and> (\<exists>j. (2::nat) ^ k = 2 ^ j)" using assms(1) by blast
next
  fix p assume "n \<le> p \<and> (\<exists>j. p = 2 ^ j)"
  then obtain j where j: "p = 2 ^ j" "n \<le> 2 ^ j" by blast
  show "2 ^ k \<le> p"
  proof (cases k)
    case 0
    then show ?thesis using j by simp
  next
    case (Suc m)
    then have "2 ^ m < n" using assms(2) by simp
    then have "(2::nat) ^ m < 2 ^ j" using j(2) by (rule less_le_trans)
    then have "m < j" by simp
    then show ?thesis using j(1) Suc by (simp add: power_increasing Suc_leI del: power_Suc)
  qed
qed

subsection \<open>Smearing the top bit\<close>

definition smeared :: "nat \<Rightarrow> 'a::len word \<Rightarrow> 'a word \<Rightarrow> bool" where
  "smeared w x y \<longleftrightarrow> (\<forall>i. bit y i \<longleftrightarrow> (\<exists>j<w. bit x (i + j)))"

lemma smeared_refl: "smeared 1 x x"
  by (simp add: smeared_def)

lemma smeared_double:
  assumes "smeared w x y" and "v = 2 * w"
  shows "smeared v x (y OR drop_bit w y)"
proof -
  have "(\<exists>j<w. bit x (i + j)) \<or> (\<exists>j<w. bit x (w + i + j)) \<longleftrightarrow> (\<exists>j<v. bit x (i + j))" for i
  proof
    assume "(\<exists>j<w. bit x (i + j)) \<or> (\<exists>j<w. bit x (w + i + j))"
    then show "\<exists>j<v. bit x (i + j)"
    proof
      assume "\<exists>j<w. bit x (i + j)"
      then obtain j where "j < w" "bit x (i + j)" by blast
      then show ?thesis using assms(2) by (intro exI[of _ j]) auto
    next
      assume "\<exists>j<w. bit x (w + i + j)"
      then obtain j where "j < w" "bit x (i + (w + j))" by (auto simp: ac_simps)
      then show ?thesis using assms(2) by (intro exI[of _ "w + j"]) auto
    qed
  next
    assume "\<exists>j<v. bit x (i + j)"
    then obtain j where j: "j < v" "bit x (i + j)" by blast
    show "(\<exists>j<w. bit x (i + j)) \<or> (\<exists>j<w. bit x (w + i + j))"
    proof (cases "j < w")
      case False
      then have "bit x (w + i + (j - w))" "j - w < w" using j assms(2) by auto
      then show ?thesis by blast
    qed (use j in blast)
  qed
  then show ?thesis using assms(1) by (auto simp: smeared_def bit_or_iff bit_drop_bit_eq)
qed

lemma bit_word_odd: "bit x i \<longleftrightarrow> odd (unat x div 2 ^ i)" for x :: "'a::len word"
proof -
  have "bit (unat x) i \<longleftrightarrow> bit x i" by (simp add: bit_unsigned_iff)
  then show ?thesis by (simp add: bit_iff_odd [of "unat x"])
qed

lemma top_bit_ex:
  fixes x :: "'a::len word"
  assumes "x \<noteq> 0"
  obtains m where "bit x m" "\<And>j. m < j \<Longrightarrow> \<not> bit x j" "2 ^ m \<le> unat x" "unat x < 2 ^ Suc m"
proof -
  have "unat x > 0" using assms by (simp add: unat_gt_0)
  then obtain m where m: "2 ^ m \<le> unat x" "unat x < 2 ^ Suc m"
    using ex_power_ivl1[of 2 "unat x"] by auto
  have "bit x m"
  proof -
    have "unat x div 2 ^ m = 1"
      using m by (simp add: div_nat_eqI)
    then show ?thesis by (simp add: bit_word_odd)
  qed
  moreover have "\<not> bit x j" if "m < j" for j
  proof -
    have "unat x < 2 ^ j"
      using that by (intro less_le_trans [OF m(2) power_increasing]) auto
    then show ?thesis by (simp add: bit_word_odd)
  qed
  ultimately show ?thesis using m that by blast
qed

lemma smeared_mask:
  fixes x y :: "'a::len word"
  assumes s: "smeared LENGTH('a) x y" and "bit x m" and top: "\<And>j. m < j \<Longrightarrow> \<not> bit x j"
  shows "y = mask (Suc m)"
proof (rule bit_word_eqI)
  fix i assume i: "i < LENGTH('a)"
  have "m < LENGTH('a)" using assms(2) bit_imp_le_length by blast
  have "(\<exists>j<LENGTH('a). bit x (i + j)) \<longleftrightarrow> i \<le> m"
  proof
    assume "\<exists>j<LENGTH('a). bit x (i + j)"
    then show "i \<le> m" using top by (metis le_add1 leI le_trans)
  next
    assume "i \<le> m"
    then show "\<exists>j<LENGTH('a). bit x (i + j)"
      using assms(2) \<open>m < LENGTH('a)\<close> by (intro exI[of _ "m - i"]) auto
  qed
  then show "bit y i \<longleftrightarrow> bit (mask (Suc m) :: 'a word) i"
    using s i by (auto simp: smeared_def bit_mask_iff)
qed

lemma smeared_succ_least_pow2:
  fixes n y :: "'a::len word"
  assumes s: "smeared LENGTH('a) (n - 1) y" and n: "1 < n"
  shows "unat (y + 1) =
    (if unat n \<le> 2 ^ (LENGTH('a) - 1) then least_pow2 (unat n) else 0)"
proof -
  have gt: "1 < unat n" using n by (metis unat_1 word_less_nat_alt)
  have un: "unat (n - 1) = unat n - 1"
    using n by (subst unat_minus_le) auto
  then have "n - 1 \<noteq> 0" using gt by (metis unat_0 zero_less_diff less_irrefl)
  from top_bit_ex [OF this] obtain m where m: "bit (n - 1) m" "\<And>j. m < j \<Longrightarrow> \<not> bit (n - 1) j"
    "2 ^ m \<le> unat (n - 1)" "unat (n - 1) < 2 ^ Suc m"
    by blast
  have "y = mask (Suc m)" by (rule smeared_mask [OF s m(1,2)])
  then have y1: "y + 1 = 2 ^ Suc m" by (simp add: mask_eq_exp_minus_1)
  have mL: "m < LENGTH('a)" using m(1) bit_imp_le_length by blast
  have bounds: "2 ^ m < unat n" "unat n \<le> 2 ^ Suc m" using m(3,4) un gt by auto
  show ?thesis
  proof (cases "Suc m < LENGTH('a)")
    case True
    have "unat n \<le> 2 ^ (LENGTH('a) - 1)"
      using bounds(2) True by (intro le_trans [OF bounds(2) power_increasing]) auto
    moreover have "least_pow2 (unat n) = 2 ^ Suc m"
      using bounds by (intro least_pow2_eqI) auto
    moreover have "unat (2 ^ Suc m :: 'a word) = 2 ^ Suc m"
      using True unat_of_nat_small [of "2 ^ Suc m", where 'a = 'a] by (simp del: power_Suc)
    ultimately show ?thesis using y1 by simp
  next
    case False
    then have m1: "Suc m = LENGTH('a)" using mL by simp
    have "y + 1 = 0" using y1 m1 by (auto simp del: power_Suc)
    moreover have "\<not> unat n \<le> 2 ^ (LENGTH('a) - 1)" using bounds(1) by (simp flip: m1)
    ultimately show ?thesis by simp
  qed
qed

lemma least_pow2_small: "n \<le> 1 \<Longrightarrow> least_pow2 n = 1"
  using least_pow2_eqI[of n 0] by simp

lemma next_pwr_of_2_smeared:
  assumes "1 < n"
  shows "\<exists>y. smeared 32 (n - 1) y \<and> next_pwr_of_2 n = y + 1"
proof -
  define a where "a = n - 1"
  define b where "b = a OR drop_bit 1 a"
  define c where "c = b OR drop_bit 2 b"
  define d where "d = c OR drop_bit 4 c"
  define e where "e = d OR drop_bit 8 d"
  define f where "f = e OR drop_bit 16 e"
  have "smeared 2 a b" unfolding b_def by (rule smeared_double [OF smeared_refl]) simp
  then have "smeared 4 a c" unfolding c_def by (rule smeared_double) simp
  then have "smeared 8 a d" unfolding d_def by (rule smeared_double) simp
  then have "smeared 16 a e" unfolding e_def by (rule smeared_double) simp
  then have "smeared 32 a f" unfolding f_def by (rule smeared_double) simp
  moreover have "next_pwr_of_2 n = f + 1"
    using assms
    by (simp only: next_pwr_of_2_def Let_def if_not_P not_le f_def e_def d_def c_def b_def a_def)
  ultimately show ?thesis unfolding a_def by blast
qed

lemma next_pwr_of_2_unat:
  "unat (next_pwr_of_2 n) = (if unat n \<le> 2 ^ 31 then least_pow2 (unat n) else 0)"
proof (cases "n \<le> 1")
  case True
  then have "unat n \<le> 1" by (metis unat_1 word_le_nat_alt)
  then show ?thesis using True by (simp add: next_pwr_of_2_def least_pow2_small)
next
  case False
  then have n: "1 < n" by simp
  then obtain y where "smeared LENGTH(32) (n - 1) y" "next_pwr_of_2 n = y + 1"
    using next_pwr_of_2_smeared by auto
  then show ?thesis using smeared_succ_least_pow2 [OF _ n] by simp
qed

text \<open>
  \<open>next_pwr_of_2\<close> returns the least power of two that is at least its argument for every
  argument up to \<open>2^31\<close>; above that no 32-bit power of two is large enough and the final
  increment wraps around to 0.
\<close>

theorem next_pwr_of_2_correct:
  "unat (next_pwr_of_2 n) = (if unat n \<le> 2 ^ 31 then least_pow2 (unat n) else 0)"
  by (rule next_pwr_of_2_unat)

section \<open>Hex dump of a string (String.cpp)\<close>

text \<open>
  The stream manipulators: \<open>std::hex\<close> and \<open>std::uppercase\<close> print an integer in base 16 with
  no leading zeros, \<open>setfill('0')\<close> with \<open>setw(2)\<close> pads it on the left to two characters.
\<close>

definition hex_digit :: "nat \<Rightarrow> char" where
  "hex_digit n = ''0123456789ABCDEF'' ! n"

fun put_hex :: "nat \<Rightarrow> string" where
  "put_hex n = (if n < 16 then [hex_digit n] else put_hex (n div 16) @ [hex_digit (n mod 16)])"

declare put_hex.simps [simp del]

definition pad_left :: "nat \<Rightarrow> char \<Rightarrow> string \<Rightarrow> string" where
  "pad_left w c s = replicate (w - length s) c @ s"

fun hex_stream :: "string \<Rightarrow> string \<Rightarrow> string" where
  "hex_stream ss [] = ss"
| "hex_stream ss (c # cs) =
     hex_stream (ss @ ''0x'' @ pad_left 2 CHR ''0'' (put_hex (of_char c)) @ '' '') cs"

definition string_to_hex :: "string \<Rightarrow> string" where
  "string_to_hex str =
     (let result = hex_stream [] str
      in if result \<noteq> [] then butlast result else result)"

text \<open>The same function as a map over the bytes, and its inverse.\<close>

definition hex_byte :: "char \<Rightarrow> string" where
  "hex_byte c = ''0x'' @ [hex_digit (of_char c div 16), hex_digit (of_char c mod 16)]"

lemma of_char_bound: "(of_char c :: nat) < 256"
  by (cases c) (simp add: of_char_def horner_sum_simps)

lemma padded_hex_byte: "''0x'' @ pad_left 2 CHR ''0'' (put_hex (of_char c)) = hex_byte c"
proof -
  have b: "(of_char c :: nat) < 256" by (rule of_char_bound)
  show ?thesis
  proof (cases "of_char c < (16::nat)")
    case True
    then show ?thesis
      by (simp add: hex_byte_def pad_left_def put_hex.simps [of "of_char c"] hex_digit_def)
  next
    case False
    have d: "of_char c div 16 < (16::nat)" using b less_mult_imp_div_less[of "of_char c" 16 16] by simp
    have "put_hex (of_char c) = [hex_digit (of_char c div 16), hex_digit (of_char c mod 16)]"
      using False d by (simp add: put_hex.simps [of "of_char c"] put_hex.simps [of "of_char c div 16"])
    then show ?thesis by (simp add: hex_byte_def pad_left_def)
  qed
qed

lemma hex_stream_eq: "hex_stream ss cs = ss @ concat (map (\<lambda>c. hex_byte c @ '' '') cs)"
  by (induction cs arbitrary: ss) (simp_all add: padded_hex_byte [symmetric])

lemma hex_digit_inj: "a < 16 \<Longrightarrow> b < 16 \<Longrightarrow> hex_digit a = hex_digit b \<Longrightarrow> a = b"
proof -
  have "distinct ''0123456789ABCDEF''" by simp
  then show "a < 16 \<Longrightarrow> b < 16 \<Longrightarrow> hex_digit a = hex_digit b \<Longrightarrow> a = b"
    unfolding hex_digit_def by (subst (asm) nth_eq_iff_index_eq) auto
qed

lemma hex_byte_inj: "hex_byte a = hex_byte b \<Longrightarrow> a = b"
proof -
  assume "hex_byte a = hex_byte b"
  then have "hex_digit (of_char a div 16) = hex_digit (of_char b div 16)"
    "hex_digit (of_char a mod 16) = hex_digit (of_char b mod 16)"
    by (simp_all add: hex_byte_def)
  moreover have "(of_char x :: nat) div 16 < 16" for x
    using of_char_bound[of x] less_mult_imp_div_less[of "of_char x" 16 16] by simp
  ultimately have "(of_char a :: nat) div 16 = of_char b div 16" "(of_char a :: nat) mod 16 = of_char b mod 16"
    by (blast intro: hex_digit_inj, intro hex_digit_inj) auto
  then have "(of_char a :: nat) = of_char b" by (metis div_mult_mod_eq)
  then show "a = b" by (simp add: of_char_eq_iff)
qed

lemma length_hex_byte [simp]: "length (hex_byte c) = 4"
  by (simp add: hex_byte_def)

lemma hex_dump_inj:
  "concat (map (\<lambda>c. hex_byte c @ '' '') xs) = concat (map (\<lambda>c. hex_byte c @ '' '') ys) \<Longrightarrow> xs = ys"
proof (induction xs arbitrary: ys)
  case Nil
  then show ?case by (cases ys) (auto simp: hex_byte_def)
next
  case (Cons x xs)
  then obtain y ys' where ys: "ys = y # ys'" by (cases ys) (auto simp: hex_byte_def)
  have "hex_byte x = hex_byte y"
    "concat (map (\<lambda>c. hex_byte c @ '' '') xs) = concat (map (\<lambda>c. hex_byte c @ '' '') ys')"
    using Cons.prems ys by (auto simp: append_eq_append_conv)
  then show ?case using Cons.IH ys hex_byte_inj by blast
qed

text \<open>
  The hex dump of a string consists of the \<open>0xHH\<close> group of each byte separated by single
  blanks: its length is five characters per byte less one, each byte's group sits at its own
  offset, and different strings have different dumps (the dump loses nothing).
\<close>

theorem string_to_hex_lossless:
  "length (string_to_hex s) = 5 * length s - 1 \<and>
   string_to_hex s = butlast (concat (map (\<lambda>c. hex_byte c @ '' '') s)) \<and>
   (string_to_hex s = string_to_hex t \<longleftrightarrow> s = t)"
proof -
  let ?C = "\<lambda>u. concat (map (\<lambda>c. hex_byte c @ '' '') u)"
  have eq: "string_to_hex u = butlast (?C u)" for u
    by (simp add: string_to_hex_def hex_stream_eq Let_def)
  have len: "length (concat (map (\<lambda>c. hex_byte c @ '' '') u)) = 5 * length u" for u
    by (induction u) auto
  have last: "last (concat (map (\<lambda>c. hex_byte c @ '' '') u)) = CHR '' ''" if "u \<noteq> []" for u
    using that by (induction u) auto
  have split: "?C u = butlast (?C u) @ '' ''" if "u \<noteq> []" for u
  proof -
    have "?C u \<noteq> []" using that len [of u] by (metis length_0_conv mult_is_0 zero_neq_numeral)
    then show ?thesis using last [OF that] by (metis append_butlast_last_id)
  qed
  have "s = t" if "string_to_hex s = string_to_hex t"
  proof -
    have bl: "butlast (?C s) = butlast (?C t)" using that by (simp add: eq)
    then have "5 * length s - 1 = 5 * length t - 1" by (metis len length_butlast)
    then have "s = [] \<longleftrightarrow> t = []" by (cases s; cases t) auto
    then have "?C s = ?C t" using bl split by (cases "s = []") metis+
    then show ?thesis by (rule hex_dump_inj)
  qed
  then show ?thesis using eq len by auto
qed

end
