(* ===== verification/SizedQueue.thy ===== *)
theory SizedQueue
  imports Errors
begin

text \<open>
  \<open>SizedQueue<_tp, _size>\<close> of \<open>container/SizedQueue.hpp\<close>: a FIFO over \<open>std::queue\<close> that drops its
  oldest element when a full queue receives a new one. The state is the \<open>_q\<close> member; the template
  parameter \<open>_size\<close> is an argument of the operations that read it. Reading or popping an empty
  \<open>std::queue\<close> is undefined behaviour, which the model returns as a value.
\<close>

section \<open>The queue\<close>

record 'a sized_queue =
  sq_q :: "'a list"

definition sq_new :: "nat \<Rightarrow> 'a sized_queue res" where
  "sq_new sz = (if sz = 0 then Inl (AssertionFailure ''Size of the buffer must be greater than zero.'')
                else ok \<lparr>sq_q = []\<rparr>)"

definition sq_front :: "'a sized_queue \<Rightarrow> 'a res" where
  "sq_front q = (case sq_q q of [] \<Rightarrow> Inl (UndefinedBehaviour ''front of empty queue'') | x # _ \<Rightarrow> ok x)"

definition sq_back :: "'a sized_queue \<Rightarrow> 'a res" where
  "sq_back q = (case sq_q q of [] \<Rightarrow> Inl (UndefinedBehaviour ''back of empty queue'') | xs \<Rightarrow> ok (last xs))"

definition sq_empty :: "'a sized_queue \<Rightarrow> bool" where
  "sq_empty q = (sq_q q = [])"

definition sq_size :: "'a sized_queue \<Rightarrow> nat" where
  "sq_size q = length (sq_q q)"

definition sq_pop_front :: "'a sized_queue \<Rightarrow> 'a sized_queue res" where
  "sq_pop_front q =
     (case sq_q q of [] \<Rightarrow> Inl (UndefinedBehaviour ''pop of empty queue'') | _ # xs \<Rightarrow> ok (q\<lparr>sq_q := xs\<rparr>))"

text \<open>\<open>emplace_back\<close>: \<open>if(_q.size() == _size) { _q.pop(); } _q.emplace(args...)\<close>.\<close>

definition sq_emplace_back :: "nat \<Rightarrow> 'a \<Rightarrow> 'a sized_queue \<Rightarrow> 'a sized_queue" where
  "sq_emplace_back sz x q =
     (let q1 = (if sq_size q = sz then q\<lparr>sq_q := tl (sq_q q)\<rparr> else q)
      in q1\<lparr>sq_q := sq_q q1 @ [x]\<rparr>)"

definition sq_push_back :: "nat \<Rightarrow> 'a \<Rightarrow> 'a sized_queue \<Rightarrow> 'a sized_queue" where
  "sq_push_back sz x q = sq_emplace_back sz x q"

section \<open>The bounded FIFO contract\<close>

text \<open>
  What a client of a bounded queue relies on, stated over an abstraction to lists: a push appends
  and keeps the newest \<open>cap\<close> elements, a pop removes the oldest one. The client's lemmas
  about sequences of pushes are proved here once.
\<close>

locale bounded_fifo =
  fixes cap :: nat
    and view :: "'q \<Rightarrow> 'a list"
    and push :: "'a \<Rightarrow> 'q \<Rightarrow> 'q"
    and pop :: "'q \<Rightarrow> 'q res"
    and front :: "'q \<Rightarrow> 'a res"
  assumes cap_pos: "0 < cap"
    and view_push: "length (view q) \<le> cap \<Longrightarrow>
      view (push x q) = drop (Suc (length (view q)) - cap) (view q @ [x])"
    and pop_Cons: "view q = x # xs \<Longrightarrow> \<exists>q'. pop q = ok q' \<and> view q' = xs"
    and front_Cons: "view q = x # xs \<Longrightarrow> front q = ok x"
begin

lemma push_bounded: "length (view q) \<le> cap \<Longrightarrow> length (view (push x q)) \<le> cap"
  by (simp add: view_push)

lemma pushes_bounded: "length (view q) \<le> cap \<Longrightarrow> length (view (run_ops push xs q)) \<le> cap"
  by (rule run_ops_inv [where P = "\<lambda>q. length (view q) \<le> cap"]) (auto intro: push_bounded)

lemma view_pushes:
  "length (view q) \<le> cap \<Longrightarrow>
   view (run_ops push xs q) = drop (length (view q) + length xs - cap) (view q @ xs)"
proof (induction xs arbitrary: q)
  case Nil
  then show ?case by simp
next
  case (Cons x xs)
  have l: "length (view (push x q)) \<le> cap" using Cons.prems by (rule push_bounded)
  let ?k = "Suc (length (view q)) - cap"
  have p: "view (push x q) = drop ?k (view q @ [x])" using Cons.prems by (rule view_push)
  have app: "view (push x q) @ xs = drop ?k (view q @ x # xs)"
    unfolding p using cap_pos by (cases cap) simp_all
  have "view (run_ops push (x # xs) q) =
      drop (length (view (push x q)) + length xs - cap) (drop ?k (view q @ x # xs))"
    using Cons.IH [OF l] by (simp only: run_ops.simps app)
  also have "\<dots> = drop (length (view q) + length (x # xs) - cap) (view q @ x # xs)"
    unfolding drop_drop p using Cons.prems by (intro arg_cong [where f = "\<lambda>n. drop n _"]) auto
  finally show ?case .
qed

text \<open>Popping as often as the queue is long returns its elements oldest first.\<close>

fun drain :: "nat \<Rightarrow> 'q \<Rightarrow> 'a list res" where
  "drain 0 q = ok []"
| "drain (Suc n) q =
     bind_res (front q) (\<lambda>x. bind_res (pop q) (\<lambda>q'. bind_res (drain n q') (\<lambda>xs. ok (x # xs))))"

lemma drain_view: "drain (length (view q)) q = ok (view q)"
proof (induction "view q" arbitrary: q)
  case Nil
  then show ?case by (simp flip: Nil)
next
  case (Cons x xs)
  then obtain q' where q': "pop q = ok q'" "view q' = xs" using pop_Cons by metis
  have "front q = ok x" using Cons.hyps(2) by (metis front_Cons)
  then show ?case using Cons.hyps(1) [of q'] q' by (simp flip: Cons.hyps(2))
qed

end

lemma sq_push_view:
  "length (sq_q q) \<le> sz \<Longrightarrow> 0 < sz \<Longrightarrow>
   sq_q (sq_push_back sz x q) = drop (Suc (length (sq_q q)) - sz) (sq_q q @ [x])"
  by (cases "sq_q q") (auto simp: sq_push_back_def sq_emplace_back_def sq_size_def Let_def)

interpretation sq: bounded_fifo "Suc n" sq_q "sq_push_back (Suc n)" sq_pop_front sq_front
  for n
proof unfold_locales
  show "0 < Suc n" by simp
  show "sq_q (sq_push_back (Suc n) x q) = drop (Suc (length (sq_q q)) - Suc n) (sq_q q @ [x])"
    if "length (sq_q q) \<le> Suc n" for q :: "'a sized_queue" and x
    using that by (rule sq_push_view) simp
  show "\<exists>q'. sq_pop_front q = ok q' \<and> sq_q q' = xs" if "sq_q q = x # xs" for q :: "'a sized_queue" and x xs
    using that by (simp add: sq_pop_front_def)
  show "sq_front q = ok x" if "sq_q q = x # xs" for q :: "'a sized_queue" and x xs
    using that by (simp add: sq_front_def)
qed

section \<open>Properties\<close>

text \<open>
  C34. After any sequence of pushes into a new queue of size \<open>sz\<close>, the queue holds exactly the last
  \<open>sz\<close> pushed elements in order, so it never exceeds its size and overwrites the oldest first.
\<close>

theorem sized_queue_keeps_newest:
  "0 < sz \<Longrightarrow>
   sq_q (run_ops (sq_push_back sz) xs \<lparr>sq_q = []\<rparr>) = drop (length xs - sz) xs \<and>
   sq_size (run_ops (sq_push_back sz) xs \<lparr>sq_q = []\<rparr>) = min sz (length xs)"
  using sq.view_pushes [of "\<lparr>sq_q = []\<rparr>" "sz - 1" xs]
  by (cases sz) (auto simp: sq_size_def)

theorem sized_queue_keeps_newest_witness:
  "sq_q (run_ops (sq_push_back 2) [1, 2, 3 :: nat] \<lparr>sq_q = []\<rparr>) = [2, 3]"
  using sized_queue_keeps_newest [of 2 "[1, 2, 3 :: nat]"] by simp

end
