(* ===== verification/TaskPool.thy ===== *)
theory TaskPool
  imports Errors
begin

text \<open>
  The contract shared by the two task containers of the library (\<open>WorkQueue\<close>, used by the
  task executor, and \<open>LockFreeWorkQueue\<close>): tasks are put in, and taken out by one of several
  kinds of take (from the front, from the back). Whatever the order of the operations, no task
  is lost, duplicated or invented.
\<close>

datatype ('k, 'a) pool_op = Put 'a | Take 'k

fun puts :: "('k, 'a) pool_op list \<Rightarrow> 'a list" where
  "puts [] = []"
| "puts (Put x # ops) = x # puts ops"
| "puts (Take k # ops) = puts ops"

text \<open>
  \<open>run_pool\<close> performs the operations left to right and collects what the takes returned;
  \<open>legal_pool\<close> says that every operation met its precondition when it was performed.
\<close>

fun run_pool :: "('a \<Rightarrow> 'q \<Rightarrow> 'q) \<Rightarrow> ('k \<Rightarrow> 'q \<Rightarrow> 'a option \<times> 'q) \<Rightarrow>
    ('k, 'a) pool_op list \<Rightarrow> 'q \<Rightarrow> 'a list \<times> 'q" where
  "run_pool put get [] q = ([], q)"
| "run_pool put get (Put x # ops) q = run_pool put get ops (put x q)"
| "run_pool put get (Take k # ops) q =
     (let (r, q1) = get k q; (rs, q2) = run_pool put get ops q1
      in (case r of None \<Rightarrow> rs | Some x \<Rightarrow> x # rs, q2))"

fun legal_pool :: "('q \<Rightarrow> bool) \<Rightarrow> ('k \<Rightarrow> 'q \<Rightarrow> bool) \<Rightarrow> ('a \<Rightarrow> 'q \<Rightarrow> 'q) \<Rightarrow>
    ('k \<Rightarrow> 'q \<Rightarrow> 'a option \<times> 'q) \<Rightarrow> ('k, 'a) pool_op list \<Rightarrow> 'q \<Rightarrow> bool" where
  "legal_pool can_put can_get put get [] q = True"
| "legal_pool can_put can_get put get (Put x # ops) q =
     (can_put q \<and> legal_pool can_put can_get put get ops (put x q))"
| "legal_pool can_put can_get put get (Take k # ops) q =
     (can_get k q \<and> legal_pool can_put can_get put get ops (snd (get k q)))"

lemma legal_pool_total:
  "legal_pool (\<lambda>q. True) (\<lambda>k q. True) put get ops q"
proof (induction ops arbitrary: q)
  case (Cons op ops)
  then show ?case by (cases op) simp_all
qed simp

locale task_pool =
  fixes wf :: "'q \<Rightarrow> bool"
    and view :: "'q \<Rightarrow> 'a list"
    and can_put :: "'q \<Rightarrow> bool"
    and can_get :: "'k \<Rightarrow> 'q \<Rightarrow> bool"
    and put :: "'a \<Rightarrow> 'q \<Rightarrow> 'q"
    and get :: "'k \<Rightarrow> 'q \<Rightarrow> 'a option \<times> 'q"
  assumes wf_put: "wf q \<Longrightarrow> can_put q \<Longrightarrow> wf (put x q)"
    and view_put: "wf q \<Longrightarrow> can_put q \<Longrightarrow> view (put x q) = view q @ [x]"
    and wf_get: "wf q \<Longrightarrow> can_get k q \<Longrightarrow> wf (snd (get k q))"
    and get_None: "wf q \<Longrightarrow> can_get k q \<Longrightarrow> fst (get k q) = None \<Longrightarrow>
      view (snd (get k q)) = view q"
    and get_Some: "wf q \<Longrightarrow> can_get k q \<Longrightarrow> fst (get k q) = Some x \<Longrightarrow>
      mset (view q) = add_mset x (mset (view (snd (get k q))))"
begin

lemma run_wf:
  "wf q \<Longrightarrow> legal_pool can_put can_get put get ops q \<Longrightarrow> wf (snd (run_pool put get ops q))"
proof (induction ops arbitrary: q)
  case (Cons op ops)
  show ?case
  proof (cases op)
    case (Put x)
    then show ?thesis using Cons wf_put by simp
  next
    case (Take k)
    then have "wf (snd (run_pool put get ops (snd (get k q))))"
      using Cons wf_get by simp
    then show ?thesis using Take by (simp add: Let_def split_beta)
  qed
qed simp

text \<open>Conservation: taken tasks and remaining tasks together are the initial and the put ones.\<close>

lemma conservation:
  "wf q \<Longrightarrow> legal_pool can_put can_get put get ops q \<Longrightarrow>
   run_pool put get ops q = (taken, q') \<Longrightarrow>
   mset taken + mset (view q') = mset (view q) + mset (puts ops)"
proof (induction ops arbitrary: q taken)
  case Nil
  then show ?case by simp
next
  case (Cons op ops)
  show ?case
  proof (cases op)
    case (Put x)
    then have "mset taken + mset (view q') = mset (view (put x q)) + mset (puts ops)"
      using Cons wf_put by auto
    then show ?thesis using Put Cons.prems view_put by simp
  next
    case (Take k)
    obtain r q1 where rq: "get k q = (r, q1)" by (cases "get k q")
    obtain rs where rs: "run_pool put get ops q1 = (rs, q')"
      "taken = (case r of None \<Rightarrow> rs | Some x \<Rightarrow> x # rs)"
      using Cons.prems(3) Take rq by (auto split: prod.splits)
    have "mset rs + mset (view q') = mset (view q1) + mset (puts ops)"
      using Cons.IH [of q1 rs] Cons.prems wf_get [of q k] rs(1) rq Take by auto
    then show ?thesis
      using rs(2) Take Cons.prems get_None [of q k] get_Some [of q k] rq by (cases r) auto
  qed
qed

text \<open>If all tasks put are different, no task is ever handed out twice.\<close>

lemma handed_out_once:
  assumes "wf q" and "legal_pool can_put can_get put get ops q"
    and "run_pool put get ops q = (taken, q')" and "distinct (view q @ puts ops)"
  shows "distinct (taken @ view q')"
proof -
  have "mset (taken @ view q') = mset (view q @ puts ops)"
    using conservation [OF assms(1,2,3)] by simp
  then show ?thesis using assms(4) by (metis mset_eq_imp_distinct_iff)
qed

end

end
