(* ===== verification/LockFreeWorkQueue.thy ===== *)
theory LockFreeWorkQueue
  imports TaskPool Utils
begin

unbundle bit_operations_syntax

text \<open>
  \<open>LockFreeWorkQueue<T>\<close> of \<open>container/LockFreeWorkQueue.hpp\<close>, the Chase-Lev deque: the owner
  pushes and pops at \<open>_bottom\<close>, thieves steal at \<open>_top\<close>. Each operation is modelled as it runs
  without interference (a compare-and-swap then succeeds when its expected value was the one
  loaded). The indices are 64-bit words, since the code decrements \<open>_bottom\<close> before it checks for
  emptiness. \<open>junk\<close> stands for the contents of the cells \<open>new T[size]\<close> leaves uninitialised.
\<close>

section \<open>nextPowerOf2\<close>

definition nextPowerOf2 :: "u64 \<Rightarrow> u64" where
  "nextPowerOf2 n =
     (if n \<le> 1 then 1
      else let n = n - 1;
               n = n OR drop_bit 1 n;
               n = n OR drop_bit 2 n;
               n = n OR drop_bit 4 n;
               n = n OR drop_bit 8 n;
               n = n OR drop_bit 16 n;
               n = n OR drop_bit 32 n
           in n + 1)"

lemma nextPowerOf2_smeared:
  assumes "1 < n"
  shows "\<exists>y. smeared 64 (n - 1) y \<and> nextPowerOf2 n = y + 1"
proof -
  define a where "a = n - 1"
  define b where "b = a OR drop_bit 1 a"
  define c where "c = b OR drop_bit 2 b"
  define d where "d = c OR drop_bit 4 c"
  define e where "e = d OR drop_bit 8 d"
  define f where "f = e OR drop_bit 16 e"
  define g where "g = f OR drop_bit 32 f"
  have "smeared 2 a b" unfolding b_def by (rule smeared_double [OF smeared_refl]) simp
  then have "smeared 4 a c" unfolding c_def by (rule smeared_double) simp
  then have "smeared 8 a d" unfolding d_def by (rule smeared_double) simp
  then have "smeared 16 a e" unfolding e_def by (rule smeared_double) simp
  then have "smeared 32 a f" unfolding f_def by (rule smeared_double) simp
  then have "smeared 64 a g" unfolding g_def by (rule smeared_double) simp
  moreover have "nextPowerOf2 n = g + 1"
    using assms
    by (simp only: nextPowerOf2_def Let_def if_not_P not_le g_def f_def e_def d_def c_def b_def a_def)
  ultimately show ?thesis unfolding a_def by blast
qed

lemma nextPowerOf2_correct:
  "unat (nextPowerOf2 n) = (if unat n \<le> 2 ^ 63 then least_pow2 (unat n) else 0)"
proof (cases "n \<le> 1")
  case True
  then have "unat n \<le> 1" by (metis unat_1 word_le_nat_alt)
  then show ?thesis using True by (simp add: nextPowerOf2_def least_pow2_small)
next
  case False
  then have n: "1 < n" by simp
  then obtain y where "smeared LENGTH(64) (n - 1) y" "nextPowerOf2 n = y + 1"
    using nextPowerOf2_smeared by auto
  then show ?thesis using smeared_succ_least_pow2 [OF _ n] by simp
qed

section \<open>CircularArray\<close>

record 'a circular_array =
  ca_buffer :: "'a list"
  ca_size :: u64

definition ca_new :: "'a \<Rightarrow> u64 \<Rightarrow> 'a circular_array" where
  "ca_new junk sz = \<lparr>ca_buffer = replicate (unat sz) junk, ca_size = sz\<rparr>"

definition ca_get :: "'a circular_array \<Rightarrow> u64 \<Rightarrow> 'a" where
  "ca_get a index = ca_buffer a ! unat (index mod ca_size a)"

definition ca_put :: "u64 \<Rightarrow> 'a \<Rightarrow> 'a circular_array \<Rightarrow> 'a circular_array" where
  "ca_put index item a = a\<lparr>ca_buffer := (ca_buffer a)[unat (index mod ca_size a) := item]\<rparr>"

text \<open>\<open>resize\<close>: \<open>for(size_t i = top; i < bottom; ++i) newArray->put(i, oldBuffer[i % _size])\<close>.\<close>

definition ca_resize :: "'a \<Rightarrow> u64 \<Rightarrow> u64 \<Rightarrow> 'a circular_array \<Rightarrow> 'a circular_array" where
  "ca_resize junk b t a =
     foldl (\<lambda>na i. ca_put (of_nat i) (ca_get a (of_nat i)) na)
       (ca_new junk (ca_size a * 2)) [unat t..<unat b]"

section \<open>The deque\<close>

record 'a lf_queue =
  lf_top :: u64
  lf_bottom :: u64
  lf_array :: "'a circular_array"
  lf_resizeCount :: u64
  lf_maxSize :: u64

definition lf_new :: "'a \<Rightarrow> u64 \<Rightarrow> 'a lf_queue" where
  "lf_new junk initialSize =
     \<lparr>lf_top = 0, lf_bottom = 0, lf_array = ca_new junk (nextPowerOf2 initialSize),
      lf_resizeCount = 0, lf_maxSize = 0\<rparr>"

definition lf_push :: "'a \<Rightarrow> 'a \<Rightarrow> 'a lf_queue \<Rightarrow> 'a lf_queue" where
  "lf_push junk item q =
     (let bottom = lf_bottom q; top = lf_top q; arr = lf_array q;
          full = (ca_size arr * 3 div 4 \<le> bottom - top);
          arr1 = (if full then ca_resize junk bottom top arr else arr);
          currentSize = bottom - top + 1
      in q\<lparr>lf_array := ca_put bottom item arr1,
           lf_resizeCount := (if full then lf_resizeCount q + 1 else lf_resizeCount q),
           lf_bottom := bottom + 1,
           lf_maxSize := (if lf_maxSize q < currentSize then currentSize else lf_maxSize q)\<rparr>)"

definition lf_pop :: "'a lf_queue \<Rightarrow> 'a option \<times> 'a lf_queue" where
  "lf_pop q =
     (let bottom = lf_bottom q - 1; top = lf_top q
      in if top \<le> bottom
         then (let result = ca_get (lf_array q) bottom
               in if top = bottom
                  then (Some result, q\<lparr>lf_top := top + 1, lf_bottom := bottom + 1\<rparr>)
                  else (Some result, q\<lparr>lf_bottom := bottom\<rparr>))
         else (None, q\<lparr>lf_bottom := bottom + 1\<rparr>))"

definition lf_steal :: "'a lf_queue \<Rightarrow> 'a option \<times> 'a lf_queue" where
  "lf_steal q =
     (let top = lf_top q; bottom = lf_bottom q
      in if top < bottom then (Some (ca_get (lf_array q) top), q\<lparr>lf_top := top + 1\<rparr>)
         else (None, q))"

definition lf_empty :: "'a lf_queue \<Rightarrow> bool" where
  "lf_empty q = (lf_bottom q \<le> lf_top q)"

definition lf_size :: "'a lf_queue \<Rightarrow> u64" where
  "lf_size q = (if lf_top q \<le> lf_bottom q then lf_bottom q - lf_top q else 0)"

definition lf_getResizeCount :: "'a lf_queue \<Rightarrow> u64" where
  "lf_getResizeCount q = lf_resizeCount q"

definition lf_getMaxSize :: "'a lf_queue \<Rightarrow> u64" where
  "lf_getMaxSize q = lf_maxSize q"

definition lf_getCapacity :: "'a lf_queue \<Rightarrow> u64" where
  "lf_getCapacity q = ca_size (lf_array q)"


section \<open>Invariant and abstraction\<close>

definition ca_wf :: "'a circular_array \<Rightarrow> bool" where
  "ca_wf a \<longleftrightarrow> unat (ca_size a) = length (ca_buffer a) \<and> ca_buffer a \<noteq> []"

definition ca_at :: "'a circular_array \<Rightarrow> nat \<Rightarrow> 'a" where
  "ca_at a i = ca_buffer a ! (i mod length (ca_buffer a))"

definition lf_wf :: "'a lf_queue \<Rightarrow> bool" where
  "lf_wf q \<longleftrightarrow> ca_wf (lf_array q) \<and> unat (lf_top q) \<le> unat (lf_bottom q) \<and>
     unat (lf_bottom q) - unat (lf_top q) \<le> length (ca_buffer (lf_array q))"

text \<open>The tasks in the deque, from the one to be stolen next to the one to be popped next.\<close>

definition lf_view :: "'a lf_queue \<Rightarrow> 'a list" where
  "lf_view q = map (ca_at (lf_array q)) [unat (lf_top q)..<unat (lf_bottom q)]"

text \<open>
  Room for one more push: the bottom index does not wrap around, and the sizes computed in
  64 bits (\<open>_size * 3 / 4\<close> and \<open>_size * 2\<close>) do not overflow.
\<close>

definition lf_room :: "'a lf_queue \<Rightarrow> bool" where
  "lf_room q \<longleftrightarrow> unat (lf_bottom q) + 1 < 2 ^ 64 \<and> unat (ca_size (lf_array q)) < 2 ^ 61"

lemma unat_of_nat64: "i < 2 ^ 64 \<Longrightarrow> unat (of_nat i :: u64) = i"
  by (simp add: unat_of_nat_small)

lemma unat_bound64: "unat (w :: u64) < 2 ^ 64"
  using unsigned_less [of w] by simp

lemma ca_get_at: "ca_wf a \<Longrightarrow> ca_get a i = ca_at a (unat i)"
  by (simp add: ca_wf_def ca_get_def ca_at_def unat_mod)

lemma ca_put_wf: "ca_wf a \<Longrightarrow> ca_wf (ca_put i x a)"
  by (simp add: ca_wf_def ca_put_def)

lemma ca_put_length [simp]: "length (ca_buffer (ca_put i x a)) = length (ca_buffer a)"
  by (simp add: ca_put_def)

lemma mod_neq_within: "i < (b::nat) \<Longrightarrow> b - i < n \<Longrightarrow> i mod n \<noteq> b mod n"
proof
  assume "i < b" "b - i < n" "i mod n = b mod n"
  then have "n dvd b - i" by (metis mod_eq_dvd_iff_nat less_imp_le)
  then show False using \<open>i < b\<close> \<open>b - i < n\<close> by (auto dest: dvd_imp_le)
qed

lemma ca_at_put_same: "ca_wf a \<Longrightarrow> ca_at (ca_put i x a) (unat i) = x"
  by (simp add: ca_wf_def ca_put_def ca_at_def unat_mod)

lemma ca_at_put_other:
  "ca_wf a \<Longrightarrow> j < unat i \<Longrightarrow> unat i - j < length (ca_buffer a) \<Longrightarrow>
   ca_at (ca_put i x a) j = ca_at a j"
  using mod_neq_within [of j "unat i" "length (ca_buffer a)"]
  by (simp add: ca_wf_def ca_put_def ca_at_def unat_mod)

lemma ca_resize_invariant:
  assumes "ca_wf a" "ca_wf na" "t \<le> b" "b < 2 ^ 64" "b - t \<le> length (ca_buffer na)"
  shows "let r = foldl (\<lambda>na i. ca_put (of_nat i) (ca_get a (of_nat i)) na) na [t..<b]
    in ca_wf r \<and> length (ca_buffer r) = length (ca_buffer na) \<and> (\<forall>i. t \<le> i \<and> i < b \<longrightarrow> ca_at r i = ca_at a i)"
  using assms(3-)
proof (induction b)
  case 0
  then show ?case using assms(2) by simp
next
  case (Suc b)
  show ?case
  proof (cases "t = Suc b")
    case True
    then show ?thesis using assms(2) by (auto simp: Let_def)
  next
    case False
    let ?r = "foldl (\<lambda>na i. ca_put (of_nat i) (ca_get a (of_nat i)) na) na [t..<b]"
    have IH: "ca_wf ?r" "length (ca_buffer ?r) = length (ca_buffer na)"
      "\<And>i. t \<le> i \<Longrightarrow> i < b \<Longrightarrow> ca_at ?r i = ca_at a i"
      using Suc False by (auto simp: Let_def)
    have b: "unat (of_nat b :: u64) = b" using Suc.prems by (intro unat_of_nat64) simp
    have "ca_at (ca_put (of_nat b) (ca_get a (of_nat b)) ?r) i = ca_at a i"
      if "t \<le> i" "i < Suc b" for i
    proof (cases "i = b")
      case True
      then show ?thesis
        using ca_at_put_same [OF IH(1), of "of_nat b"] ca_get_at [OF assms(1), of "of_nat b"] b by simp
    next
      case F: False
      then show ?thesis
        using that IH ca_at_put_other [OF IH(1), of i "of_nat b"] b Suc.prems(3) by simp
    qed
    then show ?thesis
      using IH ca_put_wf [OF IH(1)] False Suc.prems(1) by (simp add: Let_def)
  qed
qed

lemma ca_resize_spec:
  assumes "ca_wf a" and "unat t \<le> unat b"
    and "unat b - unat t \<le> length (ca_buffer a)" and "unat (ca_size a) < 2 ^ 61"
  shows "ca_wf (ca_resize junk b t a)"
    and "length (ca_buffer (ca_resize junk b t a)) = 2 * length (ca_buffer a)"
    and "unat t \<le> i \<Longrightarrow> i < unat b \<Longrightarrow> ca_at (ca_resize junk b t a) i = ca_at a i"
proof -
  have sz: "unat (ca_size a * 2) = 2 * length (ca_buffer a)"
    using assms(1,4) by (simp add: ca_wf_def unat_word_ariths(2))
  then have "ca_wf (ca_new junk (ca_size a * 2))"
    using assms(1) by (auto simp: ca_wf_def ca_new_def)
  moreover have "length (ca_buffer (ca_new junk (ca_size a * 2))) = 2 * length (ca_buffer a)"
    using sz by (simp add: ca_new_def)
  ultimately have "let r = ca_resize junk b t a in ca_wf r \<and>
      length (ca_buffer r) = 2 * length (ca_buffer a) \<and>
      (\<forall>i. unat t \<le> i \<and> i < unat b \<longrightarrow> ca_at r i = ca_at a i)"
    using ca_resize_invariant [OF assms(1), of "ca_new junk (ca_size a * 2)" "unat t" "unat b"]
      assms(2,3) unat_bound64 [of b]
    by (simp add: ca_resize_def Let_def)
  then show "ca_wf (ca_resize junk b t a)"
    and "length (ca_buffer (ca_resize junk b t a)) = 2 * length (ca_buffer a)"
    and "unat t \<le> i \<Longrightarrow> i < unat b \<Longrightarrow> ca_at (ca_resize junk b t a) i = ca_at a i"
    by (auto simp: Let_def)
qed

section \<open>The operations on the abstraction\<close>

lemma lf_full_iff:
  assumes "lf_wf q" and "lf_room q"
  shows "ca_size (lf_array q) * 3 div 4 \<le> lf_bottom q - lf_top q \<longleftrightarrow>
    length (ca_buffer (lf_array q)) * 3 div 4 \<le> unat (lf_bottom q) - unat (lf_top q)"
proof -
  have "unat (ca_size (lf_array q) * 3) = length (ca_buffer (lf_array q)) * 3"
    using assms by (simp add: lf_wf_def ca_wf_def lf_room_def unat_word_ariths(2))
  moreover have "unat (lf_bottom q - lf_top q) = unat (lf_bottom q) - unat (lf_top q)"
    using assms(1) by (intro unat_minus_le) (simp add: lf_wf_def word_le_nat_alt)
  ultimately show ?thesis by (simp add: word_le_nat_alt unat_div)
qed

lemma lf_push_array:
  assumes "lf_wf q" and "lf_room q"
  obtains a where "lf_array (lf_push junk x q) = ca_put (lf_bottom q) x a" "ca_wf a"
    "unat (lf_bottom q) - unat (lf_top q) < length (ca_buffer a)"
    "\<And>i. unat (lf_top q) \<le> i \<Longrightarrow> i < unat (lf_bottom q) \<Longrightarrow> ca_at a i = ca_at (lf_array q) i"
proof (cases "ca_size (lf_array q) * 3 div 4 \<le> lf_bottom q - lf_top q")
  case True
  let ?a = "ca_resize junk (lf_bottom q) (lf_top q) (lf_array q)"
  have "ca_wf (lf_array q)" "unat (lf_top q) \<le> unat (lf_bottom q)"
    "unat (lf_bottom q) - unat (lf_top q) \<le> length (ca_buffer (lf_array q))"
    "unat (ca_size (lf_array q)) < 2 ^ 61"
    using assms by (auto simp: lf_wf_def lf_room_def)
  note spec = ca_resize_spec [OF this, where junk = junk]
  have "0 < length (ca_buffer (lf_array q))" using assms(1) by (simp add: lf_wf_def ca_wf_def)
  then have "unat (lf_bottom q) - unat (lf_top q) < length (ca_buffer ?a)"
    using assms(1) unfolding spec(2) lf_wf_def by linarith
  then show ?thesis
    using that [of ?a] spec(1,3) True by (simp add: lf_push_def Let_def)
next
  case False
  then have "unat (lf_bottom q) - unat (lf_top q) < length (ca_buffer (lf_array q)) * 3 div 4"
    using lf_full_iff [OF assms] by simp
  also have "\<dots> \<le> length (ca_buffer (lf_array q))" by simp
  finally show ?thesis
    using that [of "lf_array q"] False assms(1) by (simp add: lf_push_def lf_wf_def Let_def)
qed

lemma lf_push_index [simp]:
  "lf_top (lf_push junk x q) = lf_top q" "lf_bottom (lf_push junk x q) = lf_bottom q + 1"
  by (simp_all add: lf_push_def Let_def)

lemma lf_push_spec:
  assumes "lf_wf q" and "lf_room q"
  shows "lf_wf (lf_push junk x q)" and "lf_view (lf_push junk x q) = lf_view q @ [x]"
proof -
  obtain a where a: "lf_array (lf_push junk x q) = ca_put (lf_bottom q) x a" "ca_wf a"
    "unat (lf_bottom q) - unat (lf_top q) < length (ca_buffer a)"
    "\<And>i. unat (lf_top q) \<le> i \<Longrightarrow> i < unat (lf_bottom q) \<Longrightarrow> ca_at a i = ca_at (lf_array q) i"
    using lf_push_array [OF assms] by blast
  have b: "unat (lf_bottom q + 1) = unat (lf_bottom q) + 1"
    using assms(2) by (intro unat_Suc_word) (simp add: lf_room_def)
  have le: "unat (lf_top q) \<le> unat (lf_bottom q)" using assms(1) by (simp add: lf_wf_def)
  show "lf_wf (lf_push junk x q)"
    using a ca_put_wf [OF a(2)] b le by (simp add: lf_wf_def)
  have "ca_at (ca_put (lf_bottom q) x a) i = ca_at (lf_array q) i"
    if "unat (lf_top q) \<le> i" "i < unat (lf_bottom q)" for i
    using ca_at_put_other [OF a(2) that(2)] a(3,4) that by simp
  then show "lf_view (lf_push junk x q) = lf_view q @ [x]"
    using b le a(1) ca_at_put_same [OF a(2)] by (simp add: lf_view_def)
qed

lemma lf_index_facts:
  assumes "lf_wf q"
  shows "lf_top q < lf_bottom q \<longleftrightarrow> lf_view q \<noteq> []"
    and "lf_top q < lf_bottom q \<Longrightarrow> unat (lf_bottom q - 1) = unat (lf_bottom q) - 1"
proof -
  show "lf_top q < lf_bottom q \<longleftrightarrow> lf_view q \<noteq> []"
    using assms by (auto simp: lf_view_def lf_wf_def word_less_nat_alt)
  show "unat (lf_bottom q - 1) = unat (lf_bottom q) - 1" if "lf_top q < lf_bottom q"
    using that by (intro unat_minus_one) auto
qed

lemma lf_steal_spec:
  assumes "lf_wf q"
  shows "lf_wf (snd (lf_steal q))"
    and "lf_view q = [] \<Longrightarrow> lf_steal q = (None, q)"
    and "lf_view q = x # xs \<Longrightarrow> fst (lf_steal q) = Some x \<and> lf_view (snd (lf_steal q)) = xs"
proof -
  have b: "unat (lf_top q + 1) = unat (lf_top q) + 1" if "lf_top q < lf_bottom q"
    using that unat_bound64 [of "lf_bottom q"] by (intro unat_Suc_word) (simp add: word_less_nat_alt)
  show "lf_wf (snd (lf_steal q))"
    using assms b by (auto simp: lf_steal_def lf_wf_def Let_def word_less_nat_alt)
  show "lf_view q = [] \<Longrightarrow> lf_steal q = (None, q)"
    using lf_index_facts(1) [OF assms] by (simp add: lf_steal_def)
  assume v: "lf_view q = x # xs"
  then have lt: "lf_top q < lf_bottom q" using lf_index_facts(1) [OF assms] by simp
  then have "lf_view q = ca_at (lf_array q) (unat (lf_top q)) #
      map (ca_at (lf_array q)) [Suc (unat (lf_top q))..<unat (lf_bottom q)]"
    by (simp add: lf_view_def upt_conv_Cons word_less_nat_alt)
  then show "fst (lf_steal q) = Some x \<and> lf_view (snd (lf_steal q)) = xs"
    using v lt b [OF lt] assms by (simp add: lf_steal_def lf_view_def lf_wf_def Let_def ca_get_at)
qed

lemma lf_pop_cases:
  assumes "lf_wf q" and "lf_bottom q \<noteq> 0"
  shows "unat (lf_bottom q) = unat (lf_top q) \<Longrightarrow> lf_pop q = (None, q)"
    and "unat (lf_bottom q) = Suc (unat (lf_top q)) \<Longrightarrow>
      lf_pop q = (Some (ca_at (lf_array q) (unat (lf_top q))), q\<lparr>lf_top := lf_bottom q\<rparr>)"
    and "unat (lf_bottom q) = Suc (Suc n) \<Longrightarrow> unat (lf_top q) \<le> n \<Longrightarrow>
      lf_pop q = (Some (ca_at (lf_array q) (Suc n)), q\<lparr>lf_bottom := lf_bottom q - 1\<rparr>)"
proof -
  have b: "unat (lf_bottom q - 1) = unat (lf_bottom q) - 1" using assms(2) by (rule unat_minus_one)
  have wf: "ca_wf (lf_array q)" using assms(1) by (simp add: lf_wf_def)
  show "lf_pop q = (None, q)" if "unat (lf_bottom q) = unat (lf_top q)"
  proof -
    have "\<not> lf_top q \<le> lf_bottom q - 1"
      using that assms(2) unfolding word_le_nat_alt b by (simp add: unat_eq_0 [symmetric])
    then show ?thesis by (simp add: lf_pop_def Let_def)
  qed
  show "lf_pop q = (Some (ca_at (lf_array q) (unat (lf_top q))), q\<lparr>lf_top := lf_bottom q\<rparr>)"
    if "unat (lf_bottom q) = Suc (unat (lf_top q))"
  proof -
    have "lf_top q = lf_bottom q - 1" unfolding word_unat_eq_iff b that by simp
    then show ?thesis by (simp add: lf_pop_def Let_def ca_get_at [OF wf])
  qed
  show "lf_pop q = (Some (ca_at (lf_array q) (Suc n)), q\<lparr>lf_bottom := lf_bottom q - 1\<rparr>)"
    if "unat (lf_bottom q) = Suc (Suc n)" "unat (lf_top q) \<le> n"
  proof -
    have "lf_top q \<le> lf_bottom q - 1" "lf_top q \<noteq> lf_bottom q - 1"
      unfolding word_unat_eq_iff word_le_nat_alt b using that by auto
    then show ?thesis using b that(1) by (simp add: lf_pop_def Let_def ca_get_at [OF wf])
  qed
qed

lemma lf_pop_spec:
  assumes "lf_wf q" and "lf_bottom q \<noteq> 0"
  shows "lf_wf (snd (lf_pop q))"
    and "lf_view q = [] \<Longrightarrow> lf_pop q = (None, q)"
    and "lf_view q = xs @ [x] \<Longrightarrow> fst (lf_pop q) = Some x \<and> lf_view (snd (lf_pop q)) = xs"
proof -
  have b: "unat (lf_bottom q - 1) = unat (lf_bottom q) - 1" using assms(2) by (rule unat_minus_one)
  have le: "unat (lf_top q) \<le> unat (lf_bottom q)" using assms(1) by (simp add: lf_wf_def)
  note pop = lf_pop_cases [OF assms]
  consider "unat (lf_bottom q) = unat (lf_top q)" | "unat (lf_bottom q) = Suc (unat (lf_top q))"
    | n where "unat (lf_bottom q) = Suc (Suc n)" "unat (lf_top q) \<le> n"
    using le by (metis le_SucE le_antisym not0_implies_Suc le_0_eq)
  then have "lf_wf (snd (lf_pop q)) \<and> (lf_view q = [] \<longrightarrow> lf_pop q = (None, q)) \<and>
    (lf_view q = xs @ [x] \<longrightarrow> fst (lf_pop q) = Some x \<and> lf_view (snd (lf_pop q)) = xs)"
  proof cases
    case 1
    then show ?thesis using pop(1) assms(1) by (simp add: lf_view_def)
  next
    case 2
    then show ?thesis using pop(2) assms(1) by (simp add: lf_view_def lf_wf_def)
  next
    case (3 n)
    then show ?thesis using pop(3) assms(1) b by (auto simp add: lf_view_def lf_wf_def)
  qed
  then show "lf_wf (snd (lf_pop q))" and "lf_view q = [] \<Longrightarrow> lf_pop q = (None, q)"
    and "lf_view q = xs @ [x] \<Longrightarrow> fst (lf_pop q) = Some x \<and> lf_view (snd (lf_pop q)) = xs"
    by blast+
qed

section \<open>The deque as a task pool\<close>

datatype lf_take_kind = OwnerPop | ThiefSteal

fun lf_get :: "lf_take_kind \<Rightarrow> 'a lf_queue \<Rightarrow> 'a option \<times> 'a lf_queue" where
  "lf_get OwnerPop q = lf_pop q"
| "lf_get ThiefSteal q = lf_steal q"

text \<open>\<open>pop\<close> is safe once \<open>_bottom\<close> has left 0; before that \<open>_bottom - 1\<close> wraps around.\<close>

fun lf_can_get :: "lf_take_kind \<Rightarrow> 'a lf_queue \<Rightarrow> bool" where
  "lf_can_get OwnerPop q = (lf_bottom q \<noteq> 0)"
| "lf_can_get ThiefSteal q = True"

lemma lf_get_spec:
  assumes "lf_wf q" and "lf_can_get k q"
  shows "lf_wf (snd (lf_get k q))"
    and "fst (lf_get k q) = None \<Longrightarrow> lf_view (snd (lf_get k q)) = lf_view q"
    and "fst (lf_get k q) = Some x \<Longrightarrow>
      mset (lf_view q) = add_mset x (mset (lf_view (snd (lf_get k q))))"
proof -
  have "lf_wf (snd (lf_get k q)) \<and>
    (fst (lf_get k q) = None \<longrightarrow> lf_view (snd (lf_get k q)) = lf_view q) \<and>
    (fst (lf_get k q) = Some x \<longrightarrow>
      mset (lf_view q) = add_mset x (mset (lf_view (snd (lf_get k q)))))"
  proof (cases k)
    case OwnerPop
    then have "lf_bottom q \<noteq> 0" using assms(2) by simp
    note spec = lf_pop_spec [OF assms(1) this]
    show ?thesis
      using OwnerPop spec(1,2) spec(3) [of "butlast (lf_view q)" "last (lf_view q)"]
      by (cases "lf_view q" rule: rev_cases) auto
  next
    case ThiefSteal
    show ?thesis
      using ThiefSteal lf_steal_spec(1,2) [OF assms(1)] lf_steal_spec(3) [OF assms(1)]
      by (cases "lf_view q") auto
  qed
  then show "lf_wf (snd (lf_get k q))"
    and "fst (lf_get k q) = None \<Longrightarrow> lf_view (snd (lf_get k q)) = lf_view q"
    and "fst (lf_get k q) = Some x \<Longrightarrow>
      mset (lf_view q) = add_mset x (mset (lf_view (snd (lf_get k q))))"
    by blast+
qed

interpretation lf: task_pool lf_wf lf_view lf_room lf_can_get "lf_push junk" lf_get
  for junk
  by unfold_locales (auto intro: lf_push_spec lf_get_spec)

lemma lf_new_wf: "unat n \<le> 2 ^ 63 \<Longrightarrow> lf_wf (lf_new junk n) \<and> lf_view (lf_new junk n) = []"
proof -
  assume n: "unat n \<le> 2 ^ 63"
  have "least_pow2 (unat n) \<noteq> 0"
  proof -
    obtain k where "unat n \<le> 2 ^ k" by (metis less_exp less_imp_le)
    then have "\<exists>k. least_pow2 (unat n) = 2 ^ k"
      unfolding least_pow2_def using LeastI [of "\<lambda>p. unat n \<le> p \<and> (\<exists>k. p = 2 ^ k)" "2 ^ k"] by auto
    then show ?thesis by auto
  qed
  then have "unat (nextPowerOf2 n) \<noteq> 0" using n nextPowerOf2_correct [of n] by simp
  then show ?thesis by (simp add: lf_new_def lf_wf_def lf_view_def ca_wf_def ca_new_def)
qed

text \<open>The indices of a default-sized queue, for closed examples.\<close>

lemma lf_steal_bottom [simp]: "lf_bottom (snd (lf_steal q)) = lf_bottom q"
  by (simp add: lf_steal_def Let_def)

lemma nextPowerOf2_256: "nextPowerOf2 256 = 256"
  by (simp add: nextPowerOf2_def word_le_nat_alt)

lemma lf_room_256:
  "lf_room (lf_new (0::nat) 256)" "lf_room (lf_push 0 x (lf_new (0::nat) 256))"
  by (simp_all add: lf_room_def lf_new_def nextPowerOf2_256 ca_new_def lf_push_def Let_def
      ca_put_def word_le_nat_alt)

section \<open>Properties\<close>

text \<open>
  The deque refines a plain list: a push appends, a steal removes the first task, a pop
  removes the last one, each keeping the invariant; on an empty deque steal and pop return false
  and change nothing. A push may grow the circular array in between. (\<open>pop\<close> is covered
  where \<open>_bottom\<close> is not 0.)
\<close>

theorem lock_free_queue_refines_list:
  assumes "lf_wf q" and "lf_room q" and "lf_bottom q \<noteq> 0"
  shows "lf_wf (lf_push junk x q) \<and> lf_view (lf_push junk x q) = lf_view q @ [x] \<and>
    lf_wf (snd (lf_steal q)) \<and> lf_view (snd (lf_steal q)) = tl (lf_view q) \<and>
    fst (lf_steal q) = (if lf_view q = [] then None else Some (hd (lf_view q))) \<and>
    lf_wf (snd (lf_pop q)) \<and> lf_view (snd (lf_pop q)) = butlast (lf_view q) \<and>
    fst (lf_pop q) = (if lf_view q = [] then None else Some (last (lf_view q)))"
proof -
  have "lf_view (snd (lf_steal q)) = tl (lf_view q) \<and>
      fst (lf_steal q) = (if lf_view q = [] then None else Some (hd (lf_view q)))"
    using lf_steal_spec(2,3) [OF assms(1)] by (cases "lf_view q") auto
  moreover have "lf_view (snd (lf_pop q)) = butlast (lf_view q) \<and>
      fst (lf_pop q) = (if lf_view q = [] then None else Some (last (lf_view q)))"
    using lf_pop_spec(2,3) [OF assms(1,3)] by (cases "lf_view q" rule: rev_cases) auto
  ultimately show ?thesis
    using lf_push_spec [OF assms(1,2)] lf_steal_spec(1) [OF assms(1)] lf_pop_spec(1) [OF assms(1,3)]
    by blast
qed

theorem lock_free_queue_refines_list_witness:
  "lf_view (snd (lf_pop (lf_push 0 7 (lf_new 0 1 :: nat lf_queue)))) = []"
proof -
  let ?q = "lf_push 0 7 (lf_new 0 1 :: nat lf_queue)"
  have n: "lf_wf (lf_new 0 1 :: nat lf_queue)" "lf_view (lf_new 0 1 :: nat lf_queue) = []"
    using lf_new_wf [of 1 "0 :: nat"] by auto
  have r: "lf_room (lf_new 0 1 :: nat lf_queue)" "lf_room ?q" "lf_bottom ?q \<noteq> 0"
    by (simp_all add: lf_room_def lf_new_def nextPowerOf2_def ca_new_def lf_push_def Let_def
        ca_put_def ca_resize_def)
  show ?thesis
    using lock_free_queue_refines_list [OF lf_push_spec(1) [OF n(1) r(1)] r(2,3), of 0 0]
      lf_push_spec(2) [OF n(1) r(1)] n(2) by simp
qed

text \<open>
  Starting from a new queue, over any sequence of pushes, owner pops and steals in which each
  met its precondition, the tasks handed out together with the tasks left are exactly the tasks
  pushed, so distinct tasks are handed out at most once.
\<close>

theorem lock_free_queue_conserves_tasks:
  assumes "unat n \<le> 2 ^ 63"
    and "legal_pool lf_room lf_can_get (lf_push junk) lf_get ops (lf_new junk n)"
    and "run_pool (lf_push junk) lf_get ops (lf_new junk n) = (taken, q)"
  shows "mset taken + mset (lf_view q) = mset (puts ops) \<and>
    (distinct (puts ops) \<longrightarrow> distinct (taken @ lf_view q))"
proof -
  have n: "lf_wf (lf_new junk n)" "lf_view (lf_new junk n) = []"
    using lf_new_wf [OF assms(1), of junk] by auto
  show ?thesis
    using lf.conservation [OF n(1) assms(2,3)] lf.handed_out_once [OF n(1) assms(2,3)] n(2) by simp
qed

theorem lock_free_queue_conserves_tasks_witness:
  "\<exists>taken q. run_pool (lf_push 0) lf_get
      [Put 1, Put 2, Take ThiefSteal, Take OwnerPop] (lf_new (0::nat) 256) = (taken, q) \<and>
    mset taken + mset (lf_view q) = {#1, 2#}"
proof -
  let ?ops = "[Put 1, Put 2, Take ThiefSteal, Take OwnerPop] :: (lf_take_kind, nat) pool_op list"
  have legal: "legal_pool lf_room lf_can_get (lf_push 0) lf_get ?ops (lf_new 0 256)"
    using lf_room_256 by (simp add: lf_new_def)
  obtain taken q where r: "run_pool (lf_push 0) lf_get ?ops (lf_new 0 256) = (taken, q)"
    by (cases "run_pool (lf_push 0) lf_get ?ops (lf_new 0 256)")
  have n: "unat (256 :: u64) \<le> 2 ^ 63" by simp
  have "mset taken + mset (lf_view q) = {#1, 2#}"
    using lock_free_queue_conserves_tasks [OF n legal r] by simp
  then show ?thesis using r by blast
qed

text \<open>
  A pop on a queue that never held a task does not return false: \<open>_bottom - 1\<close> wraps around
  to the largest index, the test \<open>top <= bottom\<close> succeeds, an uninitialised cell is returned as a
  task, and \<open>_bottom\<close> stays at the largest index, so that the queue from then on reports a
  size of \<open>2^64 - 1\<close>.
\<close>

theorem lock_free_pop_on_fresh_queue:
  assumes "unat n \<le> 2 ^ 63"
  shows "fst (lf_pop (lf_new junk n)) = Some junk \<and>
    unat (lf_size (snd (lf_pop (lf_new junk n)))) = 2 ^ 64 - 1"
proof -
  have "ca_wf (ca_new junk (nextPowerOf2 n))"
    using lf_new_wf [OF assms, of junk] by (simp add: lf_wf_def lf_new_def)
  then have pos: "0 < unat (nextPowerOf2 n)" by (simp add: ca_wf_def ca_new_def)
  then have "unat ((- 1) mod nextPowerOf2 n) < unat (nextPowerOf2 n)"
    by (simp add: unat_mod)
  then have "ca_get (ca_new junk (nextPowerOf2 n)) (- 1) = junk"
    by (simp add: ca_get_def ca_new_def)
  moreover have "(0 :: u64) \<noteq> - 1" by simp
  ultimately show ?thesis
    by (simp add: lf_pop_def lf_new_def lf_size_def Let_def unsigned_minus_1_eq_mask mask_eq_exp_minus_1)
qed

theorem lock_free_pop_on_fresh_queue_witness:
  "fst (lf_pop (lf_new (0::nat) 256)) = Some 0"
  using lock_free_pop_on_fresh_queue [of 256 "0::nat"] by simp

end
