(* ===== verification/DequeStatistics.thy ===== *)
theory DequeStatistics
  imports LockFreeWorkQueue
begin

text \<open>
  What the counters of \<open>LockFreeWorkQueue\<close> (\<open>getCapacity\<close>, \<open>getResizeCount\<close>, \<open>getMaxSize\<close>, \<open>size\<close>,
  \<open>empty\<close>) say: the array's shape after any sequence of operations, and the high-water mark. The
  operations are those of \<open>LockFreeWorkQueue\<close>.
\<close>

section \<open>Shape of the array\<close>

text \<open>\<open>c\<close> is the initial capacity. The array is never more than three quarters full.\<close>

definition lf_shape :: "nat \<Rightarrow> 'a lf_queue \<Rightarrow> bool" where
  "lf_shape c q \<longleftrightarrow> lf_wf q \<and> length (ca_buffer (lf_array q)) = c * 2 ^ unat (lf_resizeCount q) \<and>
     4 * length (lf_view q) \<le> 3 * length (ca_buffer (lf_array q)) \<and> length (lf_view q) \<le> unat (lf_maxSize q)"

lemma lf_view_length: "length (lf_view q) = unat (lf_bottom q) - unat (lf_top q)"
  by (simp add: lf_view_def)

lemma lf_size_view: "lf_wf q \<Longrightarrow> unat (lf_size q) = length (lf_view q) \<and> (lf_empty q \<longleftrightarrow> lf_view q = [])"
  by (auto simp: lf_size_def lf_empty_def lf_view_def lf_wf_def word_le_nat_alt unat_minus_le)

text \<open>The sizes the deque goes through: one more with each push, one less with each pop or steal.\<close>

fun peak :: "nat \<Rightarrow> ('k, 'a) pool_op list \<Rightarrow> nat" where
  "peak n [] = n"
| "peak n (Put x # ops) = max n (peak (Suc n) ops)"
| "peak n (Take k # ops) = max n (peak (n - 1) ops)"

lemma le_peak: "n \<le> peak n ops"
  by (cases "(n, ops)" rule: peak.cases) auto

lemma power_count_small:
  assumes "c * 2 ^ k < (2::nat) ^ 61" "0 < c"
  shows "k < 61"
proof (rule ccontr)
  assume "\<not> k < 61"
  then have "(2::nat) ^ 61 \<le> 2 ^ k" by (intro power_increasing) simp_all
  also have "2 ^ k \<le> c * 2 ^ k" using assms(2) by (cases c) simp_all
  finally show False using assms(1) by linarith
qed

lemma lf_push_buffer:
  assumes "lf_wf q" "lf_room q"
  shows "length (ca_buffer (lf_array (lf_push junk x q))) =
      (if length (ca_buffer (lf_array q)) * 3 div 4 \<le> length (lf_view q) then 2 else 1) *
        length (ca_buffer (lf_array q))"
    and "lf_resizeCount (lf_push junk x q) = lf_resizeCount q +
      (if length (ca_buffer (lf_array q)) * 3 div 4 \<le> length (lf_view q) then 1 else 0)"
proof -
  have "ca_wf (lf_array q)" "unat (lf_top q) \<le> unat (lf_bottom q)"
    "unat (lf_bottom q) - unat (lf_top q) \<le> length (ca_buffer (lf_array q))"
    "unat (ca_size (lf_array q)) < 2 ^ 61"
    using assms by (auto simp: lf_wf_def lf_room_def)
  note spec = ca_resize_spec(2) [OF this, where junk = junk]
  show "length (ca_buffer (lf_array (lf_push junk x q))) =
      (if length (ca_buffer (lf_array q)) * 3 div 4 \<le> length (lf_view q) then 2 else 1) *
        length (ca_buffer (lf_array q))"
    using lf_full_iff [OF assms] spec by (simp add: lf_push_def Let_def lf_view_length)
  show "lf_resizeCount (lf_push junk x q) = lf_resizeCount q +
      (if length (ca_buffer (lf_array q)) * 3 div 4 \<le> length (lf_view q) then 1 else 0)"
    using lf_full_iff [OF assms] by (simp add: lf_push_def Let_def lf_view_length)
qed

lemma lf_push_max:
  assumes "lf_wf q" "lf_room q"
  shows "unat (lf_maxSize (lf_push junk x q)) = max (unat (lf_maxSize q)) (Suc (length (lf_view q)))"
proof -
  have "lf_top q \<le> lf_bottom q" using assms(1) by (simp add: lf_wf_def word_le_nat_alt)
  then have d: "unat (lf_bottom q - lf_top q) = length (lf_view q)" by (simp add: lf_view_length unat_minus_le)
  moreover have "length (lf_view q) + 1 < 2 ^ 64" using assms(2) unfolding lf_view_length lf_room_def by linarith
  ultimately have "unat (lf_bottom q - lf_top q + 1) = Suc (length (lf_view q))"
    using unat_Suc_word [of "lf_bottom q - lf_top q"] by simp
  then show ?thesis by (simp add: lf_push_def Let_def word_less_nat_alt max_def)
qed

lemma lf_shape_push:
  assumes "lf_shape c q" "lf_room q" "0 < c"
  shows "lf_shape c (lf_push junk x q)"
proof -
  let ?l = "length (ca_buffer (lf_array q))" and ?n = "length (lf_view q)"
  have wf: "lf_wf q" and l: "?l = c * 2 ^ unat (lf_resizeCount q)" and le: "4 * ?n \<le> 3 * ?l"
    using assms(1) by (auto simp: lf_shape_def)
  have "?l < 2 ^ 61" using wf assms(2) by (simp add: lf_wf_def ca_wf_def lf_room_def)
  then have "unat (lf_resizeCount q) < 61" using l assms(3) power_count_small by metis
  then have k: "unat (lf_resizeCount q + 1) = Suc (unat (lf_resizeCount q))"
    using unat_Suc_word [of "lf_resizeCount q"] by simp
  have pos: "0 < ?l" using wf by (simp add: lf_wf_def ca_wf_def)
  note v = lf_push_spec [OF wf assms(2), of junk x]
  note b = lf_push_buffer [OF wf assms(2), of junk x] lf_push_max [OF wf assms(2), of junk x]
  show ?thesis
  proof (cases "?l * 3 div 4 \<le> ?n")
    case True
    have "4 * Suc ?n \<le> 3 * (2 * ?l)" using le pos by presburger
    then show ?thesis using v b k l True by (simp add: lf_shape_def)
  next
    case False
    then have "4 * Suc ?n \<le> 3 * ?l" by presburger
    then show ?thesis using v b l False by (simp add: lf_shape_def)
  qed
qed

lemma lf_get_shape:
  assumes "lf_shape c q" "lf_can_get k q"
  shows "lf_shape c (snd (lf_get k q))" "length (lf_view (snd (lf_get k q))) = length (lf_view q) - 1"
    "lf_maxSize (snd (lf_get k q)) = lf_maxSize q"
proof -
  have wf: "lf_wf q" using assms(1) by (simp add: lf_shape_def)
  have same: "lf_array (snd (lf_get k q)) = lf_array q" "lf_resizeCount (snd (lf_get k q)) = lf_resizeCount q"
    "lf_maxSize (snd (lf_get k q)) = lf_maxSize q"
    by (cases k; simp add: lf_pop_def lf_steal_def Let_def)+
  show len: "length (lf_view (snd (lf_get k q))) = length (lf_view q) - 1"
  proof (cases k)
    case OwnerPop
    then show ?thesis using lf_pop_spec(2,3) [OF wf] assms(2)
      by (cases "lf_view q" rule: rev_cases) auto
  next
    case ThiefSteal
    then show ?thesis using lf_steal_spec(2,3) [OF wf] by (cases "lf_view q") auto
  qed
  show "lf_shape c (snd (lf_get k q))"
    using assms(1) lf_get_spec(1) [OF wf assms(2)] same unfolding lf_shape_def len by auto
  show "lf_maxSize (snd (lf_get k q)) = lf_maxSize q" by (rule same(3))
qed

lemma lf_run_shape:
  assumes "lf_shape c q" "0 < c" "legal_pool lf_room lf_can_get (lf_push junk) lf_get ops q"
  shows "lf_shape c (snd (run_pool (lf_push junk) lf_get ops q)) \<and>
    unat (lf_maxSize (snd (run_pool (lf_push junk) lf_get ops q))) =
      max (unat (lf_maxSize q)) (peak (length (lf_view q)) ops)"
  using assms
proof (induction ops arbitrary: q)
  case Nil
  then show ?case by (simp add: lf_shape_def)
next
  case (Cons op ops)
  then have wf: "lf_wf q" "length (lf_view q) \<le> unat (lf_maxSize q)" by (auto simp: lf_shape_def)
  show ?case
  proof (cases op)
    case (Put x)
    then have room: "lf_room q" using Cons.prems(3) by simp
    show ?thesis
      using Put Cons.IH [OF lf_shape_push [OF Cons.prems(1) room Cons.prems(2), of junk x] Cons.prems(2)]
        Cons.prems(3) wf(2) lf_push_max [OF wf(1) room, of junk x] lf_push_spec(2) [OF wf(1) room, of junk x]
        le_peak [of "Suc (length (lf_view q))" ops]
      by auto
  next
    case (Take k)
    then have can: "lf_can_get k q" using Cons.prems(3) by simp
    note g = lf_get_shape [OF Cons.prems(1) can]
    show ?thesis
      using Take Cons.IH [OF g(1) Cons.prems(2)] Cons.prems(3) g(2,3) wf(2)
      by (auto simp: Let_def split_beta)
  qed
qed

section \<open>Property\<close>

text \<open>
  The deque's counters tell the truth, after any sequence of pushes, pops and steals that met their
  preconditions: the capacity is the least power of two that holds the requested size, doubled as often
  as \<open>getResizeCount\<close> says; the array is never filled above three quarters; \<open>size\<close> and \<open>empty\<close> are those of
  the tasks inside; and \<open>getMaxSize\<close> is the largest number of tasks there ever were.
\<close>

theorem deque_counters:
  assumes "unat n \<le> 2 ^ 63"
    and "legal_pool lf_room lf_can_get (lf_push junk) lf_get ops (lf_new junk n)"
    and "run_pool (lf_push junk) lf_get ops (lf_new junk n) = (taken, q)"
  shows "unat (lf_getCapacity q) = least_pow2 (unat n) * 2 ^ unat (lf_getResizeCount q) \<and>
    4 * length (lf_view q) \<le> 3 * unat (lf_getCapacity q) \<and>
    unat (lf_size q) = length (lf_view q) \<and> (lf_empty q \<longleftrightarrow> lf_view q = []) \<and>
    unat (lf_getMaxSize q) = peak 0 ops"
proof -
  let ?c = "least_pow2 (unat n)"
  note n = lf_new_wf [OF assms(1), of junk]
  have c: "length (ca_buffer (lf_array (lf_new junk n))) = ?c"
    using assms(1) by (simp add: lf_new_def ca_new_def nextPowerOf2_correct)
  moreover have "ca_buffer (lf_array (lf_new junk n)) \<noteq> []" using n by (simp add: lf_wf_def ca_wf_def)
  ultimately have pos: "0 < ?c" by (metis length_greater_0_conv)
  have "lf_shape ?c (lf_new junk n)" using n c by (simp add: lf_shape_def) (simp add: lf_new_def)
  from lf_run_shape [OF this pos assms(2)] assms(3) n
  have "lf_shape ?c q" "unat (lf_maxSize q) = peak 0 ops" by (simp_all add: lf_new_def)
  then show ?thesis using lf_size_view [of q]
    by (auto simp: lf_shape_def lf_getCapacity_def lf_getResizeCount_def lf_getMaxSize_def lf_wf_def ca_wf_def)
qed

theorem deque_counters_witness:
  "\<exists>taken q. run_pool (lf_push 0) lf_get [Put 1, Put 2, Take ThiefSteal, Take OwnerPop] (lf_new (0::nat) 256) =
     (taken, q) \<and> unat (lf_getMaxSize q) = 2 \<and> unat (lf_size q) = length (lf_view q)"
proof -
  let ?ops = "[Put 1, Put 2, Take ThiefSteal, Take OwnerPop] :: (lf_take_kind, nat) pool_op list"
  have legal: "legal_pool lf_room lf_can_get (lf_push 0) lf_get ?ops (lf_new 0 256)"
    using lf_room_256 by (simp add: lf_new_def)
  obtain taken q where r: "run_pool (lf_push 0) lf_get ?ops (lf_new 0 256) = (taken, q)"
    by (cases "run_pool (lf_push 0) lf_get ?ops (lf_new 0 256)")
  have n: "unat (256 :: u64) \<le> 2 ^ 63" by simp
  show ?thesis using r deque_counters [OF n legal r] by auto
qed

end
