(* ===== verification/DequeInterleaving.thy ===== *)
theory DequeInterleaving
  imports LockFreeWorkQueue
begin

text \<open>
  \<open>LockFreeWorkQueue\<close> with its threads interleaved: one owner that pushes and pops and any number of
  thieves, each access to a shared variable its own step, in any order (sequentially consistent; the
  weaker orders the code asks for are not modelled). Arrays are numbered: \<open>resize\<close> adds one, and a
  thief keeps the one it loaded, as its \<open>shared_ptr\<close> does. \<open>_bottom\<close> and \<open>_array\<close> are written by the owner
  only, so that the owner's own reads of them need no step. The two logs \<open>dq_pushed\<close> and \<open>dq_taken\<close> are
  not in the code; they record what was put in and what the operations gave out.
\<close>

section \<open>State and steps\<close>

text \<open>The owner: idle; in \<open>push\<close> before loading \<open>_top\<close>, storing the array, writing the cell, storing
  \<open>_bottom\<close>; in \<open>pop\<close> before loading \<open>_top\<close>, before the compare-and-swap for the last task, before putting
  \<open>_bottom\<close> back.\<close>

datatype 'a owner =
    OwIdle
  | OwPushTop 'a u64 | OwPushArray 'a u64 u64 | OwPushPut 'a u64 u64 | OwPushBottom 'a u64 u64
  | OwPopTop u64 | OwPopLast u64 u64 'a | OwPopRestore u64 "'a option"

text \<open>A thief in \<open>steal\<close>: before loading \<open>_top\<close>, \<open>_bottom\<close>, \<open>_array\<close>, reading the cell, the compare-and-swap.\<close>

datatype 'a thief =
    ThIdle | ThTop | ThBottom u64 | ThArray u64 | ThRead u64 nat | ThCas u64 'a

record 'a deque =
  dq_top :: u64
  dq_bottom :: u64
  dq_arrays :: "'a circular_array list"
  dq_resizeCount :: u64
  dq_maxSize :: u64
  dq_owner :: "'a owner"
  dq_thief :: "nat \<Rightarrow> 'a thief"
  dq_pushed :: "'a list"
  dq_taken :: "'a list"

definition dq_new :: "'a \<Rightarrow> u64 \<Rightarrow> 'a deque" where
  "dq_new junk initialSize =
     \<lparr>dq_top = 0, dq_bottom = 0, dq_arrays = [ca_new junk (nextPowerOf2 initialSize)], dq_resizeCount = 0,
      dq_maxSize = 0, dq_owner = OwIdle, dq_thief = (\<lambda>_. ThIdle), dq_pushed = [], dq_taken = []\<rparr>"

abbreviation dq_array :: "'a deque \<Rightarrow> 'a circular_array" where
  "dq_array s \<equiv> last (dq_arrays s)"

definition owner_push :: "'a \<Rightarrow> 'a deque \<Rightarrow> 'a deque option" where
  "owner_push junk s =
     (case dq_owner s of
        OwPushTop x bottom \<Rightarrow> Some (s\<lparr>dq_owner := OwPushArray x bottom (dq_top s)\<rparr>)
      | OwPushArray x bottom t \<Rightarrow>
          Some (if ca_size (dq_array s) * 3 div 4 \<le> bottom - t
                then s\<lparr>dq_arrays := dq_arrays s @ [ca_resize junk bottom t (dq_array s)],
                       dq_resizeCount := dq_resizeCount s + 1, dq_owner := OwPushPut x bottom t\<rparr>
                else s\<lparr>dq_owner := OwPushPut x bottom t\<rparr>)
      | OwPushPut x bottom t \<Rightarrow>
          Some (s\<lparr>dq_arrays := butlast (dq_arrays s) @ [ca_put bottom x (dq_array s)],
                  dq_owner := OwPushBottom x bottom t\<rparr>)
      | OwPushBottom x bottom t \<Rightarrow>
          (let currentSize = bottom - t + 1
           in Some (s\<lparr>dq_bottom := bottom + 1, dq_pushed := dq_pushed s @ [x],
                      dq_maxSize := (if dq_maxSize s < currentSize then currentSize else dq_maxSize s),
                      dq_owner := OwIdle\<rparr>))
      | _ \<Rightarrow> None)"

definition owner_pop :: "'a deque \<Rightarrow> 'a deque option" where
  "owner_pop s =
     (case dq_owner s of
        OwPopTop bottom \<Rightarrow>
          (let t = dq_top s
           in if t \<le> bottom
              then (let result = ca_get (dq_array s) bottom
                    in if t = bottom then Some (s\<lparr>dq_owner := OwPopLast bottom t result\<rparr>)
                       else Some (s\<lparr>dq_owner := OwIdle, dq_taken := dq_taken s @ [result]\<rparr>))
              else Some (s\<lparr>dq_owner := OwPopRestore bottom None\<rparr>))
      | OwPopLast bottom t result \<Rightarrow>
          Some (if dq_top s = t
                then s\<lparr>dq_top := t + 1, dq_taken := dq_taken s @ [result],
                       dq_owner := OwPopRestore bottom (Some result)\<rparr>
                else s\<lparr>dq_owner := OwPopRestore bottom None\<rparr>)
      | OwPopRestore bottom r \<Rightarrow> Some (s\<lparr>dq_bottom := bottom + 1, dq_owner := OwIdle\<rparr>)
      | _ \<Rightarrow> None)"

definition set_thief :: "nat \<Rightarrow> 'a thief \<Rightarrow> 'a deque \<Rightarrow> 'a deque" where
  "set_thief i th s = s\<lparr>dq_thief := (dq_thief s)(i := th)\<rparr>"

definition thief_step :: "nat \<Rightarrow> 'a deque \<Rightarrow> 'a deque option" where
  "thief_step i s =
     (case dq_thief s i of
        ThIdle \<Rightarrow> None
      | ThTop \<Rightarrow> Some (set_thief i (ThBottom (dq_top s)) s)
      | ThBottom t \<Rightarrow> Some (set_thief i (if t < dq_bottom s then ThArray t else ThIdle) s)
      | ThArray t \<Rightarrow> Some (set_thief i (ThRead t (length (dq_arrays s) - 1)) s)
      | ThRead t a \<Rightarrow> Some (set_thief i (ThCas t (ca_get (dq_arrays s ! a) t)) s)
      | ThCas t x \<Rightarrow>
          Some (if dq_top s = t then set_thief i ThIdle (s\<lparr>dq_top := t + 1, dq_taken := dq_taken s @ [x]\<rparr>)
                else set_thief i ThIdle s))"

datatype 'a deque_event = CallPush 'a | CallPop | OwnerStep | CallSteal nat | ThiefStep nat

text \<open>\<open>pop\<close> begins with the store of \<open>_bottom - 1\<close>.\<close>

definition deque_event :: "'a \<Rightarrow> 'a deque_event \<Rightarrow> 'a deque \<Rightarrow> 'a deque option" where
  "deque_event junk e s =
     (case e of
        CallPush x \<Rightarrow> (case dq_owner s of OwIdle \<Rightarrow> Some (s\<lparr>dq_owner := OwPushTop x (dq_bottom s)\<rparr>) | _ \<Rightarrow> None)
      | CallPop \<Rightarrow>
          (case dq_owner s of
             OwIdle \<Rightarrow> (let b = dq_bottom s - 1 in Some (s\<lparr>dq_bottom := b, dq_owner := OwPopTop b\<rparr>))
           | _ \<Rightarrow> None)
      | OwnerStep \<Rightarrow> (case owner_push junk s of Some t \<Rightarrow> Some t | None \<Rightarrow> owner_pop s)
      | CallSteal i \<Rightarrow> (if dq_thief s i = ThIdle then Some (set_thief i ThTop s) else None)
      | ThiefStep i \<Rightarrow> thief_step i s)"

text \<open>
  The calls the owner may make: a push while the indices and the array's size are far from overflowing,
  a pop once something has been pushed (see \<open>lf_room\<close> and \<open>lf_can_get\<close>).
\<close>

definition legal_call :: "'a deque_event \<Rightarrow> 'a deque \<Rightarrow> bool" where
  "legal_call e s =
     (case e of
        CallPush _ \<Rightarrow> unat (dq_bottom s) + 1 < 2 ^ 64 \<and> unat (ca_size (dq_array s)) < 2 ^ 61
      | CallPop \<Rightarrow> dq_bottom s \<noteq> 0
      | _ \<Rightarrow> True)"

inductive deque_next :: "'a \<Rightarrow> 'a deque \<Rightarrow> 'a deque \<Rightarrow> bool" for junk where
  deque_nextI: "legal_call e s \<Longrightarrow> deque_event junk e s = Some t \<Longrightarrow> deque_next junk s t"

inductive_cases deque_nextE: "deque_next junk s t"

section \<open>Abstraction\<close>

text \<open>
  The tasks in the deque are those between \<open>_top\<close> and where \<open>_bottom\<close> is, or was before the pop that has
  not decided yet.
\<close>

definition dq_end :: "'a deque \<Rightarrow> nat" where
  "dq_end s = (case dq_owner s of
      OwPopTop _ \<Rightarrow> Suc (unat (dq_bottom s)) | OwPopLast _ _ _ \<Rightarrow> Suc (unat (dq_bottom s))
    | OwPopRestore _ _ \<Rightarrow> Suc (unat (dq_bottom s)) | _ \<Rightarrow> unat (dq_bottom s))"

definition dq_view :: "'a deque \<Rightarrow> 'a list" where
  "dq_view s = map (ca_at (dq_array s)) [unat (dq_top s)..<dq_end s]"

text \<open>The specification: a list, with pushes at its end, steals at its front and pops at its end.\<close>

record 'a task_list =
  tl_tasks :: "'a list"
  tl_pushed :: "'a list"
  tl_taken :: "'a list"

definition deque_abs :: "'a deque \<Rightarrow> 'a task_list" where
  "deque_abs s = \<lparr>tl_tasks = dq_view s, tl_pushed = dq_pushed s, tl_taken = dq_taken s\<rparr>"

inductive task_list_step :: "'a task_list \<Rightarrow> 'a task_list \<Rightarrow> bool" where
  tl_nothing: "task_list_step l l"
| tl_push: "task_list_step \<lparr>tl_tasks = xs, tl_pushed = ps, tl_taken = ts\<rparr>
    \<lparr>tl_tasks = xs @ [x], tl_pushed = ps @ [x], tl_taken = ts\<rparr>"
| tl_steal: "task_list_step \<lparr>tl_tasks = x # xs, tl_pushed = ps, tl_taken = ts\<rparr>
    \<lparr>tl_tasks = xs, tl_pushed = ps, tl_taken = ts @ [x]\<rparr>"
| tl_pop: "task_list_step \<lparr>tl_tasks = xs @ [x], tl_pushed = ps, tl_taken = ts\<rparr>
    \<lparr>tl_tasks = xs, tl_pushed = ps, tl_taken = ts @ [x]\<rparr>"

section \<open>Invariant\<close>

text \<open>What the owner knows: its locals are current, and a push has room for its task.\<close>

definition owner_ok :: "'a deque \<Rightarrow> bool" where
  "owner_ok s \<longleftrightarrow>
     (let T = unat (dq_top s); B = unat (dq_bottom s); L = length (ca_buffer (dq_array s))
      in case dq_owner s of
        OwIdle \<Rightarrow> T \<le> B \<and> B - T \<le> L
      | OwPushTop x b \<Rightarrow> b = dq_bottom s \<and> T \<le> B \<and> B - T \<le> L \<and> B + 1 < 2 ^ 64 \<and> L < 2 ^ 61
      | OwPushArray x b t \<Rightarrow> b = dq_bottom s \<and> unat t \<le> T \<and> T \<le> B \<and> B - unat t \<le> L \<and> B + 1 < 2 ^ 64 \<and> L < 2 ^ 61
      | OwPushPut x b t \<Rightarrow> b = dq_bottom s \<and> T \<le> B \<and> B - T < L \<and> B + 1 < 2 ^ 64
      | OwPushBottom x b t \<Rightarrow>
          b = dq_bottom s \<and> T \<le> B \<and> B - T < L \<and> B + 1 < 2 ^ 64 \<and> ca_at (dq_array s) B = x
      | OwPopTop b \<Rightarrow> b = dq_bottom s \<and> T \<le> Suc B \<and> Suc B - T \<le> L \<and> Suc B < 2 ^ 64
      | OwPopLast b t x \<Rightarrow>
          b = dq_bottom s \<and> t = b \<and> B \<le> T \<and> T \<le> Suc B \<and> Suc B < 2 ^ 64 \<and> x = ca_at (dq_array s) B
      | OwPopRestore b r \<Rightarrow> b = dq_bottom s \<and> T = Suc B \<and> Suc B < 2 ^ 64)"

text \<open>
  What a thief knows: its \<open>_top\<close> is not newer than the real one, and as long as it is still the real one
  the cell it read, or is about to read, holds the first task.
\<close>

definition thief_ok :: "'a deque \<Rightarrow> 'a thief \<Rightarrow> bool" where
  "thief_ok s th \<longleftrightarrow>
     (case th of
        ThBottom t \<Rightarrow> unat t \<le> unat (dq_top s)
      | ThArray t \<Rightarrow> unat t \<le> unat (dq_top s) \<and> (t = dq_top s \<longrightarrow> unat t < dq_end s)
      | ThRead t a \<Rightarrow> unat t \<le> unat (dq_top s) \<and> a < length (dq_arrays s) \<and> ca_wf (dq_arrays s ! a) \<and>
          (t = dq_top s \<longrightarrow> unat t < dq_end s \<and> ca_at (dq_arrays s ! a) (unat t) = ca_at (dq_array s) (unat t))
      | ThCas t x \<Rightarrow> unat t \<le> unat (dq_top s) \<and>
          (t = dq_top s \<longrightarrow> unat t < dq_end s \<and> x = ca_at (dq_array s) (unat t))
      | _ \<Rightarrow> True)"

definition deque_inv :: "'a deque \<Rightarrow> bool" where
  "deque_inv s \<longleftrightarrow> dq_arrays s \<noteq> [] \<and> ca_wf (dq_array s) \<and> owner_ok s \<and> (\<forall>i. thief_ok s (dq_thief s i))"

text \<open>Steps that leave \<open>_top\<close> alone and the first task where it was keep what thieves know.\<close>

lemma thief_kept:
  assumes "thief_ok s th" and eq: "dq_top u = dq_top s"
    and live: "unat (dq_top s) < dq_end s \<Longrightarrow> unat (dq_top s) < dq_end u \<and>
      ca_at (dq_array u) (unat (dq_top s)) = ca_at (dq_array s) (unat (dq_top s))"
    and arrays: "\<And>a. a < length (dq_arrays s) \<Longrightarrow> ca_wf (dq_arrays s ! a) \<Longrightarrow>
      a < length (dq_arrays u) \<and> ca_wf (dq_arrays u ! a) \<and>
      (unat (dq_top s) < dq_end s \<and> ca_at (dq_arrays s ! a) (unat (dq_top s)) = ca_at (dq_array s) (unat (dq_top s)) \<longrightarrow>
       ca_at (dq_arrays u ! a) (unat (dq_top s)) = ca_at (dq_array u) (unat (dq_top s)))"
  shows "thief_ok u th"
proof (cases th)
  case (ThRead t a)
  then show ?thesis using assms(1) eq live arrays [of a] by (auto simp: thief_ok_def)
qed (use assms(1) eq live in \<open>auto simp: thief_ok_def\<close>)

lemma thief_kept_same:
  assumes "thief_ok s th" "dq_top u = dq_top s" "dq_arrays u = dq_arrays s"
    and "unat (dq_top s) < dq_end s \<Longrightarrow> unat (dq_top s) < dq_end u"
  shows "thief_ok u th"
  by (rule thief_kept [OF assms(1,2)]) (use assms(3,4) in auto)

lemma deque_inv_D:
  assumes "deque_inv s"
  shows "dq_arrays s \<noteq> []" "ca_wf (dq_array s)" "owner_ok s" "thief_ok s (dq_thief s i)"
  using assms by (auto simp: deque_inv_def)

lemma deque_abs_same:
  "dq_view u = dq_view s \<Longrightarrow> dq_pushed u = dq_pushed s \<Longrightarrow> dq_taken u = dq_taken s \<Longrightarrow>
   task_list_step (deque_abs s) (deque_abs u)"
  by (simp add: deque_abs_def tl_nothing)

text \<open>Steps of the owner that change neither \<open>_top\<close> nor the arrays.\<close>

lemma owner_quiet_step:
  assumes inv: "deque_inv s" and "dq_top u = dq_top s" "dq_arrays u = dq_arrays s" "dq_thief u = dq_thief s"
    and "owner_ok u" "unat (dq_top s) < dq_end s \<Longrightarrow> unat (dq_top s) < dq_end u"
  shows "deque_inv u"
  using assms(2-5) deque_inv_D [OF inv] thief_kept_same [OF _ assms(2,3,6)] by (auto simp: deque_inv_def)

lemma view_unchanged:
  "dq_top u = dq_top s \<Longrightarrow> dq_arrays u = dq_arrays s \<Longrightarrow> dq_end u = dq_end s \<Longrightarrow> dq_view u = dq_view s"
  by (simp add: dq_view_def)

lemma push_top_step:
  assumes inv: "deque_inv s" and "dq_owner s = OwPushTop x b" and "owner_push junk s = Some u"
  shows "deque_inv u \<and> task_list_step (deque_abs s) (deque_abs u)"
proof -
  have u: "u = s\<lparr>dq_owner := OwPushArray x b (dq_top s)\<rparr>" using assms(2,3) by (simp add: owner_push_def)
  have e: "dq_end u = dq_end s" using assms(2) by (simp add: u dq_end_def)
  have "owner_ok u" using deque_inv_D(3) [OF inv] assms(2) by (auto simp: u owner_ok_def Let_def)
  then have "deque_inv u" using e by (intro owner_quiet_step [OF inv]) (auto simp: u)
  moreover have "dq_view u = dq_view s" using e by (intro view_unchanged) (auto simp: u)
  ultimately show ?thesis by (auto simp: u intro: deque_abs_same)
qed

text \<open>A new array that has the live tasks where the old one had them.\<close>

lemma array_step:
  assumes inv: "deque_inv s"
    and top_u: "dq_top u = dq_top s" and th: "dq_thief u = dq_thief s" and e: "dq_end u = dq_end s"
    and wf: "ca_wf (dq_array u)" and ow: "owner_ok u"
    and cells: "\<And>i. unat (dq_top s) \<le> i \<Longrightarrow> i < dq_end s \<Longrightarrow> ca_at (dq_array u) i = ca_at (dq_array s) i"
    and arrays: "dq_arrays u = dq_arrays s @ [dq_array u] \<or> dq_arrays u = butlast (dq_arrays s) @ [dq_array u]"
  shows "deque_inv u" "dq_view u = dq_view s"
proof -
  show "dq_view u = dq_view s" by (simp add: dq_view_def top_u e cells)
  have ne: "dq_arrays s \<noteq> []" using deque_inv_D(1) [OF inv] .
  have "thief_ok u (dq_thief s i)" for i
  proof (rule thief_kept [OF deque_inv_D(4) [OF inv] top_u])
    show "unat (dq_top s) < dq_end u \<and> ca_at (dq_array u) (unat (dq_top s)) = ca_at (dq_array s) (unat (dq_top s))"
      if "unat (dq_top s) < dq_end s" using that e cells by simp
    fix a assume a: "a < length (dq_arrays s)" "ca_wf (dq_arrays s ! a)"
    have "dq_arrays u ! a = dq_arrays s ! a \<or> dq_arrays u ! a = dq_array u"
      by (rule disjE [OF arrays]; erule ssubst) (use a(1) in \<open>auto simp: nth_append nth_butlast less_Suc_eq\<close>)
    moreover have "length (dq_arrays s) \<le> length (dq_arrays u)"
      by (rule disjE [OF arrays]; drule arg_cong [where f = length]) (use ne in auto)
    then have "a < length (dq_arrays u)" using a(1) by simp
    ultimately show "a < length (dq_arrays u) \<and> ca_wf (dq_arrays u ! a) \<and>
      (unat (dq_top s) < dq_end s \<and> ca_at (dq_arrays s ! a) (unat (dq_top s)) = ca_at (dq_array s) (unat (dq_top s)) \<longrightarrow>
       ca_at (dq_arrays u ! a) (unat (dq_top s)) = ca_at (dq_array u) (unat (dq_top s)))"
      using a(2) wf cells by auto
  qed
  moreover have "dq_arrays u \<noteq> []" using arrays by auto
  ultimately show "deque_inv u" using wf ow th by (auto simp: deque_inv_def)
qed

lemma push_array_step:
  assumes inv: "deque_inv s" and ow: "dq_owner s = OwPushArray x b t" and step: "owner_push junk s = Some u"
  shows "deque_inv u \<and> task_list_step (deque_abs s) (deque_abs u)"
proof -
  let ?B = "unat (dq_bottom s)" and ?L = "length (ca_buffer (dq_array s))"
  have ok: "b = dq_bottom s" "unat t \<le> unat (dq_top s)" "unat (dq_top s) \<le> ?B" "?B - unat t \<le> ?L"
    "?B + 1 < 2 ^ 64" "?L < 2 ^ 61"
    using deque_inv_D(3) [OF inv] ow by (auto simp: owner_ok_def Let_def)
  have wf: "ca_wf (dq_array s)" using deque_inv_D(2) [OF inv] .
  have size: "unat (ca_size (dq_array s)) = ?L" "0 < ?L" using wf by (auto simp: ca_wf_def)
  have diff: "unat (b - t) = ?B - unat t"
    using ok(1-3) by (simp add: unat_minus_le word_le_nat_alt)
  have limit: "unat (ca_size (dq_array s) * 3 div 4) = ?L * 3 div 4"
    using ok(6) size by (simp add: unat_div unat_word_ariths(2))
  show ?thesis
  proof (cases "ca_size (dq_array s) * 3 div 4 \<le> b - t")
    case False
    then have u: "u = s\<lparr>dq_owner := OwPushPut x b t\<rparr>" using step ow by (simp add: owner_push_def)
    have e: "dq_end u = dq_end s" using ow by (simp add: u dq_end_def)
    have "?B - unat t < ?L * 3 div 4" using False unfolding word_le_nat_alt diff limit by simp
    then have "?B - unat (dq_top s) < ?L" using ok(2) by linarith
    then have "owner_ok u" using ok by (simp add: u owner_ok_def Let_def)
    then have "deque_inv u" using e by (intro owner_quiet_step [OF inv]) (auto simp: u)
    moreover have "dq_view u = dq_view s" using e by (intro view_unchanged) (auto simp: u)
    ultimately show ?thesis by (auto simp: u intro: deque_abs_same)
  next
    case True
    let ?a = "ca_resize junk b t (dq_array s)"
    have u: "u = s\<lparr>dq_arrays := dq_arrays s @ [?a], dq_resizeCount := dq_resizeCount s + 1,
        dq_owner := OwPushPut x b t\<rparr>" using step ow True by (simp add: owner_push_def)
    have "unat t \<le> unat b" using ok by simp
    note spec = ca_resize_spec [OF wf this, where junk = junk]
    have sp: "ca_wf ?a" "length (ca_buffer ?a) = 2 * ?L"
      "\<And>i. unat t \<le> i \<Longrightarrow> i < ?B \<Longrightarrow> ca_at ?a i = ca_at (dq_array s) i"
      using spec ok size by auto
    have e: "dq_end u = dq_end s" "dq_end s = ?B" using ow by (simp_all add: u dq_end_def)
    have "?B - unat (dq_top s) < 2 * ?L" using ok(2,4) size(2) by linarith
    then have "owner_ok u" using ok sp(2) by (simp add: u owner_ok_def Let_def)
    then have "deque_inv u" "dq_view u = dq_view s"
      using array_step [OF inv, of u] e sp ok(2) by (simp_all add: u)
    then show ?thesis by (auto simp: u intro: deque_abs_same)
  qed
qed

lemma push_put_step:
  assumes inv: "deque_inv s" and ow: "dq_owner s = OwPushPut x b t" and step: "owner_push junk s = Some u"
  shows "deque_inv u \<and> task_list_step (deque_abs s) (deque_abs u)"
proof -
  let ?B = "unat (dq_bottom s)" and ?L = "length (ca_buffer (dq_array s))"
  have ok: "b = dq_bottom s" "unat (dq_top s) \<le> ?B" "?B - unat (dq_top s) < ?L" "?B + 1 < 2 ^ 64"
    using deque_inv_D(3) [OF inv] ow by (auto simp: owner_ok_def Let_def)
  have wf: "ca_wf (dq_array s)" using deque_inv_D(2) [OF inv] .
  have u: "u = s\<lparr>dq_arrays := butlast (dq_arrays s) @ [ca_put b x (dq_array s)], dq_owner := OwPushBottom x b t\<rparr>"
    using step ow by (simp add: owner_push_def)
  have e: "dq_end u = dq_end s" "dq_end s = ?B" using ow by (simp_all add: u dq_end_def)
  have "owner_ok u" using ok ca_at_put_same [OF wf, of b x] by (simp add: u owner_ok_def Let_def)
  moreover have "ca_at (ca_put b x (dq_array s)) i = ca_at (dq_array s) i"
    if "unat (dq_top s) \<le> i" "i < ?B" for i
    using ca_at_put_other [OF wf, of i b x] that ok by simp
  ultimately have "deque_inv u" "dq_view u = dq_view s"
    using array_step [OF inv, of u] e ca_put_wf [OF wf] by (simp_all add: u)
  then show ?thesis by (auto simp: u intro: deque_abs_same)
qed

lemma push_bottom_step:
  assumes inv: "deque_inv s" and ow: "dq_owner s = OwPushBottom x b t" and step: "owner_push junk s = Some u"
  shows "deque_inv u \<and> task_list_step (deque_abs s) (deque_abs u)"
proof -
  let ?B = "unat (dq_bottom s)" and ?T = "unat (dq_top s)"
  have ok: "b = dq_bottom s" "?T \<le> ?B" "?B - ?T < length (ca_buffer (dq_array s))" "?B + 1 < 2 ^ 64"
      "ca_at (dq_array s) ?B = x"
    using deque_inv_D(3) [OF inv] ow by (auto simp: owner_ok_def Let_def)
  have b1: "unat (b + 1) = Suc ?B" using ok(1,4) unat_Suc_word [of b] by simp
  define m where "m = (if dq_maxSize s < b - t + 1 then b - t + 1 else dq_maxSize s)"
  have u: "u = s\<lparr>dq_bottom := b + 1, dq_pushed := dq_pushed s @ [x], dq_maxSize := m, dq_owner := OwIdle\<rparr>"
    using step ow by (simp add: owner_push_def Let_def m_def)
  have e: "dq_end u = Suc ?B" "dq_end s = ?B" using ow b1 by (simp_all add: u dq_end_def)
  have "owner_ok u" using ok b1 by (simp add: u owner_ok_def Let_def)
  then have "deque_inv u" using e by (intro owner_quiet_step [OF inv]) (auto simp: u)
  moreover have "dq_view u = dq_view s @ [x]" unfolding dq_view_def e using ok by (simp add: u)
  ultimately show ?thesis using tl_push [of "dq_view s"] by (simp add: deque_abs_def u)
qed

text \<open>Taking the first task, by a thief or by the owner for the last one: \<open>_top\<close> moves on.\<close>

lemma unat_top_Suc:
  assumes "unat (dq_top s) < dq_end s" "dq_end s < 2 ^ 64"
  shows "unat (dq_top s + 1) = Suc (unat (dq_top s))"
  using assms unat_Suc_word [of "dq_top s"] by simp

lemma end_bound:
  assumes "deque_inv s"
  shows "dq_end s < 2 ^ 64" "unat (dq_top s) \<le> dq_end s"
  using deque_inv_D(3) [OF assms] unat_bound64 [of "dq_bottom s"]
  by (auto simp: owner_ok_def dq_end_def Let_def split: owner.splits)

lemma thief_after_take:
  assumes "thief_ok s th" "dq_top u = dq_top s + 1" "unat (dq_top s + 1) = Suc (unat (dq_top s))"
    and "dq_arrays u = dq_arrays s"
  shows "thief_ok u th"
proof -
  have "t \<noteq> dq_top u \<and> unat t \<le> unat (dq_top u)" if "unat t \<le> unat (dq_top s)" for t
    using that assms(2,3) by auto
  then show ?thesis using assms(1,4) by (cases th) (auto simp: thief_ok_def)
qed

lemma view_head:
  assumes "unat (dq_top s) < dq_end s"
  shows "dq_view s = ca_at (dq_array s) (unat (dq_top s)) # map (ca_at (dq_array s)) [Suc (unat (dq_top s))..<dq_end s]"
  using assms by (simp add: dq_view_def upt_conv_Cons)

lemma take_top:
  assumes inv: "deque_inv s" and live: "unat (dq_top s) < dq_end s"
    and u: "dq_top u = dq_top s + 1" "dq_arrays u = dq_arrays s" "dq_end u = dq_end s"
      "dq_pushed u = dq_pushed s" "dq_taken u = dq_taken s @ [ca_at (dq_array s) (unat (dq_top s))]"
    and ow: "owner_ok u" and th: "\<And>j. dq_thief u j = ThIdle \<or> dq_thief u j = dq_thief s j"
  shows "deque_inv u \<and> task_list_step (deque_abs s) (deque_abs u)"
proof -
  have T: "unat (dq_top s + 1) = Suc (unat (dq_top s))" using unat_top_Suc [OF live] end_bound [OF inv] by simp
  have "thief_ok u (dq_thief u j)" for j
    using th [of j] thief_after_take [OF deque_inv_D(4) [OF inv] u(1) T u(2), of j] by (auto simp: thief_ok_def)
  then have "deque_inv u" using deque_inv_D(1,2) [OF inv] ow by (simp add: deque_inv_def u)
  moreover have "dq_view u = map (ca_at (dq_array s)) [Suc (unat (dq_top s))..<dq_end s]"
    by (simp add: dq_view_def u T)
  ultimately show ?thesis
    using tl_steal [of "ca_at (dq_array s) (unat (dq_top s))"] view_head [OF live] by (simp add: deque_abs_def u)
qed

lemma pop_top_step:
  assumes inv: "deque_inv s" and ow: "dq_owner s = OwPopTop b" and step: "owner_pop s = Some u"
  shows "deque_inv u \<and> task_list_step (deque_abs s) (deque_abs u)"
proof -
  let ?B = "unat (dq_bottom s)" and ?T = "unat (dq_top s)"
  have ok: "b = dq_bottom s" "?T \<le> Suc ?B" "Suc ?B - ?T \<le> length (ca_buffer (dq_array s))" "Suc ?B < 2 ^ 64"
    using deque_inv_D(3) [OF inv] ow by (auto simp: owner_ok_def Let_def)
  have get: "ca_get (dq_array s) b = ca_at (dq_array s) ?B"
    using ca_get_at [OF deque_inv_D(2) [OF inv]] ok(1) by simp
  have e: "dq_end s = Suc ?B" using ow by (simp add: dq_end_def)
  consider "?T = Suc ?B" | "dq_top s = b" | "?T < ?B" using ok by (metis word_unat_eq_iff le_SucE le_neq_implies_less)
  then show ?thesis
  proof cases
    case 1
    then have u: "u = s\<lparr>dq_owner := OwPopRestore b None\<rparr>"
      using step ow ok(1) by (simp add: owner_pop_def Let_def word_le_nat_alt)
    have e': "dq_end u = dq_end s" using ow by (simp add: u dq_end_def)
    have "owner_ok u" using 1 ok by (simp add: u owner_ok_def Let_def)
    then have "deque_inv u" using e' by (intro owner_quiet_step [OF inv]) (auto simp: u)
    moreover have "dq_view u = dq_view s" using e' by (intro view_unchanged) (auto simp: u)
    ultimately show ?thesis by (auto simp: u intro: deque_abs_same)
  next
    case 2
    then have u: "u = s\<lparr>dq_owner := OwPopLast b b (ca_at (dq_array s) ?B)\<rparr>"
      using step ow get by (simp add: owner_pop_def Let_def)
    have e': "dq_end u = dq_end s" using ow by (simp add: u dq_end_def)
    have "owner_ok u" using 2 ok by (simp add: u owner_ok_def Let_def)
    then have "deque_inv u" using e' by (intro owner_quiet_step [OF inv]) (auto simp: u)
    moreover have "dq_view u = dq_view s" using e' by (intro view_unchanged) (auto simp: u)
    ultimately show ?thesis by (auto simp: u intro: deque_abs_same)
  next
    case 3
    then have "dq_top s \<noteq> b" using ok(1) by auto
    with 3 have u: "u = s\<lparr>dq_owner := OwIdle, dq_taken := dq_taken s @ [ca_at (dq_array s) ?B]\<rparr>"
      using step ow ok(1) get by (auto simp: owner_pop_def Let_def word_le_nat_alt)
    have e': "dq_end u = ?B" by (simp add: u dq_end_def)
    have "owner_ok u" using 3 ok by (simp add: u owner_ok_def Let_def)
    then have "deque_inv u" using e' 3 by (intro owner_quiet_step [OF inv]) (auto simp: u)
    moreover have "dq_view s = dq_view u @ [ca_at (dq_array s) ?B]"
      using 3 unfolding dq_view_def e e' by (simp add: u)
    ultimately show ?thesis
      using tl_pop [of "dq_view u" "ca_at (dq_array s) ?B"] by (simp add: deque_abs_def) (simp add: u)
  qed
qed

lemma pop_last_step:
  assumes inv: "deque_inv s" and ow: "dq_owner s = OwPopLast b t x" and step: "owner_pop s = Some u"
  shows "deque_inv u \<and> task_list_step (deque_abs s) (deque_abs u)"
proof -
  let ?B = "unat (dq_bottom s)" and ?T = "unat (dq_top s)"
  have ok: "b = dq_bottom s" "t = b" "?B \<le> ?T" "?T \<le> Suc ?B" "Suc ?B < 2 ^ 64" "x = ca_at (dq_array s) ?B"
    using deque_inv_D(3) [OF inv] ow by (auto simp: owner_ok_def Let_def)
  have e: "dq_end s = Suc ?B" using ow by (simp add: dq_end_def)
  show ?thesis
  proof (cases "dq_top s = t")
    case True
    then have u: "u = s\<lparr>dq_top := t + 1, dq_taken := dq_taken s @ [x], dq_owner := OwPopRestore b (Some x)\<rparr>"
      using step ow by (simp add: owner_pop_def)
    have live: "?T < dq_end s" using True ok e by simp
    have "unat (t + 1) = Suc ?B" using unat_top_Suc [OF live] end_bound [OF inv] True ok by simp
    then have "owner_ok u" using ok by (simp add: u owner_ok_def Let_def)
    then show ?thesis by (intro take_top [OF inv live]) (use True ok ow e in \<open>auto simp: u dq_end_def\<close>)
  next
    case False
    then have u: "u = s\<lparr>dq_owner := OwPopRestore b None\<rparr>" using step ow by (simp add: owner_pop_def)
    have e': "dq_end u = dq_end s" using ow by (simp add: u dq_end_def)
    have "?T = Suc ?B" using False ok by (metis word_unat_eq_iff le_SucE le_antisym)
    then have "owner_ok u" using ok by (simp add: u owner_ok_def Let_def)
    then have "deque_inv u" using e' by (intro owner_quiet_step [OF inv]) (auto simp: u)
    moreover have "dq_view u = dq_view s" using e' by (intro view_unchanged) (auto simp: u)
    ultimately show ?thesis by (auto simp: u intro: deque_abs_same)
  qed
qed

lemma pop_restore_step:
  assumes inv: "deque_inv s" and ow: "dq_owner s = OwPopRestore b r" and step: "owner_pop s = Some u"
  shows "deque_inv u \<and> task_list_step (deque_abs s) (deque_abs u)"
proof -
  let ?B = "unat (dq_bottom s)" and ?T = "unat (dq_top s)"
  have ok: "b = dq_bottom s" "?T = Suc ?B" "Suc ?B < 2 ^ 64"
    using deque_inv_D(3) [OF inv] ow by (auto simp: owner_ok_def Let_def)
  have u: "u = s\<lparr>dq_bottom := b + 1, dq_owner := OwIdle\<rparr>" using step ow by (simp add: owner_pop_def)
  have b1: "unat (b + 1) = Suc ?B" using ok unat_Suc_word [of b] by simp
  have e: "dq_end u = dq_end s" using ow b1 by (simp add: u dq_end_def)
  have "owner_ok u" using ok b1 by (simp add: u owner_ok_def Let_def)
  then have "deque_inv u" using e by (intro owner_quiet_step [OF inv]) (auto simp: u)
  moreover have "dq_view u = dq_view s" using e by (intro view_unchanged) (auto simp: u)
  ultimately show ?thesis by (auto simp: u intro: deque_abs_same)
qed

text \<open>A step of a thief that only looks.\<close>

lemma owner_ok_thief: "owner_ok (set_thief i th s) = owner_ok s"
  by (cases "dq_owner s") (simp_all add: owner_ok_def set_thief_def Let_def)

lemma dq_end_thief: "dq_end (set_thief i th s) = dq_end s"
  by (cases "dq_owner s") (simp_all add: dq_end_def set_thief_def)

lemma thief_look:
  assumes inv: "deque_inv s" and th: "thief_ok s th"
  shows "deque_inv (set_thief i th s) \<and> task_list_step (deque_abs s) (deque_abs (set_thief i th s))"
proof -
  let ?u = "set_thief i th s"
  have "thief_ok ?u w" if "thief_ok s w" for w
    using that dq_end_thief [of i th s] by (intro thief_kept_same [OF that]) (simp_all add: set_thief_def)
  moreover have "dq_thief ?u j = th \<or> dq_thief ?u j = dq_thief s j" for j by (simp add: set_thief_def)
  ultimately have "thief_ok ?u (dq_thief ?u j)" for j using th deque_inv_D(4) [OF inv] by metis
  then have "deque_inv ?u"
    using deque_inv_D(1-3) [OF inv] owner_ok_thief [of i th s] by (auto simp: deque_inv_def) (auto simp: set_thief_def)
  moreover have "deque_abs ?u = deque_abs s"
    by (simp add: deque_abs_def dq_view_def dq_end_thief) (simp add: set_thief_def)
  ultimately show ?thesis by (simp add: tl_nothing)
qed

lemma owner_after_steal:
  assumes "owner_ok s" "unat (dq_top s) < dq_end s" "unat (dq_top s + 1) = Suc (unat (dq_top s))"
    and "dq_top u = dq_top s + 1" "dq_bottom u = dq_bottom s" "dq_arrays u = dq_arrays s" "dq_owner u = dq_owner s"
  shows "owner_ok u"
  using assms by (auto simp: owner_ok_def dq_end_def Let_def split: owner.splits)

lemma bottom_end: "unat (dq_bottom s) \<le> dq_end s"
  by (simp add: dq_end_def split: owner.splits)

lemma thief_step_ok:
  assumes inv: "deque_inv s" and step: "thief_step i s = Some u"
  shows "deque_inv u \<and> task_list_step (deque_abs s) (deque_abs u)"
proof -
  note ok = deque_inv_D(4) [OF inv, of i]
  show ?thesis
  proof (cases "dq_thief s i")
    case ThIdle
    then show ?thesis using step by (simp add: thief_step_def)
  next
    case ThTop
    then have "u = set_thief i (ThBottom (dq_top s)) s" using step by (simp add: thief_step_def)
    then show ?thesis using thief_look [OF inv] by (simp add: thief_ok_def)
  next
    case (ThBottom t)
    then have "u = set_thief i (if t < dq_bottom s then ThArray t else ThIdle) s" using step by (simp add: thief_step_def)
    moreover have "thief_ok s (if t < dq_bottom s then ThArray t else ThIdle)"
      using ok ThBottom bottom_end [of s] by (auto simp: thief_ok_def word_less_nat_alt)
    ultimately show ?thesis using thief_look [OF inv] by simp
  next
    case (ThArray t)
    then have "u = set_thief i (ThRead t (length (dq_arrays s) - 1)) s" using step by (simp add: thief_step_def)
    moreover have "thief_ok s (ThRead t (length (dq_arrays s) - 1))"
      using ok ThArray deque_inv_D(1,2) [OF inv] by (auto simp: thief_ok_def last_conv_nth)
    ultimately show ?thesis using thief_look [OF inv] by simp
  next
    case (ThRead t a)
    then have "u = set_thief i (ThCas t (ca_get (dq_arrays s ! a) t)) s" using step by (simp add: thief_step_def)
    moreover have "thief_ok s (ThCas t (ca_get (dq_arrays s ! a) t))"
      using ok ThRead by (auto simp: thief_ok_def ca_get_at)
    ultimately show ?thesis using thief_look [OF inv] by simp
  next
    case (ThCas t x)
    show ?thesis
    proof (cases "dq_top s = t")
      case False
      then have "u = set_thief i ThIdle s" using step ThCas by (simp add: thief_step_def)
      then show ?thesis using thief_look [OF inv, of ThIdle] by (simp add: thief_ok_def)
    next
      case True
      then have u: "u = set_thief i ThIdle (s\<lparr>dq_top := t + 1, dq_taken := dq_taken s @ [x]\<rparr>)"
        using step ThCas by (simp add: thief_step_def)
      have live: "unat (dq_top s) < dq_end s" and x: "x = ca_at (dq_array s) (unat (dq_top s))"
        using ok ThCas True by (auto simp: thief_ok_def)
      have "owner_ok u"
        using owner_after_steal [OF deque_inv_D(3) [OF inv] live] unat_top_Suc [OF live] end_bound [OF inv] True
        by (simp add: u set_thief_def)
      then show ?thesis
        by (intro take_top [OF inv live]) (use True x in \<open>auto simp: u set_thief_def dq_end_def split: owner.splits\<close>)
    qed
  qed
qed

lemma owner_step_ok:
  assumes inv: "deque_inv s" and step: "deque_event junk OwnerStep s = Some u"
  shows "deque_inv u \<and> task_list_step (deque_abs s) (deque_abs u)"
proof (cases "dq_owner s")
  case OwIdle
  then show ?thesis using step by (simp add: deque_event_def owner_push_def owner_pop_def)
next
  case (OwPushTop x b)
  then have "owner_push junk s = Some u" using step by (simp add: deque_event_def owner_push_def)
  then show ?thesis by (rule push_top_step [OF inv OwPushTop])
next
  case (OwPushArray x b t)
  then have "owner_push junk s = Some u" using step by (simp add: deque_event_def owner_push_def split: if_splits)
  then show ?thesis by (rule push_array_step [OF inv OwPushArray])
next
  case (OwPushPut x b t)
  then have "owner_push junk s = Some u" using step by (simp add: deque_event_def owner_push_def)
  then show ?thesis by (rule push_put_step [OF inv OwPushPut])
next
  case (OwPushBottom x b t)
  then have "owner_push junk s = Some u" using step by (simp add: deque_event_def owner_push_def Let_def)
  then show ?thesis by (rule push_bottom_step [OF inv OwPushBottom])
next
  case (OwPopTop b)
  then show ?thesis using pop_top_step [OF inv OwPopTop] step by (simp add: deque_event_def owner_push_def)
next
  case (OwPopLast b t x)
  then show ?thesis using pop_last_step [OF inv OwPopLast] step by (simp add: deque_event_def owner_push_def)
next
  case (OwPopRestore b r)
  then show ?thesis using pop_restore_step [OF inv OwPopRestore] step by (simp add: deque_event_def owner_push_def)
qed

lemma deque_next_ok:
  assumes inv: "deque_inv s" and next_step: "deque_next junk s u"
  shows "deque_inv u \<and> task_list_step (deque_abs s) (deque_abs u)"
proof -
  from next_step obtain e where legal: "legal_call e s" and step: "deque_event junk e s = Some u"
    by (rule deque_nextE)
  show ?thesis
  proof (cases e)
    case (CallPush x)
    then have ow: "dq_owner s = OwIdle" and u: "u = s\<lparr>dq_owner := OwPushTop x (dq_bottom s)\<rparr>"
      using step by (auto simp: deque_event_def split: owner.splits)
    have e: "dq_end u = dq_end s" using ow by (simp add: u dq_end_def)
    have "unat (ca_size (dq_array s)) = length (ca_buffer (dq_array s))"
      using deque_inv_D(2) [OF inv] by (simp add: ca_wf_def)
    then have "owner_ok u" using legal CallPush deque_inv_D(3) [OF inv] ow
      by (simp add: u owner_ok_def legal_call_def Let_def)
    then have "deque_inv u" using e by (intro owner_quiet_step [OF inv]) (auto simp: u)
    moreover have "dq_view u = dq_view s" using e by (intro view_unchanged) (auto simp: u)
    ultimately show ?thesis by (auto simp: u intro: deque_abs_same)
  next
    case CallPop
    then have ow: "dq_owner s = OwIdle" and u: "u = s\<lparr>dq_bottom := dq_bottom s - 1, dq_owner := OwPopTop (dq_bottom s - 1)\<rparr>"
      using step by (auto simp: deque_event_def Let_def split: owner.splits)
    have nz: "dq_bottom s \<noteq> 0" using legal CallPop by (simp add: legal_call_def)
    then have b: "Suc (unat (dq_bottom s - 1)) = unat (dq_bottom s)"
      using unat_minus_one [OF nz] by (simp add: unat_eq_0 [symmetric])
    then have e: "dq_end u = dq_end s" using ow by (simp add: u dq_end_def)
    have "owner_ok u" using deque_inv_D(3) [OF inv] ow b unat_bound64 [of "dq_bottom s"]
      by (simp add: u owner_ok_def Let_def)
    then have "deque_inv u" using e by (intro owner_quiet_step [OF inv]) (auto simp: u)
    moreover have "dq_view u = dq_view s" using e by (intro view_unchanged) (auto simp: u)
    ultimately show ?thesis by (auto simp: u intro: deque_abs_same)
  next
    case OwnerStep
    then show ?thesis using owner_step_ok [OF inv] step by simp
  next
    case (CallSteal i)
    then have "u = set_thief i ThTop s" using step by (auto simp: deque_event_def split: if_splits)
    then show ?thesis using thief_look [OF inv, of ThTop] by (simp add: thief_ok_def)
  next
    case (ThiefStep i)
    then show ?thesis using thief_step_ok [OF inv] step by (simp add: deque_event_def)
  qed
qed

lemma dq_new_inv:
  assumes "unat n \<le> 2 ^ 63"
  shows "deque_inv (dq_new junk n)"
proof -
  have "ca_wf (ca_new junk (nextPowerOf2 n))" using lf_new_wf [OF assms, of junk] by (simp add: lf_wf_def lf_new_def)
  then show ?thesis by (simp add: deque_inv_def dq_new_def owner_ok_def thief_ok_def)
qed

definition dq_init :: "'a \<Rightarrow> 'a deque \<Rightarrow> bool" where
  "dq_init junk s \<longleftrightarrow> (\<exists>n. unat n \<le> 2 ^ 63 \<and> s = dq_new junk n)"

interpretation dq: stepping "dq_init junk" "deque_next junk" deque_inv for junk
  by unfold_locales (auto simp: dq_init_def intro: dq_new_inv dest: deque_next_ok)

section \<open>Properties\<close>

definition balanced :: "'a task_list \<Rightarrow> bool" where
  "balanced l \<longleftrightarrow> mset (tl_pushed l) = mset (tl_taken l) + mset (tl_tasks l)"

lemma task_list_step_balanced: "task_list_step l m \<Longrightarrow> balanced l \<Longrightarrow> balanced m"
  by (induction rule: task_list_step.induct) (auto simp: balanced_def)

lemma deque_balanced:
  "reach (dq_init junk) (deque_next junk) s \<Longrightarrow> balanced (deque_abs s)"
proof (induction rule: reach.induct)
  case (reach_init s)
  then show ?case by (auto simp: dq_init_def dq_new_def balanced_def deque_abs_def dq_view_def dq_end_def)
next
  case (reach_step s t)
  from deque_next_ok [OF dq.reach_inv [OF reach_step.hyps(1)] reach_step.hyps(2)] reach_step.IH
  show ?case by (auto intro: task_list_step_balanced)
qed


text \<open>The last task, wanted by the owner and a thief, who gets it.\<close>

definition legal_event :: "'a \<Rightarrow> 'a deque_event \<Rightarrow> 'a deque \<Rightarrow> 'a deque option" where
  "legal_event junk e s = (if legal_call e s then deque_event junk e s else None)"

lemma legal_event_next: "legal_event junk e s = Some t \<Longrightarrow> deque_next junk s t"
  by (auto simp: legal_event_def intro: deque_nextI split: if_splits)

definition contested :: "nat deque_event list" where
  "contested = [CallPush 5, OwnerStep, OwnerStep, OwnerStep, OwnerStep, CallSteal 0, ThiefStep 0, ThiefStep 0,
     CallPop, ThiefStep 0, OwnerStep, ThiefStep 0, ThiefStep 0]"

lemmas deque_eval = dq_new_def nextPowerOf2_def legal_event_def legal_call_def deque_event_def owner_push_def
  owner_pop_def thief_step_def set_thief_def ca_new_def ca_put_def ca_get_def ca_resize_def Let_def

lemma replicate_two: "replicate 2 x = [x, x]"
  by (simp add: numeral_2_eq_2)

lemma contested_run:
  "map_option (\<lambda>s. (dq_pushed s, dq_taken s, dq_owner s))
     (run_opt (legal_event (0::nat)) (contested @ [OwnerStep]) (dq_new 0 1)) = Some ([5], [5], OwPopRestore 0 None)"
  by (simp add: contested_def deque_eval replicate_two)

lemma contested_states:
  obtains s t where "run_opt (legal_event (0::nat)) contested (dq_new 0 1) = Some s"
    "legal_event 0 OwnerStep s = Some t" "dq_pushed t = [5]" "dq_taken t = [5]" "dq_owner t = OwPopRestore 0 None"
    "run_opt (legal_event (0::nat)) (contested @ [OwnerStep]) (dq_new 0 1) = Some t"
  using contested_run by (auto simp: run_opt_append split: option.splits)

lemma contested_reach:
  assumes "run_opt (legal_event (0::nat)) es (dq_new 0 1) = Some s"
  shows "reach (dq_init 0) (deque_next 0) s"
proof (rule run_opt_reach [OF legal_event_next _ assms])
  have "dq_init 0 (dq_new (0::nat) 1)" unfolding dq_init_def by (rule exI [of _ 1]) simp
  then show "reach (dq_init 0) (deque_next 0) (dq_new (0::nat) 1)" by (rule reach.reach_init)
qed




end
