(* ===== verification/WorkQueue.thy ===== *)
theory WorkQueue
  imports TaskPool
begin

text \<open>
  \<open>WorkQueue\<close> of \<open>container/WorkQueue.hpp\<close>: a mutex-protected \<open>std::deque\<close> of tasks with a
  condition variable. The record holds the three members: the tasks, the thread that holds
  \<open>_lock\<close> (if any) and the threads blocked in \<open>_cv\<close>. An operation that takes the lock for its
  whole body is one atomic function of the state; \<open>pop\<close>, which evaluates its predicate and then
  blocks, is split into the steps a concurrent \<open>finalize\<close> can come between (the interleavings
  are in \<open>TaskExecutor\<close>).
\<close>

section \<open>State and operations\<close>

record 'f work_queue =
  wq_tasks :: "'f list"
  wq_lock :: "nat option"
  wq_waiters :: "nat list"

definition wq_new :: "'f work_queue" where
  "wq_new = \<lparr>wq_tasks = [], wq_lock = None, wq_waiters = []\<rparr>"

text \<open>\<open>notify_one\<close> wakes one blocked thread (the longest waiting), \<open>notify_all\<close> every one.\<close>

definition wq_notify_one :: "'f work_queue \<Rightarrow> 'f work_queue" where
  "wq_notify_one q = q\<lparr>wq_waiters := tl (wq_waiters q)\<rparr>"

definition wq_push :: "'f \<Rightarrow> 'f work_queue \<Rightarrow> 'f work_queue" where
  "wq_push task q = wq_notify_one (q\<lparr>wq_tasks := wq_tasks q @ [task]\<rparr>)"

text \<open>The wait predicate of \<open>pop\<close>, and what \<open>pop\<close> does once it holds.\<close>

definition wq_ready :: "bool \<Rightarrow> 'f work_queue \<Rightarrow> bool" where
  "wq_ready running q = (wq_tasks q \<noteq> [] \<or> \<not> running)"

definition wq_take :: "'f work_queue \<Rightarrow> 'f option \<times> 'f work_queue" where
  "wq_take q =
     (case wq_tasks q of [] \<Rightarrow> (None, q) | t # ts \<Rightarrow> (Some t, q\<lparr>wq_tasks := ts\<rparr>))"

text \<open>\<open>pop\<close> as seen from outside: \<open>None\<close> when the caller has to block.\<close>

definition wq_pop :: "bool \<Rightarrow> 'f work_queue \<Rightarrow> ('f option \<times> 'f work_queue) option" where
  "wq_pop running q = (if wq_ready running q then Some (wq_take q) else None)"

definition wq_empty :: "'f work_queue \<Rightarrow> bool" where
  "wq_empty q = (wq_tasks q = [])"

definition wq_try_steal :: "'f work_queue \<Rightarrow> 'f option \<times> 'f work_queue" where
  "wq_try_steal q =
     (if wq_lock q \<noteq> None \<or> wq_tasks q = [] then (None, q)
      else (Some (last (wq_tasks q)), q\<lparr>wq_tasks := butlast (wq_tasks q)\<rparr>))"

definition wq_size :: "'f work_queue \<Rightarrow> nat" where
  "wq_size q = length (wq_tasks q)"

definition wq_finalize :: "'f work_queue \<Rightarrow> 'f work_queue" where
  "wq_finalize q = q\<lparr>wq_waiters := []\<rparr>"

lemmas wq_defs = wq_new_def wq_notify_one_def wq_push_def wq_ready_def wq_take_def wq_pop_def
  wq_empty_def wq_try_steal_def wq_size_def wq_finalize_def

section \<open>The queue as a task pool\<close>

datatype wq_take_kind = Pop | Steal

fun wq_get :: "wq_take_kind \<Rightarrow> 'f work_queue \<Rightarrow> 'f option \<times> 'f work_queue" where
  "wq_get Pop q = wq_take q"
| "wq_get Steal q = wq_try_steal q"

lemma mset_butlast_last: "xs \<noteq> [] \<Longrightarrow> mset xs = add_mset (last xs) (mset (butlast xs))"
  by (metis append_butlast_last_id mset.simps(2) mset_append mset_single_iff_right
      add_mset_add_single mset.simps(1) union_mset_add_mset_right add.right_neutral)

interpretation wq: task_pool "\<lambda>q. True" wq_tasks "\<lambda>q. True" "\<lambda>k q. True" wq_push wq_get
proof unfold_locales
  fix q :: "'a work_queue" and k x
  show "wq_tasks (wq_push x q) = wq_tasks q @ [x]"
    by (simp add: wq_defs)
  show "wq_tasks (snd (wq_get k q)) = wq_tasks q" if "fst (wq_get k q) = None"
    using that by (cases k) (auto simp: wq_defs split: list.splits if_splits)
  show "mset (wq_tasks q) = add_mset x (mset (wq_tasks (snd (wq_get k q))))"
    if "fst (wq_get k q) = Some x"
    using that by (cases k) (auto simp: wq_defs mset_butlast_last split: list.splits if_splits)
qed simp_all

section \<open>Properties\<close>

text \<open>
  In any sequence of pushes, pops and steals the tasks handed out together with the tasks
  still queued are exactly the tasks pushed: none is lost, none is handed out twice.
\<close>

theorem work_queue_conserves_tasks:
  "mset (fst (run_pool wq_push wq_get ops wq_new)) +
   mset (wq_tasks (snd (run_pool wq_push wq_get ops wq_new))) = mset (puts ops)"
  using wq.conservation [where ops = ops and q = wq_new, OF TrueI legal_pool_total prod.collapse [symmetric]]
  by (simp add: wq_new_def)

end
