(* ===== verification/TaskExecutor.thy ===== *)
theory TaskExecutor
  imports Utils WorkQueue
begin

unbundle bit_operations_syntax

text \<open>
  \<open>TaskExecutor\<close> of \<open>threading/TaskExecutor.hpp\<close>: one \<open>WorkQueue\<close> and one worker per thread. Each
  worker is where it is in its loop; every critical section is one step, except the wait of
  \<open>WorkQueue::pop\<close>, which tests its predicate, then blocks (giving the lock back), and tests again
  when woken. Workers, loads and \<open>stop\<close> interleave freely. The library's tasks catch what they throw
  (\<open>packaged_task\<close>), so a task always ends.
\<close>

section \<open>State\<close>

text \<open>
  At the loop test; about to lock in \<open>pop\<close>; predicate false, about to block; blocked in the condition
  variable; executing a popped task; about to look whether the own queue is empty; about to try the
  \<open>i\<close>-th neighbour; executing a stolen task; out of the loop.
\<close>

datatype 'f worker =
    AtTest | AtPop | Blocking | Waiting | Running 'f | AtIdle | AtSteal nat | RunningStolen 'f | Gone

datatype stop_phase = NotStopping | StopAt nat | StopWait nat | StopDone

record 'f executor =
  ex_running :: bool
  ex_index :: u32
  ex_queues :: "'f work_queue list"
  ex_workers :: "'f worker list"
  ex_stop :: stop_phase
  ex_executed :: "'f list"

definition executor_new :: "u32 \<Rightarrow> 'f executor" where
  "executor_new threadCount =
     (let adjusted = unat (next_pwr_of_2 threadCount)
      in \<lparr>ex_running = True, ex_index = 0, ex_queues = replicate adjusted wq_new,
          ex_workers = replicate adjusted AtTest, ex_stop = NotStopping, ex_executed = []\<rparr>)"

section \<open>Operations\<close>

text \<open>\<open>_index & (_queues.size() - 1)\<close>: \<open>uint32_t\<close> and \<open>size_t\<close> meet in 64 bits, the result is \<open>uint32_t\<close>.\<close>

definition executor_slot :: "u32 \<Rightarrow> nat \<Rightarrow> nat" where
  "executor_slot index n = unat (ucast ((ucast index :: u64) AND (of_nat n - 1)) :: u32)"

definition set_queue :: "nat \<Rightarrow> 'f work_queue \<Rightarrow> 'f executor \<Rightarrow> 'f executor" where
  "set_queue i q x = x\<lparr>ex_queues := (ex_queues x)[i := q]\<rparr>"

definition set_worker :: "nat \<Rightarrow> 'f worker \<Rightarrow> 'f executor \<Rightarrow> 'f executor" where
  "set_worker i w x = x\<lparr>ex_workers := (ex_workers x)[i := w]\<rparr>"

text \<open>\<open>load\<close>; \<open>None\<close> while the queue's lock is held.\<close>

definition executor_load :: "'f \<Rightarrow> 'f executor \<Rightarrow> ('f executor option) res" where
  "executor_load task x =
     (let i = executor_slot (ex_index x) (length (ex_queues x)); q = ex_queues x ! i
      in if length (ex_queues x) \<le> i then Inl (UndefinedBehaviour ''_queues[queueIndex]'')
         else if wq_lock q \<noteq> None then ok None
         else ok (Some (set_queue i (wq_push task q) (x\<lparr>ex_index := ex_index x + 1\<rparr>))))"

definition executor_stop :: "'f executor \<Rightarrow> 'f executor" where
  "executor_stop x = (if \<not> ex_running x then x else x\<lparr>ex_running := False, ex_stop := StopAt 0\<rparr>)"

text \<open>The loop of \<open>stop\<close>: \<open>finalize\<close> queue \<open>i\<close>, wait for worker \<open>i\<close>.\<close>

definition executor_stopper :: "'f executor \<Rightarrow> 'f executor option" where
  "executor_stopper x =
     (case ex_stop x of
        StopAt i \<Rightarrow>
          (if i < length (ex_queues x)
           then Some (set_queue i (wq_finalize (ex_queues x ! i)) (x\<lparr>ex_stop := StopWait i\<rparr>))
           else Some (x\<lparr>ex_stop := StopDone\<rparr>))
      | StopWait i \<Rightarrow> (if ex_workers x ! i = Gone then Some (x\<lparr>ex_stop := StopAt (Suc i)\<rparr>) else None)
      | _ \<Rightarrow> None)"

text \<open>One step of worker \<open>i\<close>.\<close>

definition worker_step :: "nat \<Rightarrow> 'f executor \<Rightarrow> 'f executor option" where
  "worker_step i x =
     (if length (ex_workers x) \<le> i then None
      else let q = ex_queues x ! i; n = length (ex_queues x)
      in case ex_workers x ! i of
        AtTest \<Rightarrow> Some (set_worker i (if ex_running x then AtPop else Gone) x)
      | AtPop \<Rightarrow>
          (if wq_ready (ex_running x) q
           then (case wq_take q of
                   (Some task, q1) \<Rightarrow> Some (set_worker i (Running task) (set_queue i q1 x))
                 | (None, q1) \<Rightarrow> Some (set_worker i AtIdle x))
           else Some (set_worker i Blocking (set_queue i (q\<lparr>wq_lock := Some i\<rparr>) x)))
      | Blocking \<Rightarrow>
          Some (set_worker i Waiting (set_queue i (q\<lparr>wq_lock := None, wq_waiters := wq_waiters q @ [i]\<rparr>) x))
      | Waiting \<Rightarrow> (if i \<in> set (wq_waiters q) then None else Some (set_worker i AtPop x))
      | Running task \<Rightarrow> Some (set_worker i AtIdle (x\<lparr>ex_executed := ex_executed x @ [task]\<rparr>))
      | AtIdle \<Rightarrow> Some (set_worker i (if wq_empty q then AtSteal 1 else AtTest) x)
      | AtSteal k \<Rightarrow>
          (if n \<le> k \<or> \<not> ex_running x then Some (set_worker i AtTest x)
           else let target = (i + k) mod n
                in (case wq_try_steal (ex_queues x ! target) of
                      (Some task, q1) \<Rightarrow> Some (set_worker i (RunningStolen task) (set_queue target q1 x))
                    | (None, q1) \<Rightarrow> Some (set_worker i (AtSteal (Suc k)) x)))
      | RunningStolen task \<Rightarrow> Some (set_worker i AtTest (x\<lparr>ex_executed := ex_executed x @ [task]\<rparr>))
      | Gone \<Rightarrow> None)"

datatype 'f executor_event = Load 'f | CallStop | Stopper | Step nat | Spurious nat

definition executor_event :: "'f executor_event \<Rightarrow> 'f executor \<Rightarrow> 'f executor option" where
  "executor_event e x =
     (case e of
        Load task \<Rightarrow> (case executor_load task x of Inl _ \<Rightarrow> None | Inr r \<Rightarrow> r)
      | CallStop \<Rightarrow> Some (executor_stop x)
      | Stopper \<Rightarrow> executor_stopper x
      | Step i \<Rightarrow> worker_step i x
      | Spurious i \<Rightarrow>
          (if i < length (ex_workers x) \<and> ex_workers x ! i = Waiting
           then Some (set_worker i AtPop (set_queue i
                  ((ex_queues x ! i)\<lparr>wq_waiters := filter (\<lambda>j. j \<noteq> i) (wq_waiters (ex_queues x ! i))\<rparr>) x))
           else None))"

fun loads :: "'f executor_event list \<Rightarrow> 'f list" where
  "loads [] = []"
| "loads (Load task # es) = task # loads es"
| "loads (_ # es) = loads es"

lemmas executor_defs [op_defs] = set_queue_def set_worker_def executor_load_def executor_stop_def
  executor_stopper_def worker_step_def executor_event_def

section \<open>Conservation of tasks\<close>

lemma sum_list_update_mset:
  fixes ms :: "'a multiset list"
  shows "i < length ms \<Longrightarrow> sum_list (ms[i := m]) + ms ! i = sum_list ms + m"
proof (induction ms arbitrary: i)
  case (Cons a ms)
  then show ?case by (cases i) (auto simp: ac_simps)
qed simp

fun in_hand :: "'f worker \<Rightarrow> 'f multiset" where
  "in_hand (Running task) = {#task#}"
| "in_hand (RunningStolen task) = {#task#}"
| "in_hand _ = {#}"

definition queued :: "'f executor \<Rightarrow> 'f multiset" where
  "queued x = sum_list (map (\<lambda>q. mset (wq_tasks q)) (ex_queues x))"

definition held :: "'f executor \<Rightarrow> 'f multiset" where
  "held x = sum_list (map in_hand (ex_workers x))"

lemma queued_set_queue:
  "i < length (ex_queues x) \<Longrightarrow>
   queued (set_queue i q x) + mset (wq_tasks (ex_queues x ! i)) = queued x + mset (wq_tasks q)"
  using sum_list_update_mset [of i "map (\<lambda>q. mset (wq_tasks q)) (ex_queues x)" "mset (wq_tasks q)"]
  by (simp add: queued_def set_queue_def map_update)

lemma held_set_worker:
  "i < length (ex_workers x) \<Longrightarrow>
   held (set_worker i w x) + in_hand (ex_workers x ! i) = held x + in_hand w"
  using sum_list_update_mset [of i "map in_hand (ex_workers x)" "in_hand w"]
  by (simp add: held_def set_worker_def map_update)

lemma queued_other [simp]:
  "queued (set_worker i w x) = queued x" "held (set_queue i q x) = held x"
  "queued (x\<lparr>ex_executed := ts\<rparr>) = queued x" "held (x\<lparr>ex_executed := ts\<rparr>) = held x"
  "queued (x\<lparr>ex_index := k\<rparr>) = queued x" "held (x\<lparr>ex_index := k\<rparr>) = held x"
  "queued (x\<lparr>ex_stop := s\<rparr>) = queued x" "held (x\<lparr>ex_stop := s\<rparr>) = held x"
  "queued (x\<lparr>ex_running := b\<rparr>) = queued x" "held (x\<lparr>ex_running := b\<rparr>) = held x"
  "ex_workers (set_queue i q x) = ex_workers x" "ex_queues (set_worker i w x) = ex_queues x"
  "ex_executed (set_queue i q x) = ex_executed x" "ex_executed (set_worker i w x) = ex_executed x"
  "ex_running (set_queue i q x) = ex_running x" "ex_running (set_worker i w x) = ex_running x"
  "ex_stop (set_queue i q x) = ex_stop x" "ex_stop (set_worker i w x) = ex_stop x"
  "ex_index (set_queue i q x) = ex_index x" "ex_index (set_worker i w x) = ex_index x"
  "length (ex_queues (set_queue i q x)) = length (ex_queues x)"
  "length (ex_workers (set_worker i w x)) = length (ex_workers x)"
  by (simp_all add: queued_def held_def set_queue_def set_worker_def)

definition total :: "'f executor \<Rightarrow> 'f multiset" where
  "total x = mset (ex_executed x) + held x + queued x"

definition shaped :: "'f executor \<Rightarrow> bool" where
  "shaped x \<longleftrightarrow> length (ex_workers x) = length (ex_queues x)"

lemma take_conserves:
  "wq_take q = (Some t, q1) \<Longrightarrow> mset (wq_tasks q) = add_mset t (mset (wq_tasks q1))"
  by (auto simp: wq_take_def split: list.splits)

lemma steal_conserves:
  "wq_try_steal q = (Some t, q1) \<Longrightarrow> mset (wq_tasks q) = add_mset t (mset (wq_tasks q1))"
  by (auto simp: wq_try_steal_def mset_butlast_last split: if_splits)

text \<open>Moving a task from a queue to a worker, and a worker's step that does not touch its hands.\<close>

lemma total_take:
  assumes "i < length (ex_workers x)" "j < length (ex_queues x)" "in_hand (ex_workers x ! i) = {#}"
    and "in_hand w = {#t#}" "mset (wq_tasks (ex_queues x ! j)) = add_mset t (mset (wq_tasks q))"
  shows "total (set_worker i w (set_queue j q x)) = total x"
proof -
  have "held (set_worker i w (set_queue j q x)) = add_mset t (held x)"
    using held_set_worker [of i "set_queue j q x" w] assms by simp
  moreover have "add_mset t (queued (set_queue j q x)) = queued x"
    using queued_set_queue [of j x q] assms by simp
  ultimately show ?thesis by (simp add: total_def)
qed

lemma total_done:
  assumes "i < length (ex_workers x)" "in_hand (ex_workers x ! i) = {#t#}" "in_hand w = {#}"
  shows "total (set_worker i w (x\<lparr>ex_executed := ex_executed x @ [t]\<rparr>)) = total x"
  using held_set_worker [of i "x\<lparr>ex_executed := ex_executed x @ [t]\<rparr>" w] assms
  by (simp add: total_def)

lemma total_idle:
  assumes "i < length (ex_workers x)" "in_hand (ex_workers x ! i) = {#}" "in_hand w = {#}"
  shows "total (set_worker i w x) = total x"
  using held_set_worker [of i x w] assms by (simp add: total_def)

lemma total_queue:
  assumes "i < length (ex_queues x)" "mset (wq_tasks q) = mset (wq_tasks (ex_queues x ! i))"
  shows "total (set_queue i q x) = total x"
  using queued_set_queue [of i x q] assms by (simp add: total_def)

lemma worker_step_total:
  assumes "shaped x" "worker_step i x = Some y"
  shows "total y = total x"
proof -
  have i: "i < length (ex_workers x)" "i < length (ex_queues x)"
    using assms by (auto simp: worker_step_def shaped_def split: if_splits)
  then have j: "(i + k) mod length (ex_queues x) < length (ex_queues x)" for k
    by (intro mod_less_divisor) linarith
  let ?q = "ex_queues x ! i"
  note step = assms(2)[unfolded worker_step_def Let_def]
  show ?thesis
  proof (cases "ex_workers x ! i")
    case AtPop
    show ?thesis
    proof (cases "wq_ready (ex_running x) ?q")
      case True
      then show ?thesis
        using step i AtPop total_take [of i x i] take_conserves [of ?q] total_idle [of i x]
        by (auto split: prod.splits option.splits)
    next
      case False
      then show ?thesis
        using step i AtPop total_idle [of i "set_queue i q x" Blocking for q] total_queue [of i x]
        by auto
    qed
  next
    case Blocking
    then show ?thesis
      using step i total_idle [of i "set_queue i q x" Waiting for q] total_queue [of i x] by auto
  next
    case (AtSteal k)
    then show ?thesis
      using step i total_take [of i x "(i + k) mod length (ex_queues x)"] j [of k]
        steal_conserves [of "ex_queues x ! ((i + k) mod length (ex_queues x))"] total_idle [of i x]
      by (auto split: prod.splits option.splits if_splits)
  qed (use step i total_idle [of i x] total_done [of i x] in \<open>auto split: if_splits\<close>)
qed

lemma executor_shaped:
  assumes "shaped x" "executor_event e x = Some y"
  shows "shaped y \<and> length (ex_queues y) = length (ex_queues x)"
  using assms
  by (cases e) (auto simp: shaped_def executor_event_def executor_load_def executor_stop_def
      executor_stopper_def worker_step_def Let_def set_queue_def set_worker_def
      split: if_splits option.splits prod.splits worker.splits stop_phase.splits sum.splits)

lemma load_total:
  assumes "executor_load t x = ok (Some y)"
  shows "total y = add_mset t (total x)"
proof -
  let ?i = "executor_slot (ex_index x) (length (ex_queues x))"
  from assms have i: "?i < length (ex_queues x)"
    and y: "y = set_queue ?i (wq_push t (ex_queues x ! ?i)) (x\<lparr>ex_index := ex_index x + 1\<rparr>)"
    by (auto simp: executor_load_def Let_def split: if_splits)
  have "queued y = add_mset t (queued x)"
    using queued_set_queue [of ?i "x\<lparr>ex_index := ex_index x + 1\<rparr>" "wq_push t (ex_queues x ! ?i)"] i
    by (simp add: y wq_push_def wq_notify_one_def)
  then show ?thesis by (simp add: total_def y)
qed

lemma executor_event_total:
  assumes "shaped x" "executor_event e x = Some y"
  shows "total y = mset (loads [e]) + total x"
proof (cases e)
  case (Load t)
  then show ?thesis
    using assms(2) load_total by (auto simp: executor_event_def split: sum.splits)
next
  case CallStop
  then show ?thesis
    using assms(2) by (auto simp: executor_event_def executor_stop_def total_def queued_def held_def)
next
  case Stopper
  then show ?thesis
    using assms(2) total_queue [where x = "x\<lparr>ex_stop := StopWait i\<rparr>" for i]
    by (auto simp: executor_event_def executor_stopper_def wq_finalize_def total_def queued_set_queue
        split: stop_phase.splits if_splits)
next
  case (Step i)
  then show ?thesis
    using assms worker_step_total by (auto simp: executor_event_def)
next
  case (Spurious i)
  then have i: "i < length (ex_queues x)" "i < length (ex_workers x)"
    using assms by (auto simp: executor_event_def shaped_def split: if_splits)
  then show ?thesis
    using Spurious assms(2) total_idle [of i "set_queue i q x" AtPop for q] total_queue [OF i(1)]
    by (auto simp: executor_event_def split: if_splits)
qed

lemma loads_Cons: "loads (e # es) = loads [e] @ loads es"
  by (cases e) auto

lemma executor_total:
  "shaped x \<Longrightarrow> run_opt executor_event es x = Some y \<Longrightarrow>
   total y = mset (loads es) + total x \<and> shaped y \<and> length (ex_queues y) = length (ex_queues x)"
proof (induction es arbitrary: x)
  case (Cons e es)
  then obtain z where z: "executor_event e x = Some z" "run_opt executor_event es z = Some y"
    by (auto split: option.splits)
  from executor_shaped [OF Cons.prems(1) z(1)] Cons.IH [OF _ z(2)]
    executor_event_total [OF Cons.prems(1) z(1)]
  show ?case by (subst loads_Cons) (simp add: ac_simps)
qed simp

lemma executor_new_shaped: "shaped (executor_new c)"
  by (simp add: shaped_def executor_new_def Let_def)

lemma sum_list_empty: "sum_list (replicate n {#}) = {#}"
  by (induction n) auto

lemma executor_new_total: "total (executor_new c) = {#}"
  by (simp add: total_def held_def queued_def executor_new_def Let_def wq_new_def sum_list_empty)

section \<open>Sleeping and stopping\<close>

text \<open>
  A worker's queue and the worker: only that worker ever waits in it or holds its lock, it is
  registered as waiting only while it is blocked and the queue is empty, and it holds the lock
  only between testing its predicate and blocking.
\<close>

definition quiet :: "nat \<Rightarrow> 'f work_queue \<Rightarrow> 'f worker \<Rightarrow> bool" where
  "quiet i q w \<longleftrightarrow>
     (wq_waiters q = [] \<or> wq_waiters q = [i] \<and> w = Waiting \<and> wq_tasks q = []) \<and>
     (wq_lock q = None \<and> w \<noteq> Blocking \<or> wq_lock q = Some i \<and> w = Blocking \<and> wq_tasks q = [])"

definition all_quiet :: "'f executor \<Rightarrow> bool" where
  "all_quiet x \<longleftrightarrow> (\<forall>i < length (ex_queues x). quiet i (ex_queues x ! i) (ex_workers x ! i))"

definition gone_below :: "nat \<Rightarrow> 'f executor \<Rightarrow> bool" where
  "gone_below k x \<longleftrightarrow> (\<forall>i < length (ex_workers x). i < k \<longrightarrow> ex_workers x ! i = Gone)"

definition stop_ok :: "'f executor \<Rightarrow> bool" where
  "stop_ok x \<longleftrightarrow>
     (case ex_stop x of
        NotStopping \<Rightarrow> True
      | StopAt k \<Rightarrow> \<not> ex_running x \<and> gone_below k x
      | StopWait k \<Rightarrow> \<not> ex_running x \<and> gone_below k x
      | StopDone \<Rightarrow> \<not> ex_running x \<and> gone_below (length (ex_workers x)) x)"

definition executor_inv :: "'f executor \<Rightarrow> bool" where
  "executor_inv x \<longleftrightarrow> shaped x \<and> all_quiet x \<and> stop_ok x"

lemma executor_new_inv: "executor_inv (executor_new c)"
  by (auto simp: executor_inv_def executor_new_shaped all_quiet_def stop_ok_def)
    (auto simp: executor_new_def Let_def quiet_def wq_new_def)

lemma quiet_worker:
  assumes "all_quiet x" "shaped x" "i < length (ex_queues x) \<Longrightarrow> quiet i (ex_queues x ! i) w"
  shows "all_quiet (set_worker i w x)"
proof -
  have "quiet k (ex_queues x ! k) ((ex_workers x)[i := w] ! k)" if "k < length (ex_queues x)" for k
    using assms that by (cases "k = i") (auto simp: all_quiet_def shaped_def)
  then show ?thesis by (simp add: all_quiet_def set_worker_def)
qed

lemma quiet_queue:
  assumes "all_quiet x" "i < length (ex_queues x) \<Longrightarrow> quiet i q (ex_workers x ! i)"
  shows "all_quiet (set_queue i q x)"
proof -
  have "quiet k ((ex_queues x)[i := q] ! k) (ex_workers x ! k)" if "k < length (ex_queues x)" for k
    using assms that by (cases "k = i") (auto simp: all_quiet_def)
  then show ?thesis by (simp add: all_quiet_def set_queue_def)
qed

lemma quiet_both:
  assumes "all_quiet x" "shaped x" "quiet i q w"
  shows "all_quiet (set_worker i w (set_queue i q x))"
proof -
  have "quiet k ((ex_queues x)[i := q] ! k) ((ex_workers x)[i := w] ! k)" if "k < length (ex_queues x)" for k
    using assms that by (cases "k = i") (auto simp: all_quiet_def shaped_def)
  then show ?thesis by (simp add: all_quiet_def set_queue_def set_worker_def)
qed

lemma quiet_awake:
  "quiet i q w \<Longrightarrow> w \<noteq> Waiting \<Longrightarrow> w \<noteq> Blocking \<Longrightarrow> w' \<noteq> Blocking \<Longrightarrow> quiet i q w'"
  by (auto simp: quiet_def)

lemma quiet_nth: "all_quiet x \<Longrightarrow> i < length (ex_queues x) \<Longrightarrow> quiet i (ex_queues x ! i) (ex_workers x ! i)"
  by (simp add: all_quiet_def)

lemma quiet_push: "quiet i q w \<Longrightarrow> wq_lock q = None \<Longrightarrow> quiet i (wq_push t q) w"
  by (auto simp: quiet_def wq_push_def wq_notify_one_def)

lemma quiet_steal:
  "quiet i q w \<Longrightarrow> wq_try_steal q = (r, q1) \<Longrightarrow> quiet i q1 w"
  by (auto simp: quiet_def wq_try_steal_def split: if_splits)

lemma quiet_finalize: "quiet i q w \<Longrightarrow> quiet i (wq_finalize q) w"
  by (auto simp: quiet_def wq_finalize_def)

lemma worker_step_quiet:
  assumes "all_quiet x" "shaped x" "worker_step i x = Some y"
  shows "all_quiet y"
proof -
  have i: "i < length (ex_workers x)" "i < length (ex_queues x)"
    using assms by (auto simp: worker_step_def shaped_def split: if_splits)
  let ?q = "ex_queues x ! i"
  note step = assms(3)[unfolded worker_step_def Let_def]
  have own: "quiet i ?q (ex_workers x ! i)" using assms(1) i(2) by (rule quiet_nth)
  have awake: "all_quiet (set_worker i w x)" if "ex_workers x ! i \<noteq> Waiting"
    "ex_workers x ! i \<noteq> Blocking" "w \<noteq> Blocking" for w
    using quiet_worker [OF assms(1,2)] quiet_awake [OF own that] by blast
  have exec: "all_quiet (set_worker i w (x\<lparr>ex_executed := ts\<rparr>)) = all_quiet (set_worker i w x)" for w ts
    by (simp add: all_quiet_def set_worker_def)
  show ?thesis
  proof (cases "ex_workers x ! i")
    case AtPop
    show ?thesis
    proof (cases "wq_ready (ex_running x) ?q")
      case True
      obtain r q1 where r: "wq_take ?q = (r, q1)" by (cases "wq_take ?q")
      with own AtPop have "quiet i q1 (Running t)" if "r = Some t" for t
        using that by (auto simp: quiet_def wq_take_def split: list.splits)
      then show ?thesis
        using step i AtPop True r awake quiet_both [OF assms(1,2)] by (cases r) auto
    next
      case False
      then have "quiet i (?q\<lparr>wq_lock := Some i\<rparr>) Blocking"
        using own AtPop by (auto simp: quiet_def wq_ready_def)
      then show ?thesis using step i AtPop False quiet_both [OF assms(1,2)] by auto
    qed
  next
    case Blocking
    then have "quiet i (?q\<lparr>wq_lock := None, wq_waiters := wq_waiters ?q @ [i]\<rparr>) Waiting"
      using own by (auto simp: quiet_def)
    then show ?thesis using step i Blocking quiet_both [OF assms(1,2)] by auto
  next
    case Waiting
    then have "quiet i ?q AtPop" if "i \<notin> set (wq_waiters ?q)"
      using own that by (auto simp: quiet_def)
    then show ?thesis using step i Waiting quiet_worker [OF assms(1,2)] by (auto split: if_splits)
  next
    case (AtSteal k)
    let ?j = "(i + k) mod length (ex_queues x)"
    obtain r q1 where r: "wq_try_steal (ex_queues x ! ?j) = (r, q1)" by (cases "wq_try_steal (ex_queues x ! ?j)")
    have "all_quiet (set_queue ?j q1 x)"
      using quiet_queue [OF assms(1)] quiet_steal [OF quiet_nth [OF assms(1)] r] by blast
    moreover have "shaped (set_queue ?j q1 x)" using assms(2) by (simp add: shaped_def)
    moreover have "quiet i (ex_queues (set_queue ?j q1 x) ! i) (RunningStolen t)" for t
      using quiet_nth [OF calculation(1), of i] i AtSteal quiet_awake by fastforce
    ultimately have "all_quiet (set_worker i (RunningStolen t) (set_queue ?j q1 x))" for t
      using quiet_worker by blast
    then show ?thesis
      using step i AtSteal r awake by (cases r) (auto split: if_splits)
  qed (use step i awake exec in \<open>auto split: if_splits\<close>)
qed

lemma workers_others:
  "j \<noteq> i \<Longrightarrow> ex_workers (set_worker i w x) ! j = ex_workers x ! j"
  by (simp add: set_worker_def)

lemma worker_step_frame:
  assumes "worker_step i x = Some y"
  shows "ex_workers x ! i \<noteq> Gone" "ex_stop y = ex_stop x" "ex_running y = ex_running x"
    "length (ex_workers y) = length (ex_workers x)"
    "j \<noteq> i \<Longrightarrow> ex_workers y ! j = ex_workers x ! j"
proof -
  note step = assms[unfolded worker_step_def Let_def]
  show "ex_workers x ! i \<noteq> Gone" using step by (auto split: if_splits)
  show "ex_stop y = ex_stop x"
    using step by (cases "ex_workers x ! i") (auto split: if_splits option.splits prod.splits)
  show "ex_running y = ex_running x"
    using step by (cases "ex_workers x ! i") (auto split: if_splits option.splits prod.splits)
  show "length (ex_workers y) = length (ex_workers x)"
    using step by (cases "ex_workers x ! i") (auto split: if_splits option.splits prod.splits)
  show "ex_workers y ! j = ex_workers x ! j" if "j \<noteq> i"
    using step that
    by (cases "ex_workers x ! i") (auto simp: workers_others split: if_splits option.splits prod.splits)
qed

lemma worker_step_gone:
  assumes "worker_step i x = Some y" "gone_below k x"
  shows "gone_below k y"
  unfolding gone_below_def
proof (intro allI impI)
  fix j assume "j < length (ex_workers y)" "j < k"
  with assms have g: "ex_workers x ! j = Gone"
    by (simp add: gone_below_def worker_step_frame(4))
  then have "j \<noteq> i" using worker_step_frame(1) [OF assms(1)] by auto
  then show "ex_workers y ! j = Gone" using worker_step_frame(5) [OF assms(1)] g by simp
qed

lemma worker_step_stop:
  assumes "stop_ok x" "worker_step i x = Some y"
  shows "stop_ok y"
  using assms(1) worker_step_gone [OF assms(2)] worker_step_frame(2-4) [OF assms(2)]
  by (auto simp: stop_ok_def split: stop_phase.splits)

lemma executor_event_inv:
  assumes "executor_inv x" "executor_event e x = Some y"
  shows "executor_inv y"
proof -
  from assms(1) have sh: "shaped x" and qu: "all_quiet x" and st: "stop_ok x"
    by (simp_all add: executor_inv_def)
  have shy: "shaped y" using executor_shaped [OF sh assms(2)] by simp
  have "all_quiet y \<and> stop_ok y"
  proof (cases e)
    case (Load t)
    then have ld: "executor_load t x = ok (Some y)"
      using assms(2) by (auto simp: executor_event_def split: sum.splits)
    define i where "i = executor_slot (ex_index x) (length (ex_queues x))"
    from ld have i: "i < length (ex_queues x)" "wq_lock (ex_queues x ! i) = None"
      and y: "y = set_queue i (wq_push t (ex_queues x ! i)) (x\<lparr>ex_index := ex_index x + 1\<rparr>)"
      by (auto simp: executor_load_def Let_def i_def split: if_splits)
    have "all_quiet (set_queue i (wq_push t (ex_queues x ! i)) x)"
      using quiet_queue [OF qu] quiet_push [OF quiet_nth [OF qu i(1)] i(2)] by blast
    then show ?thesis
      using st by (auto simp: y all_quiet_def set_queue_def stop_ok_def gone_below_def split: stop_phase.splits)
  next
    case CallStop
    then show ?thesis
      using assms(2) qu st
      by (auto simp: executor_event_def executor_stop_def all_quiet_def stop_ok_def gone_below_def)
  next
    case Stopper
    note step = assms(2)[unfolded Stopper executor_event_def executor_stopper_def, simplified]
    show ?thesis
    proof (cases "ex_stop x")
      case (StopAt i)
      show ?thesis
      proof (cases "i < length (ex_queues x)")
        case True
        have "all_quiet (set_queue i (wq_finalize (ex_queues x ! i)) x)"
          using quiet_queue [OF qu] quiet_finalize [OF quiet_nth [OF qu True]] by blast
        then show ?thesis
          using step StopAt True st by (auto simp: all_quiet_def set_queue_def stop_ok_def gone_below_def)
      next
        case False
        then show ?thesis
          using step StopAt st qu sh by (auto simp: all_quiet_def stop_ok_def gone_below_def shaped_def)
      qed
    next
      case (StopWait i)
      then show ?thesis
        using step st qu by (auto simp: all_quiet_def stop_ok_def gone_below_def less_Suc_eq split: if_splits)
    qed (use step in auto)
  next
    case (Step i)
    then show ?thesis
      using assms(2) worker_step_quiet [OF qu sh] worker_step_stop [OF st] by (auto simp: executor_event_def)
  next
    case (Spurious i)
    note step = assms(2)[unfolded Spurious executor_event_def, simplified]
    from step have i: "i < length (ex_workers x)" "ex_workers x ! i = Waiting" by (auto split: if_splits)
    let ?q = "(ex_queues x ! i)\<lparr>wq_waiters := filter (\<lambda>j. j \<noteq> i) (wq_waiters (ex_queues x ! i))\<rparr>"
    have "quiet i (ex_queues x ! i) Waiting" using quiet_nth [OF qu, of i] i sh by (simp add: shaped_def)
    then have "quiet i ?q AtPop" by (auto simp: quiet_def)
    from quiet_both [OF qu sh this] have "all_quiet y" using step i by auto
    moreover have "gone_below k x \<Longrightarrow> gone_below k y" for k
      using step i by (auto simp: gone_below_def set_worker_def set_queue_def nth_list_update)
    ultimately show ?thesis
      using step i st by (auto simp: stop_ok_def split: stop_phase.splits)
  qed
  with shy show ?thesis by (simp add: executor_inv_def)
qed

lemma worker_stuck_iff:
  assumes "executor_inv x" "i < length (ex_workers x)" "ex_workers x ! i \<noteq> Gone"
  shows "worker_step i x = None \<longleftrightarrow>
    ex_workers x ! i = Waiting \<and> wq_waiters (ex_queues x ! i) = [i] \<and> wq_tasks (ex_queues x ! i) = []"
proof -
  have "quiet i (ex_queues x ! i) (ex_workers x ! i)"
    using assms(1,2) by (auto simp: executor_inv_def all_quiet_def shaped_def)
  then show ?thesis
    using assms(2,3)
    by (cases "ex_workers x ! i") (auto simp: worker_step_def Let_def quiet_def split: prod.splits option.splits)
qed

lemma executor_reachable_inv:
  assumes "run_opt executor_event es (executor_new c) = Some x"
  shows "executor_inv x"
  by (rule run_opt_inv [where Q = "\<lambda>_. True" and f = executor_event, OF executor_event_inv])
    (use assms executor_new_inv in auto)

section \<open>Round robin\<close>

lemma slot_pow2:
  assumes "k \<le> 31"
  shows "executor_slot index (2 ^ k) = unat index mod 2 ^ k"
proof -
  have "(of_nat (2 ^ k) :: u64) - 1 = mask k" by (simp add: mask_eq_exp_minus_1)
  then have "(ucast index :: u64) AND (of_nat (2 ^ k) - 1) = take_bit k (ucast index)"
    by (simp add: take_bit_eq_mask)
  moreover have "unat (ucast (take_bit k (ucast index :: u64)) :: u32) = take_bit k (unat index)"
    using assms by (simp add: unsigned_ucast_eq unsigned_take_bit_eq min_def)
  ultimately show ?thesis by (simp add: executor_slot_def take_bit_eq_mod)
qed

lemma adjusted_pow2:
  assumes "unat c \<le> 2 ^ 31"
  shows "\<exists>k \<le> 31. unat (next_pwr_of_2 c) = 2 ^ k"
proof -
  let ?P = "\<lambda>p. unat c \<le> p \<and> (\<exists>k. p = 2 ^ k)"
  have ex: "?P (2 ^ 31)" using assms by blast
  have "?P (least_pow2 (unat c))" unfolding least_pow2_def by (rule LeastI [of ?P, OF ex])
  then obtain k where k: "least_pow2 (unat c) = 2 ^ k" by blast
  have "least_pow2 (unat c) \<le> 2 ^ 31" unfolding least_pow2_def by (rule Least_le [of ?P, OF ex])
  then have "(2::nat) ^ k \<le> 2 ^ 31" by (simp only: k)
  then have "k \<le> 31" by (rule power_le_imp_le_exp [rotated]) simp
  moreover have "unat (next_pwr_of_2 c) = 2 ^ k" using assms k by (simp add: next_pwr_of_2_unat)
  ultimately show ?thesis by blast
qed

lemma executor_index:
  "run_opt executor_event es x = Some y \<Longrightarrow> ex_index y = ex_index x + of_nat (length (loads es))"
proof (induction es arbitrary: x)
  case (Cons e es)
  then obtain z where z: "executor_event e x = Some z" "run_opt executor_event es z = Some y"
    by (auto split: option.splits)
  have "ex_index z = ex_index x + of_nat (length (loads [e]))"
  proof (cases e)
    case (Step i)
    then have "worker_step i x = Some z" using z(1) by (simp add: executor_event_def)
    then have "ex_index z = ex_index x"
      unfolding worker_step_def Let_def
      by (cases "ex_workers x ! i") (auto split: if_splits option.splits prod.splits)
    then show ?thesis using Step by simp
  qed (use z(1) in \<open>auto simp: executor_event_def executor_load_def executor_stop_def executor_stopper_def Let_def
      split: if_splits sum.splits stop_phase.splits\<close>)
  then show ?case using Cons.IH [OF z(2)] by (subst loads_Cons) simp
qed simp

section \<open>Properties\<close>

text \<open>
  C14. No task is lost or run twice: whatever the interleaving of loads, workers, stealing, spurious
  wakeups and \<open>stop\<close>, the tasks executed, being executed and queued are together exactly the tasks
  loaded.
\<close>

theorem executor_conserves_tasks:
  assumes "run_opt executor_event es (executor_new c) = Some x"
  shows "mset (ex_executed x) + sum_list (map in_hand (ex_workers x)) +
    sum_list (map (\<lambda>q. mset (wq_tasks q)) (ex_queues x)) = mset (loads es)"
proof -
  have "total x = mset (loads es)"
    using executor_total [OF executor_new_shaped assms] by (simp add: executor_new_total)
  then show ?thesis by (simp add: total_def held_def queued_def)
qed

theorem executor_conserves_tasks_witness:
  "\<exists>x. run_opt executor_event [Load (7::nat), Step 0, Step 0, Step 0] (executor_new 1) = Some x \<and>
     mset (ex_executed x) + sum_list (map in_hand (ex_workers x)) +
       sum_list (map (\<lambda>q. mset (wq_tasks q)) (ex_queues x)) = {#7#}"
proof -
  have "\<exists>x. run_opt executor_event [Load (7::nat), Step 0, Step 0, Step 0] (executor_new 1) = Some x"
    by (simp add: executor_new_def next_pwr_of_2_def executor_defs executor_slot_def wq_defs)
  then obtain x where
    x: "run_opt executor_event [Load (7::nat), Step 0, Step 0, Step 0] (executor_new 1) = Some x" ..
  from executor_conserves_tasks [OF x] x show ?thesis by simp
qed

text \<open>
  Nobody sleeps on work: in every reachable state a worker whose own queue is not empty, and that
  has not left its loop, can take a step; the only workers that cannot are those waiting at an
  empty queue.
\<close>

theorem executor_no_stranded_task:
  assumes "run_opt executor_event es (executor_new c) = Some x"
    and "i < length (ex_workers x)" "ex_workers x ! i \<noteq> Gone"
  shows "worker_step i x = None \<longleftrightarrow>
    ex_workers x ! i = Waiting \<and> wq_waiters (ex_queues x ! i) = [i] \<and> wq_tasks (ex_queues x ! i) = []"
  by (rule worker_stuck_iff [OF executor_reachable_inv [OF assms(1)] assms(2,3)])

theorem executor_no_stranded_task_witness:
  "worker_step 0 (executor_new 1 :: nat executor) \<noteq> None"
proof -
  have "0 < length (ex_workers (executor_new 1 :: nat executor))"
    and "ex_workers (executor_new 1 :: nat executor) ! 0 = AtTest"
    by (simp_all add: executor_new_def next_pwr_of_2_def)
  with executor_no_stranded_task [of "[]" 1 "executor_new 1 :: nat executor" 0] show ?thesis by simp
qed

text \<open>
  Loads are dealt round robin, and stay so when the 32-bit counter wraps: with at most \<open>2^31\<close>
  threads asked for, the next load after \<open>es\<close> goes to the queue with the number of loads so far
  modulo the number of queues.
\<close>

theorem executor_round_robin:
  assumes "unat c \<le> 2 ^ 31" and "run_opt executor_event es (executor_new c) = Some x"
  shows "executor_slot (ex_index x) (length (ex_queues x)) = length (loads es) mod length (ex_queues x)"
proof -
  from adjusted_pow2 [OF assms(1)] obtain k where k: "k \<le> 31" "unat (next_pwr_of_2 c) = 2 ^ k" by blast
  have len: "length (ex_queues x) = 2 ^ k"
    using executor_total [OF executor_new_shaped assms(2)] k by (simp add: executor_new_def Let_def)
  have "(2::nat) ^ k dvd 2 ^ 32" using k(1) by (intro le_imp_power_dvd) simp
  then have "unat (of_nat m :: u32) mod 2 ^ k = m mod 2 ^ k" for m
    by (simp add: unat_of_nat take_bit_eq_mod mod_mod_cancel)
  then show ?thesis
    using executor_index [OF assms(2)] slot_pow2 [OF k(1)] len by (simp add: executor_new_def Let_def)
qed

theorem executor_round_robin_witness:
  "executor_slot (ex_index (executor_new 3 :: nat executor)) (length (ex_queues (executor_new 3 :: nat executor))) = 0"
  using executor_round_robin [of 3 "[]" "executor_new 3 :: nat executor"] by simp

lemma gone_no_step:
  assumes "gone_below (length (ex_workers x)) x"
  shows "worker_step i x = None"
proof (cases "i < length (ex_workers x)")
  case True
  with assms have "ex_workers x ! i = Gone" by (simp add: gone_below_def)
  then show ?thesis using worker_step_frame(1) [of i x] by (cases "worker_step i x") auto
next
  case False
  then show ?thesis by (simp add: worker_step_def)
qed

definition finished :: "'f list \<Rightarrow> 'f executor \<Rightarrow> bool" where
  "finished ts x \<longleftrightarrow> executor_inv x \<and> ex_stop x = StopDone \<and> ex_executed x = ts"

lemma finished_event:
  assumes "finished ts x" "executor_event e x = Some y"
  shows "finished ts y"
proof -
  from assms(1) have "gone_below (length (ex_workers x)) x" "\<not> ex_running x" "ex_stop x = StopDone"
    by (auto simp: finished_def executor_inv_def stop_ok_def)
  moreover from this have "\<not> (i < length (ex_workers x) \<and> ex_workers x ! i = Waiting)" for i
    by (auto simp: gone_below_def)
  ultimately show ?thesis
    using assms executor_event_inv [of x e y] gone_no_step [of x]
    by (cases e) (auto simp: finished_def executor_event_def executor_stop_def executor_stopper_def
        executor_load_def Let_def split: sum.splits if_splits)
qed

lemma finished_run:
  assumes "finished ts x" "run_opt executor_event es x = Some y"
  shows "finished ts y"
  by (rule run_opt_inv [where Q = "\<lambda>_. True" and f = executor_event, OF finished_event]) (use assms in auto)

text \<open>
  After \<open>stop\<close> has returned nothing runs: the workers have left their loops, and whatever is
  called next, in particular every later \<open>load\<close>, no task is executed any more; what is in the queues
  stays there.
\<close>

theorem executor_stop_is_final:
  assumes "run_opt executor_event es (executor_new c) = Some x" "ex_stop x = StopDone"
    and "run_opt executor_event fs x = Some y"
  shows "ex_executed y = ex_executed x \<and> (\<forall>i < length (ex_workers y). ex_workers y ! i = Gone)"
proof -
  have "finished (ex_executed x) y"
    by (rule finished_run [OF _ assms(3)])
      (use assms(2) executor_reachable_inv [OF assms(1)] in \<open>simp add: finished_def\<close>)
  then show ?thesis by (auto simp: finished_def executor_inv_def stop_ok_def gone_below_def)
qed

definition clean_stop :: "nat executor_event list" where
  "clean_stop = [CallStop, Stopper, Step 0, Stopper, Stopper]"

lemma clean_stop_run:
  "\<exists>x. run_opt executor_event clean_stop (executor_new 1) = Some x \<and> ex_stop x = StopDone \<and>
     ex_executed x = [] \<and> (\<exists>y. run_opt executor_event [Load (7::nat)] x = Some y)"
  by (simp add: clean_stop_def executor_new_def next_pwr_of_2_def executor_defs executor_slot_def wq_defs)

theorem executor_stop_is_final_witness:
  "\<exists>x y. run_opt executor_event clean_stop (executor_new 1) = Some x \<and>
     run_opt executor_event [Load 7] x = Some y \<and> ex_executed y = []"
proof -
  from clean_stop_run obtain x y where x: "run_opt executor_event clean_stop (executor_new 1) = Some x"
    "ex_stop x = StopDone" "ex_executed x = []" and y: "run_opt executor_event [Load (7::nat)] x = Some y"
    by blast
  from executor_stop_is_final [OF x(1,2) y] x y show ?thesis by auto
qed

text \<open>
  \<open>stop\<close> can hang: \<open>finalize\<close> notifies without taking the queue's lock, so a worker that has found
  \<open>_running\<close> true and its queue empty, and is about to block, misses it. Then the worker waits for a
  notification and \<open>stop\<close> waits for the worker: neither can move.
\<close>

theorem executor_stop_can_hang:
  "\<exists>x. run_opt executor_event [Step 0, Step 0, CallStop, Stopper, Step 0] (executor_new 1) = Some x \<and>
     length (ex_workers x) = 1 \<and> executor_stopper x = None \<and> worker_step 0 x = None \<and> ex_stop x = StopWait 0"
  by (simp add: executor_new_def next_pwr_of_2_def executor_defs wq_defs)

end
