(* ===== verification/ExecutorProgress.thy ===== *)
theory ExecutorProgress
  imports TaskExecutor
begin

text \<open>
  Progress of the task executor: while it is not stopped and nothing new is loaded, the workers cannot
  go on for ever, and when they have all come to rest every loaded task has been executed.
\<close>

section \<open>A measure on the workers\<close>

text \<open>
  How many more steps a worker takes at most before it waits, with \<open>n\<close> queues and without taking a
  task; \<open>registered\<close> says that it is in the wait set of its queue's condition variable.
\<close>

fun step_weight :: "nat \<Rightarrow> bool \<Rightarrow> 'f worker \<Rightarrow> nat" where
  "step_weight n registered (Running _) = 5 + n"
| "step_weight n registered AtIdle = 4 + n"
| "step_weight n registered (AtSteal k) = 4 + (n - k)"
| "step_weight n registered (RunningStolen _) = 4"
| "step_weight n registered AtTest = 3"
| "step_weight n registered Waiting = (if registered then 0 else 3)"
| "step_weight n registered AtPop = 2"
| "step_weight n registered Blocking = 1"
| "step_weight n registered Gone = 0"

definition weight_at :: "'f executor \<Rightarrow> nat \<Rightarrow> nat" where
  "weight_at x i = step_weight (length (ex_queues x)) (i \<in> set (wq_waiters (ex_queues x ! i))) (ex_workers x ! i)"

definition work_left :: "'f executor \<Rightarrow> nat" where
  "work_left x = (length (ex_queues x) + 5) * size (queued x) + (\<Sum>i<length (ex_queues x). weight_at x i)"

lemma take_keeps:
  "wq_take q = (r, q1) \<Longrightarrow> wq_waiters q1 = wq_waiters q \<and> wq_lock q1 = wq_lock q"
  by (auto simp: wq_take_def split: list.splits)

lemma steal_keeps:
  "wq_try_steal q = (r, q1) \<Longrightarrow> wq_waiters q1 = wq_waiters q"
  by (auto simp: wq_try_steal_def split: if_splits)

lemma size_queued_take:
  assumes "i < length (ex_queues x)" "mset (wq_tasks (ex_queues x ! i)) = add_mset t (mset (wq_tasks q))"
  shows "size (queued x) = Suc (size (queued (set_queue i q x)))"
  using arg_cong [OF queued_set_queue [OF assms(1), of q], of size] assms(2) by simp

lemma size_queued_same:
  assumes "i < length (ex_queues x)" "wq_tasks q = wq_tasks (ex_queues x ! i)"
  shows "size (queued (set_queue i q x)) = size (queued x)"
  using arg_cong [OF queued_set_queue [OF assms(1), of q], of size] assms(2) by simp

lemma queue_after [simp]:
  "j < length (ex_queues x) \<Longrightarrow> ex_queues (set_queue i q x) ! j = (if j = i then q else ex_queues x ! j)"
  "j < length (ex_workers x) \<Longrightarrow> ex_workers (set_worker i w x) ! j = (if j = i then w else ex_workers x ! j)"
  by (simp_all add: set_queue_def set_worker_def nth_list_update)

text \<open>One step: only the weight of the worker that moves changes, and the total goes down.\<close>

lemma worker_step_weight:
  assumes inv: "shaped x" "all_quiet x" "ex_running x" and step: "worker_step i x = Some y"
  shows "weight_at y i + (length (ex_queues x) + 5) * size (queued y) <
      weight_at x i + (length (ex_queues x) + 5) * size (queued x)"
    and "k < length (ex_queues x) \<Longrightarrow> k \<noteq> i \<Longrightarrow> weight_at y k = weight_at x k"
proof -
  let ?n = "length (ex_queues x)" and ?q = "ex_queues x ! i"
  have i: "i < length (ex_workers x)" "i < ?n"
    using step inv(1) by (auto simp: worker_step_def shaped_def split: if_splits)
  have len: "length (ex_workers x) = ?n" using inv(1) by (simp add: shaped_def)
  have quiet: "quiet i ?q (ex_workers x ! i)" using inv(2) i(2) by (rule quiet_nth)
  note st = step [unfolded worker_step_def Let_def]
  have both: "weight_at y i + (?n + 5) * size (queued y) < weight_at x i + (?n + 5) * size (queued x) \<and>
      (k < ?n \<longrightarrow> k \<noteq> i \<longrightarrow> weight_at y k = weight_at x k)" for k
  proof (cases "ex_workers x ! i")
    case AtPop
    show ?thesis
    proof (cases "wq_ready (ex_running x) ?q")
      case True
      then obtain t ts where "wq_tasks ?q = t # ts" using inv(3) by (cases "wq_tasks ?q") (auto simp: wq_ready_def)
      then have take: "wq_take ?q = (Some t, ?q\<lparr>wq_tasks := ts\<rparr>)" by (simp add: wq_take_def)
      have y: "y = set_worker i (Running t) (set_queue i (?q\<lparr>wq_tasks := ts\<rparr>) x)"
        using st i AtPop True take by simp
      have "size (queued x) = Suc (size (queued y))"
        using size_queued_take [OF i(2), of t "?q\<lparr>wq_tasks := ts\<rparr>"] take_conserves [OF take] by (simp add: y)
      then show ?thesis using i AtPop len by (auto simp: weight_at_def y)
    next
      case False
      then have y: "y = set_worker i Blocking (set_queue i (?q\<lparr>wq_lock := Some i\<rparr>) x)"
        using st i AtPop by simp
      show ?thesis using i AtPop len size_queued_same [OF i(2), of "?q\<lparr>wq_lock := Some i\<rparr>"]
        by (auto simp: weight_at_def y)
    qed
  next
    case Blocking
    let ?q1 = "?q\<lparr>wq_lock := None, wq_waiters := wq_waiters ?q @ [i]\<rparr>"
    have y: "y = set_worker i Waiting (set_queue i ?q1 x)" using st i Blocking by simp
    show ?thesis using i Blocking len size_queued_same [OF i(2), of ?q1] by (auto simp: weight_at_def y)
  next
    case Waiting
    then have "i \<notin> set (wq_waiters ?q)" "y = set_worker i AtPop x" using st i by (auto split: if_splits)
    then show ?thesis using i Waiting len by (auto simp: weight_at_def)
  next
    case (AtSteal m)
    let ?j = "(i + m) mod ?n"
    have j: "?j < ?n" using i(2) by (intro mod_less_divisor) linarith
    obtain r q1 where steal: "wq_try_steal (ex_queues x ! ?j) = (r, q1)"
      by (cases "wq_try_steal (ex_queues x ! ?j)")
    show ?thesis
    proof (cases "?n \<le> m")
      case True
      then show ?thesis using st i AtSteal len by (auto simp: weight_at_def)
    next
      case more: False
      show ?thesis
      proof (cases r)
        case None
        then have "y = set_worker i (AtSteal (Suc m)) x" using st i AtSteal inv(3) more steal by simp
        then show ?thesis using i AtSteal len more by (auto simp: weight_at_def)
      next
        case (Some t)
        then have y: "y = set_worker i (RunningStolen t) (set_queue ?j q1 x)"
          using st i AtSteal inv(3) more steal by simp
        have "size (queued x) = Suc (size (queued y))"
          using size_queued_take [OF j steal_conserves [OF steal [unfolded Some]]] by (simp add: y)
        then show ?thesis using i AtSteal len steal_keeps [OF steal] by (auto simp: weight_at_def y)
      qed
    qed
  next
    case (Running t)
    then have y: "y = set_worker i AtIdle (x\<lparr>ex_executed := ex_executed x @ [t]\<rparr>)" using st i by simp
    show ?thesis using i Running len by (auto simp: weight_at_def y)
  next
    case (RunningStolen t)
    then have y: "y = set_worker i AtTest (x\<lparr>ex_executed := ex_executed x @ [t]\<rparr>)" using st i by simp
    show ?thesis using i RunningStolen len by (auto simp: weight_at_def y)
  qed (use st i len inv(3) in \<open>auto simp: weight_at_def split: if_splits\<close>)
  show "weight_at y i + (?n + 5) * size (queued y) < weight_at x i + (?n + 5) * size (queued x)"
    using both by blast
  show "k < ?n \<Longrightarrow> k \<noteq> i \<Longrightarrow> weight_at y k = weight_at x k" using both by blast
qed

lemma worker_step_left:
  assumes "shaped x" "all_quiet x" "ex_running x" "worker_step i x = Some y"
  shows "work_left y < work_left x"
proof -
  have i: "i < length (ex_queues x)"
    using assms by (auto simp: worker_step_def shaped_def split: if_splits)
  have len: "length (ex_queues y) = length (ex_queues x)"
    using executor_shaped [OF assms(1), of "Step i" y] assms(4) by (simp add: executor_event_def)
  let ?A = "{..<length (ex_queues x)}"
  have split: "(\<Sum>k\<in>?A. f k) = f i + (\<Sum>k\<in>?A - {i}. f k)" for f :: "nat \<Rightarrow> nat"
    using i by (intro sum.remove) auto
  have "(\<Sum>k\<in>?A - {i}. weight_at y k) = (\<Sum>k\<in>?A - {i}. weight_at x k)"
    using worker_step_weight(2) [OF assms] by (intro sum.cong) auto
  then show ?thesis
    using worker_step_weight(1) [OF assms] split [of "weight_at x"] split [of "weight_at y"]
    by (simp add: work_left_def len)
qed

section \<open>Runs of the workers\<close>

definition worker_event :: "'f executor_event \<Rightarrow> bool" where
  "worker_event e \<longleftrightarrow> (\<exists>i. e = Step i)"

text \<open>A worker leaves its loop only after \<open>stop\<close>.\<close>

definition staying :: "'f executor \<Rightarrow> bool" where
  "staying x \<longleftrightarrow> executor_inv x \<and> (ex_running x \<longrightarrow> Gone \<notin> set (ex_workers x))"

lemma staying_set_worker:
  "Gone \<notin> set (ex_workers x) \<Longrightarrow> w \<noteq> Gone \<Longrightarrow> Gone \<notin> set (ex_workers (set_worker i w x))"
  by (auto simp: set_worker_def dest!: set_update_subset_insert [THEN subsetD])

lemma worker_step_staying:
  assumes "ex_running x" "Gone \<notin> set (ex_workers x)" "worker_step i x = Some y"
  shows "Gone \<notin> set (ex_workers y)"
proof -
  note st = assms(3) [unfolded worker_step_def Let_def]
  have "\<exists>z w. y = set_worker i w z \<and> ex_workers z = ex_workers x \<and> w \<noteq> Gone"
    using st assms(1)
    by (cases "ex_workers x ! i"; fastforce split: if_splits option.splits prod.splits)
  then obtain z w where "y = set_worker i w z" "ex_workers z = ex_workers x" "w \<noteq> Gone" by blast
  then show ?thesis using staying_set_worker [of z w i] assms(2) by simp
qed

lemma executor_event_staying:
  assumes "staying x" "executor_event e x = Some y"
  shows "staying y"
proof -
  have inv: "executor_inv y" using assms executor_event_inv by (auto simp: staying_def)
  show ?thesis
  proof (cases e)
    case (Step i)
    then show ?thesis
      using assms inv worker_step_staying [of x i y] worker_step_frame(3) [of i x y]
      by (auto simp: staying_def executor_event_def)
  next
    case (Spurious i)
    then show ?thesis
      using assms inv staying_set_worker [of "set_queue i q x" AtPop i for q]
      by (auto simp: staying_def executor_event_def split: if_splits)
  next
    case (Load t)
    then show ?thesis using assms inv
      by (auto simp: staying_def executor_event_def executor_load_def Let_def split: if_splits)
  next
    case CallStop
    then show ?thesis using assms inv
      by (auto simp: staying_def executor_event_def executor_stop_def split: if_splits)
  next
    case Stopper
    then show ?thesis using assms inv
      by (auto simp: staying_def executor_event_def executor_stopper_def split: if_splits stop_phase.splits)
  qed
qed

lemma executor_reachable_staying:
  assumes "run_opt executor_event es (executor_new c) = Some x"
  shows "staying x"
  by (rule run_opt_inv [where Q = "\<lambda>_. True" and f = executor_event, OF executor_event_staying])
    (use assms executor_new_inv in \<open>auto simp: staying_def executor_new_def Let_def\<close>)

lemma worker_run_left:
  "staying x \<Longrightarrow> ex_running x \<Longrightarrow> list_all worker_event fs \<Longrightarrow> run_opt executor_event fs x = Some y \<Longrightarrow>
   staying y \<and> ex_running y \<and> length fs + work_left y \<le> work_left x \<and> loads fs = []"
proof (induction fs arbitrary: x)
  case (Cons f fs)
  then obtain u where u: "executor_event f x = Some u" "run_opt executor_event fs u = Some y"
    by (auto split: option.splits)
  from Cons.prems(3) obtain i where f: "f = Step i" by (auto simp: worker_event_def)
  then have s: "worker_step i x = Some u" using u(1) by (simp add: executor_event_def)
  have "work_left u < work_left x"
    using Cons.prems(1,2) worker_step_left [OF _ _ _ s] by (simp add: staying_def executor_inv_def)
  moreover have "ex_running u" using worker_step_frame(3) [OF s] Cons.prems(2) by simp
  ultimately show ?case
    using Cons.IH [OF executor_event_staying [OF Cons.prems(1) u(1)] _ _ u(2)] Cons.prems(3) f by auto
qed simp

lemma sum_list_all_empty: "\<forall>m\<in>set ms. m = {#} \<Longrightarrow> sum_list ms = {#}"
  by (induction ms) auto

text \<open>Workers at rest: everybody waits at an empty queue.\<close>

lemma resting:
  assumes "staying x" "ex_running x" "\<forall>i. worker_step i x = None"
  shows "held x = {#}" "queued x = {#}"
proof -
  have rest: "ex_workers x ! i = Waiting \<and> wq_tasks (ex_queues x ! i) = []" if "i < length (ex_queues x)" for i
  proof -
    have i: "i < length (ex_workers x)" using that assms(1) by (simp add: staying_def executor_inv_def shaped_def)
    have "ex_workers x ! i \<noteq> Gone" using assms(1,2) nth_mem [OF i] by (auto simp: staying_def)
    then show ?thesis using worker_stuck_iff [of x i] assms(1,3) i by (simp add: staying_def)
  qed
  have len: "length (ex_workers x) = length (ex_queues x)"
    using assms(1) by (simp add: staying_def executor_inv_def shaped_def)
  have "\<forall>m\<in>set (map in_hand (ex_workers x)). m = {#}"
    using rest len by (auto simp: in_set_conv_nth)
  then show "held x = {#}" unfolding held_def by (rule sum_list_all_empty)
  have "\<forall>m\<in>set (map (\<lambda>q. mset (wq_tasks q)) (ex_queues x)). m = {#}"
    using rest by (auto simp: in_set_conv_nth)
  then show "queued x = {#}" unfolding queued_def by (rule sum_list_all_empty)
qed

section \<open>Properties\<close>

text \<open>
  C15. Every loaded task is executed: take any state a running executor can reach with \<open>m\<close> tasks in its
  \<open>n\<close> queues; from there the workers, in any interleaving, take at most \<open>(n + 5) * (m + n)\<close> steps before
  they all rest, unless something new happens; and when none of them can take a step, the tasks
  executed are exactly the tasks loaded, whichever worker they ended up with.
\<close>

theorem executor_drains:
  assumes "run_opt executor_event es (executor_new c) = Some x" "ex_running x"
    and "list_all worker_event fs" "run_opt executor_event fs x = Some y"
  shows "length fs \<le> (length (ex_queues x) + 5) * (size (queued x) + length (ex_queues x)) \<and>
    ((\<forall>i. worker_step i y = None) \<longrightarrow> mset (ex_executed y) = mset (loads es))"
proof -
  let ?n = "length (ex_queues x)"
  have stay: "staying x" using executor_reachable_staying [OF assms(1)] .
  from worker_run_left [OF stay assms(2-4)] have r: "staying y" "ex_running y"
    "length fs \<le> work_left x" "loads fs = []" by auto
  have "step_weight ?n b w \<le> ?n + 5" for b and w :: "'a worker" by (cases w) auto
  then have "(\<Sum>i<?n. weight_at x i) \<le> (\<Sum>i<?n. ?n + 5)"
    unfolding weight_at_def by (intro sum_mono) simp
  then have "work_left x \<le> (?n + 5) * (size (queued x) + ?n)"
    by (simp add: work_left_def algebra_simps)
  moreover have "mset (ex_executed y) = mset (loads es)" if "\<forall>i. worker_step i y = None"
  proof -
    have "shaped x" using stay by (simp add: staying_def executor_inv_def)
    then have "total y = mset (loads es)"
      using executor_total [OF executor_new_shaped assms(1)] executor_total [OF _ assms(4)] r(4)
      by (simp add: executor_new_total)
    then show ?thesis using resting [OF r(1,2) that] by (simp add: total_def)
  qed
  ultimately show ?thesis using r(3) by simp
qed

definition one_task_run :: "nat executor_event list" where
  "one_task_run = [Step 0, Step 0, Step 0, Step 0, Step 0, Step 0, Step 0, Step 0]"

theorem executor_drains_witness:
  "\<exists>x y. run_opt executor_event [Load (7::nat)] (executor_new 1) = Some x \<and>
     run_opt executor_event one_task_run x = Some y \<and> mset (ex_executed y) = {#7#}"
proof -
  have "\<exists>x. run_opt executor_event [Load (7::nat)] (executor_new 1) = Some x \<and> ex_running x \<and>
      (\<exists>y. run_opt executor_event one_task_run x = Some y \<and> worker_step 0 y = None \<and> length (ex_workers y) = 1)"
    by (simp add: executor_new_def next_pwr_of_2_def executor_defs executor_slot_def wq_defs one_task_run_def)
  then obtain x y where x: "run_opt executor_event [Load (7::nat)] (executor_new 1) = Some x" "ex_running x"
      and y: "run_opt executor_event one_task_run x = Some y" "worker_step 0 y = None" "length (ex_workers y) = 1"
    by blast
  have rest: "\<forall>i. worker_step i y = None" using y(2,3) by (metis One_nat_def less_one not_le worker_step_def)
  have "list_all worker_event one_task_run" by (simp add: one_task_run_def worker_event_def list_all_iff)
  from executor_drains [OF x this y(1)] x y(1) rest show ?thesis by auto
qed

end
