(* ===== verification/IOContext.thy ===== *)
theory IOContext
  imports TaskExecutor
begin

text \<open>
  \<open>IOContext\<close> of \<open>asio/IOContext.hpp\<close>: the flag, the work guard, whether the \<open>asio\<close> context is
  stopped, and the task executor whose tasks call \<open>io_context::run()\<close>; task \<open>i\<close> is the \<open>i\<close>-th of them.
\<close>

record io_context =
  io_running :: bool
  io_guard :: bool
  io_stopped :: bool
  io_executor :: "nat executor"

definition executorCount :: nat where "executorCount = 4"

definition io_new :: io_context where
  "io_new = \<lparr>io_running = False, io_guard = True, io_stopped = False,
     io_executor = executor_new (of_nat executorCount)\<rparr>"

text \<open>The loop of \<open>run\<close>; \<open>None\<close> while a load has to wait for a queue's lock.\<close>

fun io_loads :: "nat list \<Rightarrow> nat executor \<Rightarrow> (nat executor option) res" where
  "io_loads [] x = ok (Some x)"
| "io_loads (i # is) x =
     bind_res (executor_load i x) (\<lambda>r. case r of None \<Rightarrow> ok None | Some y \<Rightarrow> io_loads is y)"

definition io_run :: "bool \<Rightarrow> io_context \<Rightarrow> (io_context option) res" where
  "io_run strict io =
     (if io_running io then (if strict then Inl Aborted else ok (Some io))
      else bind_res (io_loads [0..<executorCount] (io_executor io))
        (\<lambda>r. ok (map_option (\<lambda>x. io\<lparr>io_running := True, io_executor := x\<rparr>) r)))"

text \<open>\<open>stop\<close> up to the executor's \<open>stop\<close>, which then proceeds by its own steps; and what follows it.\<close>

definition io_stop_begin :: "io_context \<Rightarrow> io_context" where
  "io_stop_begin io =
     (if \<not> io_running io then io
      else io\<lparr>io_guard := False, io_stopped := True, io_executor := executor_stop (io_executor io)\<rparr>)"

definition io_stop_end :: "io_context \<Rightarrow> io_context option" where
  "io_stop_end io =
     (if ex_stop (io_executor io) = StopDone then Some (io\<lparr>io_stopped := False, io_running := False\<rparr>) else None)"

lemma io_loads_events:
  "io_loads is x = ok (Some y) \<Longrightarrow> run_opt executor_event (map Load is) x = Some y"
proof (induction "is" arbitrary: x)
  case (Cons i "is")
  then show ?case
    by (cases "executor_load i x") (auto simp: executor_event_def split: option.splits)
qed simp

lemma executor_new_4:
  "executor_new 4 = \<lparr>ex_running = True, ex_index = 0, ex_queues = [wq_new, wq_new, wq_new, wq_new],
     ex_workers = [AtTest, AtTest, AtTest, AtTest], ex_stop = NotStopping, ex_executed = []\<rparr>"
proof -
  have "unat (next_pwr_of_2 4) = 4" by (simp add: next_pwr_of_2_def word_le_nat_alt)
  then show ?thesis by (simp add: executor_new_def numeral_eq_Suc)
qed

lemma slot_4:
  "executor_slot k 4 = unat k mod 4"
  "executor_slot k (Suc (Suc (Suc (Suc 0)))) = unat k mod 4"
proof -
  have four: "Suc (Suc (Suc (Suc 0))) = 4" by simp
  show "executor_slot k 4 = unat k mod 4" using slot_pow2 [of 2 k] by simp
  then show "executor_slot k (Suc (Suc (Suc (Suc 0)))) = unat k mod 4" by (simp only: four)
qed

text \<open>
  \<open>run\<close> starts the event loop on every thread: on a new context it loads four tasks, each into a
  queue of its own, so each worker finds exactly one call of \<open>io_context::run()\<close>; a second \<open>run\<close> does
  nothing, or aborts in strict mode.
\<close>

theorem io_run_feeds_every_worker:
  "\<exists>io. io_run strict io_new = ok (Some io) \<and>
     map wq_tasks (ex_queues (io_executor io)) = [[0], [1], [2], [3]] \<and>
     length (ex_workers (io_executor io)) = 4 \<and>
     io_run strict io = (if strict then Inl Aborted else ok (Some io))"
  by (simp add: io_run_def io_new_def executorCount_def executor_new_4 slot_4 upt_rec executor_load_def
      Let_def set_queue_def wq_defs)

text \<open>
  A stopped context cannot be started again: after \<open>stop\<close> has ended, \<open>run\<close> succeeds and reports a
  running context, but whatever happens then, no task is ever executed, so no thread runs the event
  loop.
\<close>

theorem io_restart_is_dead:
  assumes "run_opt executor_event es (executor_new 4) = Some (io_executor io)"
    and "io_stop_end io = Some io1" "io_run strict io1 = ok (Some io2)"
    and "run_opt executor_event fs (io_executor io2) = Some y"
  shows "io_running io2 \<and> ex_executed y = ex_executed (io_executor io)"
proof -
  from assms(2) have io1: "io1 = io\<lparr>io_stopped := False, io_running := False\<rparr>"
    and d: "ex_stop (io_executor io) = StopDone" by (auto simp: io_stop_end_def split: if_splits)
  have fin: "finished (ex_executed (io_executor io)) (io_executor io)"
    using executor_reachable_inv [OF assms(1)] d by (simp add: finished_def)
  from assms(3) io1 obtain x where x: "io_loads [0..<executorCount] (io_executor io) = ok (Some x)"
    "io2 = io1\<lparr>io_running := True, io_executor := x\<rparr>"
    by (auto simp: io_run_def bind_res_ok_iff)
  have "run_opt executor_event (map Load [0..<executorCount] @ fs) (io_executor io) = Some y"
    using io_loads_events [OF x(1)] assms(4) x(2) by (simp add: run_opt_append)
  then have "finished (ex_executed (io_executor io)) y"
    using fin finished_run by blast
  then show ?thesis using x(2) by (simp add: finished_def)
qed

definition stop_everyone :: "nat executor_event list" where
  "stop_everyone = [CallStop, Stopper, Step 0, Stopper, Stopper, Step 1, Stopper, Stopper, Step 2, Stopper,
     Stopper, Step 3, Stopper, Stopper]"

lemma stop_everyone_run:
  "run_opt executor_event stop_everyone (executor_new 4) = Some \<lparr>ex_running = False, ex_index = 0,
     ex_queues = [wq_new, wq_new, wq_new, wq_new], ex_workers = [Gone, Gone, Gone, Gone],
     ex_stop = StopDone, ex_executed = []\<rparr>"
  by (simp add: stop_everyone_def executor_new_4 executor_defs wq_defs)

theorem io_restart_is_dead_witness:
  "\<exists>io io1 io2. io_stop_end io = Some io1 \<and> io_run True io1 = ok (Some io2) \<and> io_running io2 \<and>
     ex_executed (io_executor io2) = []"
proof -
  define x :: "nat executor" where "x = \<lparr>ex_running = False, ex_index = 0,
     ex_queues = [wq_new, wq_new, wq_new, wq_new], ex_workers = [Gone, Gone, Gone, Gone],
     ex_stop = StopDone, ex_executed = []\<rparr>"
  define io where "io = io_new\<lparr>io_running := True, io_executor := x\<rparr>"
  have e: "run_opt executor_event stop_everyone (executor_new 4) = Some (io_executor io)"
    by (simp add: stop_everyone_run io_def x_def)
  obtain io1 where io1: "io_stop_end io = Some io1" by (simp add: io_stop_end_def io_def x_def)
  then have "\<exists>io2. io_run True io1 = ok (Some io2)"
    by (auto simp: io_stop_end_def io_def io_run_def x_def executorCount_def slot_4 upt_rec executor_load_def
        Let_def set_queue_def wq_defs)
  then obtain io2 where io2: "io_run True io1 = ok (Some io2)" by blast
  from io_restart_is_dead [OF e io1 io2, of "[]"] io1 io2 show ?thesis by (auto simp: io_def x_def)
qed

end
