(* ===== verification/EventLoop.thy ===== *)
theory EventLoop
  imports IOContext
begin

text \<open>
  \<open>IOContext\<close> with its executor and its event loop together: the four tasks that \<open>run\<close> loads call
  \<open>io_context::run()\<close>, in which a worker stays and executes handlers until the context is stopped. \<open>asio\<close> is a
  record of functions over the state \<open>'c\<close> of its context, an argument of the steps; \<open>asio_documented\<close> states what
  its documentation says of them.
\<close>

section \<open>The context of asio\<close>

text \<open>\<open>ap_next\<close> is the handler a thread inside \<open>run()\<close> executes next; \<open>ap_pending\<close> lists those not yet taken.\<close>

record ('c, 'h) asio_api =
  ap_post :: "'h \<Rightarrow> 'c \<Rightarrow> 'c"
  ap_next :: "'c \<Rightarrow> ('h \<times> 'c) option"
  ap_stop :: "'c \<Rightarrow> 'c"
  ap_restart :: "'c \<Rightarrow> 'c"
  ap_pending :: "'c \<Rightarrow> 'h list"
  ap_stopped :: "'c \<Rightarrow> bool"

text \<open>
  A posted handler is pending until one thread takes it, in no particular order; a context that is not stopped gives
  out its pending handlers, a stopped one none, but it keeps them.
\<close>

definition asio_documented :: "('c, 'h) asio_api \<Rightarrow> bool" where
  "asio_documented api \<longleftrightarrow>
     (\<forall>h c. mset (ap_pending api (ap_post api h c)) = add_mset h (mset (ap_pending api c)) \<and>
        ap_stopped api (ap_post api h c) = ap_stopped api c) \<and>
     (\<forall>c. case ap_next api c of
        None \<Rightarrow> ap_stopped api c \<or> ap_pending api c = []
      | Some (h, d) \<Rightarrow> \<not> ap_stopped api c \<and> \<not> ap_stopped api d \<and>
          mset (ap_pending api c) = add_mset h (mset (ap_pending api d))) \<and>
     (\<forall>c. ap_stopped api (ap_stop api c) \<and> ap_pending api (ap_stop api c) = ap_pending api c \<and>
        \<not> ap_stopped api (ap_restart api c) \<and> ap_pending api (ap_restart api c) = ap_pending api c)"

section \<open>State and steps\<close>

text \<open>
  \<open>el_loading\<close> is the next task a call of \<open>run\<close> has to load; \<open>el_busy\<close> the handler each worker executes; \<open>el_stopping\<close>
  says that a call of \<open>stop\<close> is in progress, \<open>el_stop_by\<close> in which worker's handler, if in one, and \<open>el_waits\<close> that it is
  in the executor's \<open>stop\<close>. There is one such call at a time.
\<close>

record ('c, 'h) event_loop =
  el_io :: io_context
  el_asio :: 'c
  el_loading :: "nat option"
  el_busy :: "'h option list"
  el_done :: "'h list"
  el_stopping :: bool
  el_stop_by :: "nat option"
  el_waits :: bool

definition loop_new :: "'c \<Rightarrow> ('c, 'h) event_loop" where
  "loop_new c = \<lparr>el_io = io_new, el_asio = c, el_loading = None, el_busy = replicate executorCount None,
     el_done = [], el_stopping = False, el_stop_by = None, el_waits = False\<rparr>"

abbreviation el_executor :: "('c, 'h) event_loop \<Rightarrow> nat executor" where
  "el_executor s \<equiv> io_executor (el_io s)"

definition with_executor :: "nat executor \<Rightarrow> ('c, 'h) event_loop \<Rightarrow> ('c, 'h) event_loop" where
  "with_executor x s = s\<lparr>el_io := (el_io s)\<lparr>io_executor := x\<rparr>\<rparr>"

text \<open>A worker that executes its task is inside \<open>_context.run()\<close>.\<close>

definition in_run :: "'f executor \<Rightarrow> nat \<Rightarrow> bool" where
  "in_run x i = (i < length (ex_workers x) \<and>
     (case ex_workers x ! i of Running _ \<Rightarrow> True | RunningStolen _ \<Rightarrow> True | _ \<Rightarrow> False))"

text \<open>\<open>run\<close>: the test and the store, and then the loads one by one. In strict mode a second call ends the process.\<close>

definition loop_run :: "bool \<Rightarrow> ('c, 'h) event_loop \<Rightarrow> ('c, 'h) event_loop option" where
  "loop_run strict s =
     (if el_loading s \<noteq> None then None
      else if io_running (el_io s) then (if strict then None else Some s)
      else Some (s\<lparr>el_io := (el_io s)\<lparr>io_running := True\<rparr>, el_loading := Some 0\<rparr>))"

definition loop_load :: "('c, 'h) event_loop \<Rightarrow> ('c, 'h) event_loop option" where
  "loop_load s =
     (case el_loading s of
        None \<Rightarrow> None
      | Some i \<Rightarrow>
          if i < executorCount
          then (case executor_event (Load i) (el_executor s) of
                  None \<Rightarrow> None | Some x \<Rightarrow> Some ((with_executor x s)\<lparr>el_loading := Some (Suc i)\<rparr>))
          else Some (s\<lparr>el_loading := None\<rparr>))"

text \<open>\<open>stop\<close>, called from outside or by the handler a worker executes; then it waits for the executor's \<open>stop\<close>.\<close>

definition loop_stop :: "('c, 'h) asio_api \<Rightarrow> nat option \<Rightarrow> ('c, 'h) event_loop \<Rightarrow> ('c, 'h) event_loop option" where
  "loop_stop api by_worker s =
     (if el_stopping s \<or> (case by_worker of None \<Rightarrow> False | Some i \<Rightarrow> length (el_busy s) \<le> i \<or> el_busy s ! i = None) then None
      else if \<not> io_running (el_io s) then Some s
      else Some (s\<lparr>el_io := (el_io s)\<lparr>io_guard := False, io_stopped := True\<rparr>, el_asio := ap_stop api (el_asio s),
                   el_stopping := True, el_stop_by := by_worker\<rparr>))"

definition loop_stop_executor :: "('c, 'h) event_loop \<Rightarrow> ('c, 'h) event_loop option" where
  "loop_stop_executor s =
     (if el_stopping s \<and> \<not> el_waits s
      then Some ((with_executor (executor_stop (el_executor s)) s)\<lparr>el_waits := True\<rparr>) else None)"

definition loop_stopper :: "('c, 'h) event_loop \<Rightarrow> ('c, 'h) event_loop option" where
  "loop_stopper s =
     (if el_waits s then map_option (\<lambda>x. with_executor x s) (executor_event Stopper (el_executor s)) else None)"

definition loop_stop_end :: "('c, 'h) asio_api \<Rightarrow> ('c, 'h) event_loop \<Rightarrow> ('c, 'h) event_loop option" where
  "loop_stop_end api s =
     (if el_waits s
      then map_option (\<lambda>io. s\<lparr>el_io := io, el_asio := ap_restart api (el_asio s), el_stopping := False,
             el_stop_by := None, el_waits := False\<rparr>) (io_stop_end (el_io s))
      else None)"

text \<open>
  A step of a worker; \<open>_context.run()\<close> returns between two handlers, when the context is stopped (until then the work
  guard keeps it from returning for want of work).
\<close>

definition loop_step :: "('c, 'h) asio_api \<Rightarrow> nat \<Rightarrow> ('c, 'h) event_loop \<Rightarrow> ('c, 'h) event_loop option" where
  "loop_step api i s =
     (if in_run (el_executor s) i \<and> \<not> (el_busy s ! i = None \<and> ap_stopped api (el_asio s)) then None
      else map_option (\<lambda>x. with_executor x s) (executor_event (Step i) (el_executor s)))"

text \<open>Inside \<open>run()\<close> a worker takes a handler, and ends it; not while the handler waits in \<open>stop\<close>.\<close>

definition handler_begins :: "('c, 'h) asio_api \<Rightarrow> nat \<Rightarrow> ('c, 'h) event_loop \<Rightarrow> ('c, 'h) event_loop option" where
  "handler_begins api i s =
     (if in_run (el_executor s) i \<and> el_busy s ! i = None
      then map_option (\<lambda>(h, c). s\<lparr>el_asio := c, el_busy := (el_busy s)[i := Some h]\<rparr>) (ap_next api (el_asio s))
      else None)"

definition handler_ends :: "nat \<Rightarrow> ('c, 'h) event_loop \<Rightarrow> ('c, 'h) event_loop option" where
  "handler_ends i s =
     (if length (el_busy s) \<le> i \<or> el_stopping s \<and> el_stop_by s = Some i then None
      else map_option (\<lambda>h. s\<lparr>el_busy := (el_busy s)[i := None], el_done := el_done s @ [h]\<rparr>) (el_busy s ! i))"

text \<open>
  An exception of a handler leaves \<open>run()\<close> and with it the task, where the \<open>packaged_task\<close> of \<open>load\<close> keeps it in a future
  nobody looks at; the worker goes on with the executor's loop.
\<close>

definition handler_throws :: "nat \<Rightarrow> ('c, 'h) event_loop \<Rightarrow> ('c, 'h) event_loop option" where
  "handler_throws i s =
     (case handler_ends i s of
        None \<Rightarrow> None
      | Some t \<Rightarrow> map_option (\<lambda>x. with_executor x t) (executor_event (Step i) (el_executor t)))"

text \<open>
  \<open>dispatch\<close> from outside is \<open>post\<close>; called by the handler that worker \<open>i\<close> executes it runs the new handler at once,
  inside the other. A handler run that way is taken to return.
\<close>

definition loop_dispatch ::
  "('c, 'h) asio_api \<Rightarrow> nat option \<Rightarrow> 'h \<Rightarrow> ('c, 'h) event_loop \<Rightarrow> ('c, 'h) event_loop option" where
  "loop_dispatch api by_worker h s =
     (case by_worker of
        None \<Rightarrow> Some (s\<lparr>el_asio := ap_post api h (el_asio s)\<rparr>)
      | Some i \<Rightarrow>
          if length (el_busy s) \<le> i \<or> el_busy s ! i = None \<or> el_stopping s \<and> el_stop_by s = Some i then None
          else Some (s\<lparr>el_done := el_done s @ [h]\<rparr>))"

datatype 'h loop_event =
    ElRun | ElLoad | ElPost 'h | ElDispatch "nat option" 'h | ElStop "nat option" | ElStopExecutor | ElStopper | ElStopEnd | ElStep nat | ElSpurious nat
  | ElBegin nat | ElEnd nat | ElThrow nat

definition loop_event ::
  "('c, 'h) asio_api \<Rightarrow> bool \<Rightarrow> 'h loop_event \<Rightarrow> ('c, 'h) event_loop \<Rightarrow> ('c, 'h) event_loop option" where
  "loop_event api strict e s =
     (case e of
        ElRun \<Rightarrow> loop_run strict s
      | ElLoad \<Rightarrow> loop_load s
      | ElPost h \<Rightarrow> Some (s\<lparr>el_asio := ap_post api h (el_asio s)\<rparr>)
      | ElDispatch by_worker h \<Rightarrow> loop_dispatch api by_worker h s
      | ElStop by_worker \<Rightarrow> loop_stop api by_worker s
      | ElStopExecutor \<Rightarrow> loop_stop_executor s
      | ElStopper \<Rightarrow> loop_stopper s
      | ElStopEnd \<Rightarrow> loop_stop_end api s
      | ElStep i \<Rightarrow> loop_step api i s
      | ElSpurious i \<Rightarrow> map_option (\<lambda>x. with_executor x s) (executor_event (Spurious i) (el_executor s))
      | ElBegin i \<Rightarrow> handler_begins api i s
      | ElEnd i \<Rightarrow> handler_ends i s
      | ElThrow i \<Rightarrow> handler_throws i s)"

lemmas loop_defs [op_defs] = loop_event_def loop_run_def loop_load_def loop_stop_def loop_stop_executor_def loop_stopper_def
  loop_stop_end_def loop_step_def handler_begins_def handler_ends_def handler_throws_def loop_dispatch_def with_executor_def

fun posted :: "'h loop_event list \<Rightarrow> 'h list" where
  "posted [] = []"
| "posted (ElPost h # es) = h # posted es"
| "posted (ElDispatch _ h # es) = h # posted es"
| "posted (_ # es) = posted es"

section \<open>The executor inside the loop\<close>

text \<open>Every event is at most one event of the executor.\<close>

lemma loop_executor:
  assumes "loop_event api strict e s = Some t"
  shows "el_executor t = el_executor s \<or> (\<exists>x. executor_event x (el_executor s) = Some (el_executor t))"
proof (cases e)
  case ElStopExecutor
  have "executor_event CallStop (el_executor s) = Some (executor_stop (el_executor s))"
    by (simp add: executor_event_def)
  then show ?thesis using assms ElStopExecutor by (auto simp: loop_defs split: if_splits)
qed (use assms in \<open>auto simp: loop_defs io_stop_end_def split: if_splits option.splits\<close>)

lemma busy_run_keeps:
  assumes "executor_event x y = Some z" "in_run y i" "\<And>j. x = Step j \<Longrightarrow> j \<noteq> i"
  shows "in_run z i"
  using assms
  by (cases x)
    (auto simp: executor_event_def executor_load_def executor_stop_def executor_stopper_def Let_def set_queue_def
      set_worker_def in_run_def worker_step_frame nth_list_update split: if_splits stop_phase.splits option.splits sum.splits)

lemma executor_event_running:
  "executor_event e x = Some y \<Longrightarrow> ex_running y \<Longrightarrow> ex_running x"
  by (cases e)
    (auto simp: executor_event_def executor_load_def executor_stop_def executor_stopper_def Let_def worker_step_frame
      split: if_splits stop_phase.splits option.splits sum.splits)

section \<open>Invariants\<close>

definition loop_inv :: "('c, 'h) event_loop \<Rightarrow> bool" where
  "loop_inv s \<longleftrightarrow> executor_inv (el_executor s) \<and> length (ex_workers (el_executor s)) = executorCount \<and>
     length (el_busy s) = executorCount \<and>
     (\<forall>i < executorCount. el_busy s ! i \<noteq> None \<longrightarrow> in_run (el_executor s) i) \<and>
     (\<forall>i. el_stopping s \<and> el_stop_by s = Some i \<longrightarrow> i < executorCount \<and> el_busy s ! i \<noteq> None) \<and>
     (el_waits s \<longrightarrow> el_stopping s \<and> \<not> ex_running (el_executor s))"

lemma executor_event_length:
  "executor_inv x \<Longrightarrow> executor_event e x = Some y \<Longrightarrow> length (ex_workers y) = length (ex_workers x)"
  by (cases e)
    (auto simp: executor_event_def executor_load_def executor_stop_def executor_stopper_def Let_def worker_step_frame
      split: if_splits stop_phase.splits option.splits sum.splits)

lemma loop_event_executor_inv:
  assumes "loop_inv s" "loop_event api strict e s = Some t"
  shows "executor_inv (el_executor t)" "length (ex_workers (el_executor t)) = executorCount"
proof -
  have inv: "executor_inv (el_executor s)" "length (ex_workers (el_executor s)) = executorCount"
    using assms(1) by (simp_all add: loop_inv_def)
  from loop_executor [OF assms(2)] show "executor_inv (el_executor t)" "length (ex_workers (el_executor t)) = executorCount"
    using inv executor_event_inv [OF inv(1)] executor_event_length [OF inv(1)] by auto
qed

text \<open>A worker that executes a handler stays in \<open>run()\<close>, whatever happens.\<close>

lemma loop_event_in_run:
  assumes "loop_event api strict e s = Some t" "in_run (el_executor s) i" "el_busy s ! i \<noteq> None"
    and "el_busy t ! i \<noteq> None"
  shows "in_run (el_executor t) i"
proof -
  have "el_executor t = el_executor s \<or>
      (\<exists>x. executor_event x (el_executor s) = Some (el_executor t) \<and> (\<forall>j. x = Step j \<longrightarrow> j \<noteq> i))"
  proof (cases e)
    case (ElStep j)
    then have "executor_event (Step j) (el_executor s) = Some (el_executor t)" "j \<noteq> i"
      using assms by (auto simp: loop_defs split: if_splits)
    then show ?thesis by blast
  next
    case (ElThrow j)
    then have "executor_event (Step j) (el_executor s) = Some (el_executor t)" "j \<noteq> i"
      using assms(1,4) by (auto simp: loop_defs split: if_splits option.splits)
    then show ?thesis by blast
  next
    case ElStopExecutor
    have "executor_event CallStop (el_executor s) = Some (executor_stop (el_executor s))"
      by (simp add: executor_event_def)
    then show ?thesis using assms ElStopExecutor by (auto simp: loop_defs split: if_splits)
  qed (use assms(1) in \<open>auto simp: loop_defs io_stop_end_def split: if_splits option.splits\<close>)
  then show ?thesis using busy_run_keeps [OF _ assms(2)] assms(2) by metis
qed

lemma loop_inv_event:
  assumes "loop_inv s" "loop_event api strict e s = Some t"
  shows "loop_inv t"
proof -
  have len: "length (el_busy s) = executorCount" using assms(1) by (simp add: loop_inv_def)
  have len': "length (el_busy t) = executorCount"
    using assms(2) len
    by (cases e) (auto simp: loop_defs split: if_splits option.splits)
  have busy: "el_busy t ! i \<noteq> None \<longrightarrow> el_busy s ! i \<noteq> None \<or> in_run (el_executor s) i \<and> el_executor t = el_executor s"
    if "i < executorCount" for i
  proof (cases e)
    case (ElBegin j)
    then show ?thesis using assms(2) that len by (cases "i = j") (auto simp: loop_defs split: if_splits)
  qed (use assms(2) that len in \<open>auto simp: loop_defs nth_list_update split: if_splits option.splits\<close>)
  have stay: "i < executorCount \<and> el_busy t ! i \<noteq> None" if "el_stopping t" "el_stop_by t = Some i" for i
  proof (cases "el_stopping s \<and> el_stop_by s = Some i")
    case True
    then have "i < executorCount" "el_busy s ! i \<noteq> None" using assms(1) by (auto simp: loop_inv_def)
    note i = this
    show ?thesis
    proof (cases e)
      case (ElBegin j)
      then show ?thesis using assms(2) that i len by (cases "i = j") (auto simp: loop_defs split: if_splits)
    next
      case (ElEnd j)
      then show ?thesis using assms(2) that True i len by (cases "i = j") (auto simp: loop_defs split: if_splits)
    next
      case (ElThrow j)
      then show ?thesis using assms(2) that True i len
        by (cases "i = j") (auto simp: loop_defs split: if_splits option.splits)
    qed (use assms(2) that True i len in \<open>auto simp: loop_defs split: if_splits option.splits\<close>)
  next
    case False
    with assms(2) that len show ?thesis
      by (cases e) (auto simp: loop_defs not_le split: if_splits option.splits)
  qed
  have "in_run (el_executor t) i" if "i < executorCount" "el_busy t ! i \<noteq> None" for i
    using busy [OF that(1)] that assms(1) loop_event_in_run [OF assms(2), of i] by (auto simp: loop_inv_def)
  moreover have "el_waits t \<longrightarrow> el_stopping t \<and> \<not> ex_running (el_executor t)"
  proof -
    have "ex_running (el_executor t) \<longrightarrow> ex_running (el_executor s)"
      using loop_executor [OF assms(2)] executor_event_running by auto
    then show ?thesis using assms
      by (cases e) (auto simp: loop_inv_def loop_defs executor_stop_def split: if_splits option.splits)
  qed
  ultimately show ?thesis
    using loop_event_executor_inv [OF assms] len' stay by (simp add: loop_inv_def)
qed

lemma executorCount_eq: "executorCount = 4"
  by (simp add: executorCount_def)

lemma loop_inv_new: "loop_inv (loop_new c)"
proof -
  have "executor_inv (executor_new (of_nat executorCount) :: nat executor)" by (rule executor_new_inv)
  moreover have "length (ex_workers (executor_new (of_nat executorCount) :: nat executor)) = executorCount"
    by (simp add: executorCount_eq executor_new_4)
  ultimately show ?thesis by (simp add: loop_inv_def loop_new_def io_new_def)
qed

lemma loop_run_inv: "run_opt (loop_event api strict) es (loop_new c) = Some s \<Longrightarrow> loop_inv s"
  by (rule run_opt_inv [of loop_inv "\<lambda>_. True"]) (auto intro: loop_inv_event loop_inv_new)

section \<open>Handlers are conserved\<close>

definition loop_handlers :: "('c, 'h) asio_api \<Rightarrow> ('c, 'h) event_loop \<Rightarrow> 'h multiset" where
  "loop_handlers api s = mset (el_done s) + sum_list (map (\<lambda>b. case b of None \<Rightarrow> {#} | Some h \<Rightarrow> {#h#}) (el_busy s)) +
     mset (ap_pending api (el_asio s))"

lemma busy_update:
  "i < length bs \<Longrightarrow>
   sum_list (map (\<lambda>b. case b of None \<Rightarrow> {#} | Some h \<Rightarrow> {#h#}) (bs[i := v])) + (case bs ! i of None \<Rightarrow> {#} | Some h \<Rightarrow> {#h#}) =
   sum_list (map (\<lambda>b. case b of None \<Rightarrow> {#} | Some h \<Rightarrow> {#h#}) bs) + (case v of None \<Rightarrow> {#} | Some h \<Rightarrow> {#h#})"
  using sum_list_update_mset [of i "map (\<lambda>b. case b of None \<Rightarrow> {#} | Some h \<Rightarrow> {#h#}) bs"]
  by (simp add: map_update)

lemma loop_event_handlers:
  assumes "asio_documented api" "loop_inv s" "loop_event api strict e s = Some t"
  shows "loop_handlers api t = loop_handlers api s + mset (posted [e])"
proof -
  have len: "length (el_busy s) = executorCount" "length (ex_workers (el_executor s)) = executorCount"
    using assms(2) by (simp_all add: loop_inv_def)
  show ?thesis
  proof (cases e)
    case (ElBegin i)
    then obtain h c where h: "ap_next api (el_asio s) = Some (h, c)" "el_busy s ! i = None" "in_run (el_executor s) i"
      "t = s\<lparr>el_asio := c, el_busy := (el_busy s)[i := Some h]\<rparr>"
      using assms(3) by (auto simp: loop_defs split: if_splits)
    have "mset (ap_pending api (el_asio s)) = add_mset h (mset (ap_pending api c))"
      using assms(1) h(1) by (auto simp: asio_documented_def dest!: spec [of _ "el_asio s"] split: option.splits)
    moreover have "i < length (el_busy s)" using h(3) len by (simp add: in_run_def)
    ultimately show ?thesis using busy_update [of i "el_busy s" "Some h"] h(2) ElBegin
      by (simp add: loop_handlers_def h(4))
  next
    case (ElEnd i)
    then obtain h where h: "i < length (el_busy s)" "el_busy s ! i = Some h"
      "t = s\<lparr>el_busy := (el_busy s)[i := None], el_done := el_done s @ [h]\<rparr>"
      using assms(3) by (auto simp: loop_defs split: if_splits)
    then show ?thesis using busy_update [OF h(1), of None] ElEnd by (simp add: loop_handlers_def)
  next
    case (ElThrow i)
    then obtain h x where h: "i < length (el_busy s)" "el_busy s ! i = Some h"
      "t = with_executor x (s\<lparr>el_busy := (el_busy s)[i := None], el_done := el_done s @ [h]\<rparr>)"
      using assms(3) by (auto simp: loop_defs split: if_splits option.splits)
    then show ?thesis using busy_update [OF h(1), of None] ElThrow by (simp add: loop_handlers_def with_executor_def)
  next
    case (ElDispatch b h)
    then show ?thesis using assms(1,3)
      by (cases b) (auto simp: loop_defs loop_handlers_def asio_documented_def split: if_splits)
  next
    case (ElPost h)
    then show ?thesis using assms(1,3) by (auto simp: loop_defs loop_handlers_def asio_documented_def)
  next
    case (ElStop b)
    then show ?thesis using assms(1,3) by (auto simp: loop_defs loop_handlers_def asio_documented_def split: if_splits)
  next
    case ElStopEnd
    then show ?thesis using assms(1,3) by (auto simp: loop_defs loop_handlers_def asio_documented_def split: if_splits)
  qed (use assms(3) in \<open>auto simp: loop_defs loop_handlers_def split: if_splits option.splits\<close>)
qed

lemma posted_Cons: "posted (e # es) = posted [e] @ posted es"
  by (cases e) auto

lemma loop_run_handlers:
  assumes "asio_documented api"
  shows "loop_inv s \<Longrightarrow> run_opt (loop_event api strict) es s = Some t \<Longrightarrow>
    loop_handlers api t = loop_handlers api s + mset (posted es)"
proof (induction es arbitrary: s)
  case (Cons e es)
  then obtain u where u: "loop_event api strict e s = Some u" "run_opt (loop_event api strict) es u = Some t"
    by (auto split: option.splits)
  from Cons.IH [OF loop_inv_event [OF Cons.prems(1) u(1)] u(2)] loop_event_handlers [OF assms Cons.prems(1) u(1)]
  show ?case by (subst posted_Cons) simp
qed simp

lemma busy_handlers:
  "sum_list (map (\<lambda>b. case b of None \<Rightarrow> {#} | Some h \<Rightarrow> {#h#}) bs) = mset (List.map_filter (\<lambda>b. b) bs)"
  by (induction bs) (auto simp: map_filter_simps split: option.splits)

section \<open>The end of the loop\<close>

lemma loop_finished_event:
  assumes "loop_event api strict e s = Some t" "finished ts (el_executor s)"
  shows "finished ts (el_executor t)"
  using loop_executor [OF assms(1)] assms(2) finished_event by metis

lemma finished_gone:
  assumes "finished ts x" "i < length (ex_workers x)"
  shows "ex_workers x ! i = Gone"
  using assms by (auto simp: finished_def executor_inv_def stop_ok_def gone_below_def)

lemma finished_not_in_run: "finished ts x \<Longrightarrow> \<not> in_run x i"
  by (auto simp: in_run_def finished_gone)

definition loop_over :: "'h list \<Rightarrow> ('c, 'h) event_loop \<Rightarrow> bool" where
  "loop_over hs s \<longleftrightarrow> loop_inv s \<and> (\<exists>ts. finished ts (el_executor s)) \<and> el_done s = hs"

lemma loop_over_idle:
  assumes "loop_over hs s"
  shows "el_busy s = replicate executorCount None"
proof -
  obtain ts where "finished ts (el_executor s)" using assms by (auto simp: loop_over_def)
  then have "\<not> in_run (el_executor s) i" for i by (rule finished_not_in_run)
  then show ?thesis using assms by (intro nth_equalityI) (auto simp: loop_over_def loop_inv_def)
qed

lemma loop_over_event:
  assumes "loop_over hs s" "loop_event api strict e s = Some t"
  shows "loop_over hs t"
proof -
  obtain ts where ts: "finished ts (el_executor s)" using assms(1) by (auto simp: loop_over_def)
  have idle: "el_busy s ! i = None" if "i < length (el_busy s)" for i
    using loop_over_idle [OF assms(1)] that by simp
  have "el_done t = el_done s"
    using assms(2) idle
    by (cases e) (auto simp: loop_defs split: if_splits option.splits)
  then show ?thesis
    using assms loop_inv_event [of s api strict e t] loop_finished_event [OF assms(2) ts] by (auto simp: loop_over_def)
qed

lemma loop_over_run:
  "run_opt (loop_event api strict) es s = Some t \<Longrightarrow> loop_over hs s \<Longrightarrow> loop_over hs t"
  by (rule run_opt_inv [of "loop_over hs" "\<lambda>_. True"]) (auto intro: loop_over_event)

lemma loop_stop_end_over:
  assumes "loop_inv s" "loop_stop_end api s = Some t"
  shows "loop_over (el_done s) t"
proof -
  have e: "loop_event api True ElStopEnd s = Some t" using assms(2) by (simp add: loop_event_def)
  have "el_executor t = el_executor s" "el_done t = el_done s" "ex_stop (el_executor s) = StopDone"
    using assms(2) by (auto simp: loop_defs io_stop_end_def split: if_splits)
  then show ?thesis
    using loop_inv_event [OF assms(1) e] assms(1) by (auto simp: loop_over_def loop_inv_def finished_def)
qed

text \<open>A handler that calls \<open>stop\<close> waits for the worker it runs on.\<close>

definition stop_in_handler :: "nat \<Rightarrow> ('c, 'h) event_loop \<Rightarrow> bool" where
  "stop_in_handler i s \<longleftrightarrow> loop_inv s \<and> el_stopping s \<and> el_stop_by s = Some i"

lemma stop_in_handler_not_done:
  assumes "stop_in_handler i s"
  shows "ex_stop (el_executor s) \<noteq> StopDone" "i < executorCount" "el_busy s ! i \<noteq> None"
proof -
  have i: "i < executorCount" "el_busy s ! i \<noteq> None" "in_run (el_executor s) i"
    using assms by (auto simp: stop_in_handler_def loop_inv_def)
  then show "i < executorCount" "el_busy s ! i \<noteq> None" by simp_all
  show "ex_stop (el_executor s) \<noteq> StopDone"
    using i(3) assms finished_not_in_run [of "ex_executed (el_executor s)" "el_executor s" i]
    by (auto simp: stop_in_handler_def loop_inv_def finished_def)
qed

lemma stop_in_handler_event:
  assumes "stop_in_handler i s" "loop_event api strict e s = Some t"
  shows "stop_in_handler i t"
proof -
  have "el_stopping t \<and> el_stop_by t = Some i"
    using assms stop_in_handler_not_done [OF assms(1)]
    by (cases e) (auto simp: stop_in_handler_def loop_defs io_stop_end_def split: if_splits option.splits)
  then show ?thesis using assms loop_inv_event [of s api strict e t] by (simp add: stop_in_handler_def)
qed

lemma stop_in_handler_run:
  "run_opt (loop_event api strict) es s = Some t \<Longrightarrow> stop_in_handler i s \<Longrightarrow> stop_in_handler i t"
  by (rule run_opt_inv [of "stop_in_handler i" "\<lambda>_. True"]) (auto intro: stop_in_handler_event)

section \<open>Every thread reaches the loop\<close>

text \<open>
  Until the first \<open>stop\<close>: \<open>L\<close> tasks have been loaded, task \<open>i\<close> into queue \<open>i\<close>; worker \<open>i\<close> has it before it or executes it,
  and no worker has anything to steal.
\<close>

definition task_waits :: "nat \<Rightarrow> nat \<Rightarrow> nat work_queue \<Rightarrow> nat worker \<Rightarrow> bool" where
  "task_waits l i q w =
     (case w of
        Running _ \<Rightarrow> i < l \<and> wq_tasks q = []
      | AtTest \<Rightarrow> wq_tasks q = (if i < l then [i] else [])
      | AtPop \<Rightarrow> wq_tasks q = (if i < l then [i] else [])
      | Blocking \<Rightarrow> wq_tasks q = (if i < l then [i] else [])
      | Waiting \<Rightarrow> wq_tasks q = (if i < l then [i] else [])
      | _ \<Rightarrow> False)"

definition loop_fed :: "('c, 'h) asio_api \<Rightarrow> nat \<Rightarrow> ('c, 'h) event_loop \<Rightarrow> bool" where
  "loop_fed api l s \<longleftrightarrow> l \<le> executorCount \<and> length (ex_queues (el_executor s)) = executorCount \<and>
     ex_running (el_executor s) \<and> ex_index (el_executor s) = of_nat l \<and>
     (\<forall>i < executorCount. task_waits l i (ex_queues (el_executor s) ! i) (ex_workers (el_executor s) ! i)) \<and>
     \<not> ap_stopped api (el_asio s) \<and> \<not> el_stopping s \<and>
     (case el_loading s of Some k \<Rightarrow> k = l \<and> io_running (el_io s) | None \<Rightarrow> l = (if io_running (el_io s) then executorCount else 0))"

lemma loop_fed_new: "\<not> ap_stopped api c \<Longrightarrow> loop_fed api 0 (loop_new c)"
  by (auto simp: loop_fed_def loop_new_def io_new_def executorCount_eq executor_new_4 task_waits_def wq_new_def
      less_Suc_eq numeral_eq_Suc)

lemma fed_slot: "l < executorCount \<Longrightarrow> executor_slot (of_nat l) executorCount = l"
  by (simp add: executorCount_eq slot_4 unat_of_nat)

lemma fed_load:
  assumes "loop_fed api l s" "loop_inv s" "loop_load s = Some t"
  shows "\<exists>k. loop_fed api k t"
proof (cases "el_loading s = Some l \<and> l < executorCount")
  case True
  let ?x = "el_executor s" and ?q = "ex_queues (el_executor s) ! l"
  have slot: "executor_slot (ex_index ?x) (length (ex_queues ?x)) = l"
    using assms(1) True fed_slot by (simp add: loop_fed_def)
  have lq: "length (ex_queues ?x) = executorCount" using assms(1) by (simp add: loop_fed_def)
  have w: "task_waits l i (ex_queues ?x ! i) (ex_workers ?x ! i)" if "i < executorCount" for i
    using assms(1) that by (simp add: loop_fed_def)
  have load: "executor_load l ?x = (if wq_lock ?q \<noteq> None then ok None
      else ok (Some (set_queue l (wq_push l ?q) (?x\<lparr>ex_index := ex_index ?x + 1\<rparr>))))"
    unfolding executor_load_def Let_def slot using True lq by simp
  then have t: "t = (with_executor (set_queue l (wq_push l ?q) (?x\<lparr>ex_index := ex_index ?x + 1\<rparr>)) s)\<lparr>el_loading := Some (Suc l)\<rparr>"
    using assms(3) True by (auto simp: loop_load_def executor_event_def split: if_splits)
  have "task_waits (Suc l) i ((ex_queues ?x)[l := wq_push l ?q] ! i) (ex_workers ?x ! i)" if "i < executorCount" for i
    using w [OF that] that lq
    by (cases "i = l") (auto simp: task_waits_def wq_defs split: worker.splits if_splits)
  then have "loop_fed api (Suc l) t"
    using assms(1) True lq by (auto simp: loop_fed_def t with_executor_def set_queue_def add.commute)
  then show ?thesis by blast
next
  case False
  then show ?thesis
    using assms by (auto simp: loop_load_def loop_fed_def split: option.splits if_splits intro!: exI [of _ l])
qed

lemma worker_step_waits:
  assumes "worker_step i x = Some y" "i < n" "length (ex_queues x) = n \<and> length (ex_workers x) = n"
    and "task_waits l i (ex_queues x ! i) (ex_workers x ! i)" "ex_running x" "\<not> in_run x i"
  shows "ex_running y \<and> ex_index y = ex_index x \<and> length (ex_queues y) = n \<and>
    task_waits l i (ex_queues y ! i) (ex_workers y ! i) \<and>
    (\<forall>j. j \<noteq> i \<longrightarrow> ex_queues y ! j = ex_queues x ! j \<and> ex_workers y ! j = ex_workers x ! j)"
proof (cases "ex_workers x ! i")
  case AtPop
  show ?thesis
  proof (cases "i < l")
    case True
    then have "y = set_worker i (Running i) (set_queue i ((ex_queues x ! i)\<lparr>wq_tasks := []\<rparr>) x)"
      using AtPop assms by (simp add: worker_step_def task_waits_def wq_ready_def wq_take_def)
    then show ?thesis using assms True by (simp add: task_waits_def set_queue_def set_worker_def)
  next
    case False
    then have "y = set_worker i Blocking (set_queue i ((ex_queues x ! i)\<lparr>wq_lock := Some i\<rparr>) x)"
      using AtPop assms by (simp add: worker_step_def task_waits_def wq_ready_def)
    then show ?thesis using assms False AtPop by (simp add: task_waits_def set_queue_def set_worker_def)
  qed
qed (use assms in \<open>auto simp: worker_step_def task_waits_def in_run_def Let_def set_queue_def set_worker_def
      split: if_splits\<close>)

lemma fed_step:
  assumes "loop_fed api l s" "loop_inv s" "loop_step api i s = Some t"
  shows "loop_fed api l t"
proof -
  let ?x = "el_executor s"
  have nr: "\<not> in_run ?x i" and e: "\<exists>y. worker_step i ?x = Some y \<and> t = with_executor y s"
    using assms(1,3) by (auto simp: loop_step_def loop_fed_def executor_event_def split: if_splits)
  obtain y where y: "worker_step i ?x = Some y" "t = with_executor y s" using e by blast
  have len: "length (ex_queues ?x) = executorCount" "length (ex_workers ?x) = executorCount"
    using assms(1,2) by (simp_all add: loop_fed_def loop_inv_def)
  then have i: "i < executorCount" using y(1) by (auto simp: worker_step_def split: if_splits)
  have w: "task_waits l i (ex_queues ?x ! i) (ex_workers ?x ! i)" and r: "ex_running ?x"
    using assms(1) i by (simp_all add: loop_fed_def)
  have "ex_running y \<and> ex_index y = ex_index ?x \<and> length (ex_queues y) = executorCount \<and>
      task_waits l i (ex_queues y ! i) (ex_workers y ! i) \<and>
      (\<forall>j. j \<noteq> i \<longrightarrow> ex_queues y ! j = ex_queues ?x ! j \<and> ex_workers y ! j = ex_workers ?x ! j)"
    by (rule worker_step_waits [OF y(1) _ _ w r nr]) (simp_all add: len i)
  then have "\<forall>j < executorCount. task_waits l j (ex_queues y ! j) (ex_workers y ! j)"
    and "ex_running y" "ex_index y = ex_index ?x" "length (ex_queues y) = executorCount"
    using assms(1) by (auto simp: loop_fed_def)
  then show ?thesis using assms(1) by (auto simp: loop_fed_def y(2) with_executor_def split: option.splits)
qed

lemma fed_event:
  assumes "asio_documented api" "loop_fed api l s" "loop_inv s" "loop_event api strict e s = Some t"
    and "ex_running (el_executor t) \<and> \<not> el_stopping t" "\<forall>i. e \<noteq> ElThrow i"
  shows "\<exists>k. loop_fed api k t"
proof (cases e)
  case ElLoad
  then show ?thesis using fed_load assms by (auto simp: loop_event_def)
next
  case (ElStep i)
  then have "loop_step api i s = Some t" using assms(4) by (simp add: loop_event_def)
  then show ?thesis using fed_step [OF assms(2,3)] by blast
next
  case (ElBegin i)
  then obtain h c where h: "ap_next api (el_asio s) = Some (h, c)" "t = s\<lparr>el_asio := c, el_busy := (el_busy s)[i := Some h]\<rparr>"
    using assms(4) by (auto simp: loop_defs split: if_splits)
  have "\<not> ap_stopped api c"
    using assms(1) h(1) by (auto simp: asio_documented_def dest!: spec [of _ "el_asio s"] split: option.splits)
  then have "loop_fed api l t" using assms(2) by (auto simp: loop_fed_def h(2) split: option.splits)
  then show ?thesis by blast
next
  case (ElSpurious i)
  have len: "length (ex_queues (el_executor s)) = executorCount" "length (ex_workers (el_executor s)) = executorCount"
    using assms(2,3) by (simp_all add: loop_fed_def loop_inv_def)
  let ?q = "(ex_queues (el_executor s) ! i)\<lparr>wq_waiters := filter (\<lambda>j. j \<noteq> i) (wq_waiters (ex_queues (el_executor s) ! i))\<rparr>"
  have i: "i < executorCount" "ex_workers (el_executor s) ! i = Waiting"
    and q: "ex_queues (el_executor t) = (ex_queues (el_executor s))[i := ?q]"
    and w: "ex_workers (el_executor t) = (ex_workers (el_executor s))[i := AtPop]"
    using assms(4) len ElSpurious
    by (auto simp: loop_event_def with_executor_def executor_event_def set_worker_def set_queue_def split: if_splits)
  have fed: "task_waits l j (ex_queues (el_executor s) ! j) (ex_workers (el_executor s) ! j)" if "j < executorCount" for j
    using assms(2) that by (simp add: loop_fed_def)
  have "task_waits l j (ex_queues (el_executor t) ! j) (ex_workers (el_executor t) ! j)" if "j < executorCount" for j
    using fed [OF that] i len by (cases "j = i") (simp_all add: q w task_waits_def)
  then have "loop_fed api l t" using assms(2,4) ElSpurious
    by (auto simp: loop_fed_def loop_event_def with_executor_def executor_event_def set_worker_def set_queue_def
        split: if_splits option.splits)
  then show ?thesis by blast
next
  case ElRun
  then show ?thesis using assms(2,4)
    by (cases "io_running (el_io s)") (auto simp: loop_fed_def loop_event_def loop_run_def split: if_splits intro: exI [of _ l])
next
  case (ElStop b)
  then have "loop_fed api l t" using assms(2,4,5)
    by (auto simp: loop_fed_def loop_event_def loop_stop_def split: if_splits option.splits)
  then show ?thesis by blast
next
  case (ElDispatch b h)
  then have "loop_fed api l t" using assms(1,2,4)
    by (cases b) (auto simp: loop_fed_def loop_event_def loop_dispatch_def asio_documented_def split: option.splits if_splits)
  then show ?thesis by blast
next
  case (ElPost h)
  then have "loop_fed api l t" using assms(1,2,4) by (auto simp: loop_fed_def loop_event_def asio_documented_def split: option.splits)
  then show ?thesis by blast
next
  case (ElEnd i)
  then have "loop_fed api l t" using assms(2,4) by (auto simp: loop_fed_def loop_event_def handler_ends_def split: if_splits option.splits)
  then show ?thesis by blast
qed (use assms(2-4,6) in \<open>auto simp: loop_fed_def loop_inv_def loop_event_def loop_stop_executor_def loop_stopper_def loop_stop_end_def\<close>)

lemma fed_run:
  assumes "asio_documented api" "\<not> ap_stopped api c"
    and "run_opt (loop_event api strict) es (loop_new c) = Some s" "ex_running (el_executor s) \<and> \<not> el_stopping s"
    and "\<forall>e \<in> set es. \<forall>i. e \<noteq> ElThrow i"
  shows "\<exists>l. loop_fed api l s"
proof -
  let ?P = "\<lambda>s. loop_inv s \<and> (ex_running (el_executor s) \<and> \<not> el_stopping s \<longrightarrow> (\<exists>l. loop_fed api l s))"
  have "?P t" if "?P r" and e: "loop_event api strict e r = Some t" and q: "\<forall>i. e \<noteq> ElThrow i" for r t e
  proof -
    have inv: "loop_inv r" using that(1) by blast
    have "\<exists>l. loop_fed api l t" if run: "ex_running (el_executor t) \<and> \<not> el_stopping t"
    proof -
      have r: "ex_running (el_executor r)"
        using loop_executor [OF e] executor_event_running run by auto
      have "\<not> el_stopping r"
        using e run r inv
        by (cases e) (auto simp: loop_defs loop_inv_def split: if_splits option.splits)
      with r have "ex_running (el_executor r) \<and> \<not> el_stopping r" by blast
      then obtain l where "loop_fed api l r" using \<open>?P r\<close> by blast
      from fed_event [OF assms(1) this inv e run q] show ?thesis .
    qed
    then show ?thesis using loop_inv_event [OF inv e] by blast
  qed
  note step = this
  have init: "?P (loop_new c)" using loop_inv_new [of c] loop_fed_new [OF assms(2)] by auto
  have "?P s"
  proof (rule run_opt_inv [of ?P "\<lambda>e. \<forall>i. e \<noteq> ElThrow i", OF _ init assms(5) assms(3)])
    show "?P t" if "?P r" "\<forall>i. e \<noteq> ElThrow i" "loop_event api strict e r = Some t" for e r t
      using step [OF that(1,3,2)] .
  qed
  then show ?thesis using assms(4) by blast
qed

lemma fed_worker_arrives:
  assumes "loop_fed api executorCount s" "loop_inv s" "i < executorCount"
  shows "\<exists>k\<le>2. \<exists>t. run_opt (loop_event api strict) (replicate k (ElStep i)) s = Some t \<and>
    in_run (el_executor t) i \<and> el_busy t = el_busy s \<and> el_asio t = el_asio s"
proof -
  let ?x = "el_executor s"
  have len: "length (ex_queues ?x) = executorCount" "length (ex_workers ?x) = executorCount"
    using assms(1,2) by (simp_all add: loop_fed_def loop_inv_def)
  have r: "ex_running ?x" and w: "task_waits executorCount i (ex_queues ?x ! i) (ex_workers ?x ! i)"
    using assms(1,3) by (simp_all add: loop_fed_def)
  have q: "quiet i (ex_queues ?x ! i) (ex_workers ?x ! i)"
    using assms(2,3) len by (simp add: loop_inv_def executor_inv_def all_quiet_def)
  note facts = len r assms(3)
  have pop: "\<exists>t. loop_event api strict (ElStep i) u = Some t \<and> in_run (el_executor t) i \<and>
      el_busy t = el_busy u \<and> el_asio t = el_asio u"
    if "ex_workers (el_executor u) ! i = AtPop" "wq_tasks (ex_queues (el_executor u) ! i) = [i]"
      "length (ex_workers (el_executor u)) = executorCount" for u
    using that assms(3)
    by (simp add: loop_event_def loop_step_def in_run_def executor_event_def worker_step_def wq_ready_def wq_take_def
        with_executor_def set_worker_def set_queue_def)
  have step: "\<exists>t. loop_event api strict (ElStep i) s = Some t \<and> ex_workers (el_executor t) ! i = AtPop \<and>
      wq_tasks (ex_queues (el_executor t) ! i) = [i] \<and> length (ex_workers (el_executor t)) = executorCount \<and>
      el_busy t = el_busy s \<and> el_asio t = el_asio s"
    if "ex_workers ?x ! i = AtTest \<or> ex_workers ?x ! i = Waiting"
    using that facts w q
    by (auto simp: loop_event_def loop_step_def in_run_def executor_event_def worker_step_def task_waits_def quiet_def
        with_executor_def set_worker_def set_queue_def)
  consider "in_run ?x i" | "ex_workers ?x ! i = AtPop" "wq_tasks (ex_queues ?x ! i) = [i]"
    | "ex_workers ?x ! i = AtTest \<or> ex_workers ?x ! i = Waiting"
    using w q assms(3) len by (cases "ex_workers ?x ! i") (auto simp: task_waits_def quiet_def in_run_def)
  then show ?thesis
  proof cases
    case 1
    then show ?thesis by (intro exI [of _ 0] conjI exI [of _ s]) simp_all
  next
    case 2
    from pop [OF 2 len(2)] obtain t where "loop_event api strict (ElStep i) s = Some t" "in_run (el_executor t) i"
      "el_busy t = el_busy s" "el_asio t = el_asio s" by blast
    then show ?thesis by (intro exI [of _ 1] conjI exI [of _ t]) simp_all
  next
    case 3
    from step [OF 3] obtain u where u: "loop_event api strict (ElStep i) s = Some u"
      "ex_workers (el_executor u) ! i = AtPop" "wq_tasks (ex_queues (el_executor u) ! i) = [i]"
      "length (ex_workers (el_executor u)) = executorCount" "el_busy u = el_busy s" "el_asio u = el_asio s" by blast
    from pop [OF u(2-4)] obtain t where "loop_event api strict (ElStep i) u = Some t" "in_run (el_executor t) i"
      "el_busy t = el_busy u" "el_asio t = el_asio u" by blast
    with u show ?thesis by (intro exI [of _ 2] conjI exI [of _ t]) (simp_all add: numeral_2_eq_2)
  qed
qed

section \<open>Threads lost to exceptions\<close>

fun throws :: "'h loop_event list \<Rightarrow> nat" where
  "throws [] = 0"
| "throws (ElThrow _ # es) = Suc (throws es)"
| "throws (_ # es) = throws es"

lemma throws_append: "throws (es @ fs) = throws es + throws fs"
  by (induction es rule: throws.induct) auto

definition serving :: "'f executor \<Rightarrow> nat list" where
  "serving x = filter (in_run x) [0..<length (ex_workers x)]"

lemma size_held: "size (held x) = length (serving x)"
proof -
  have "size (in_hand w) = (if (case w of Running _ \<Rightarrow> True | RunningStolen _ \<Rightarrow> True | _ \<Rightarrow> False) then 1 else 0)" for w
    by (cases w) auto
  note hand = this
  have "size (sum_list (map in_hand ws)) =
      length (filter (\<lambda>w. case w of Running _ \<Rightarrow> True | RunningStolen _ \<Rightarrow> True | _ \<Rightarrow> False) ws)" for ws :: "'a worker list"
    by (induction ws) (simp_all add: hand)
  moreover have "map (\<lambda>i. ex_workers x ! i) (serving x) =
      filter (\<lambda>w. case w of Running _ \<Rightarrow> True | RunningStolen _ \<Rightarrow> True | _ \<Rightarrow> False) (ex_workers x)"
    by (subst (3) map_nth [symmetric]) (auto simp: serving_def filter_map in_run_def o_def intro!: arg_cong [of _ _ "map _"] filter_cong)
  ultimately show ?thesis by (metis held_def length_map)
qed

lemma executed_grows:
  assumes "executor_event e x = Some y"
  shows "length (ex_executed x) \<le> length (ex_executed y)"
  using assms
  by (cases e)
    (auto simp: executor_event_def executor_load_def executor_stop_def executor_stopper_def worker_step_def Let_def
      set_worker_def set_queue_def split: if_splits stop_phase.splits option.splits sum.splits worker.splits prod.splits)

lemma task_ends_executed:
  "in_run x i \<Longrightarrow> executor_event (Step i) x = Some y \<Longrightarrow> length (ex_executed y) = Suc (length (ex_executed x))"
  by (auto simp: in_run_def executor_event_def worker_step_def set_worker_def split: worker.splits)

text \<open>Before the end of the first \<open>stop\<close>, the number of loaded tasks is at most four, and each throw has ended one.\<close>

definition loads_bounded :: "nat \<Rightarrow> ('c, 'h) event_loop \<Rightarrow> bool" where
  "loads_bounded n s \<longleftrightarrow> n \<le> length (ex_executed (el_executor s)) \<and> size (total (el_executor s)) \<le> executorCount \<and>
     (case el_loading s of
        Some k \<Rightarrow> size (total (el_executor s)) = k \<and> io_running (el_io s)
      | None \<Rightarrow> \<not> io_running (el_io s) \<longrightarrow> total (el_executor s) = {#})"

definition thrown_inv :: "nat \<Rightarrow> ('c, 'h) event_loop \<Rightarrow> bool" where
  "thrown_inv n s \<longleftrightarrow> loop_inv s \<and> n \<le> executorCount \<and>
     ((\<exists>ts. finished ts (el_executor s)) \<or> loads_bounded n s)"

lemma thrown_new: "thrown_inv 0 (loop_new c)"
  by (simp add: thrown_inv_def loop_inv_new loads_bounded_def) (simp add: loop_new_def io_new_def executor_new_total)

lemma loop_event_shaped: "loop_inv s \<Longrightarrow> shaped (el_executor s)"
  by (simp add: loop_inv_def executor_inv_def)

lemma loads_bounded_event:
  assumes "loop_inv s" "loads_bounded n s" "loop_event api strict e s = Some t" "\<not> (\<exists>ts. finished ts (el_executor t))"
  shows "loads_bounded (n + throws [e]) t"
proof (cases e)
  case (ElThrow i)
  then obtain x where x: "executor_event (Step i) (el_executor s) = Some x" "el_executor t = x"
      "el_loading t = el_loading s" "io_running (el_io t) = io_running (el_io s)" "i < length (el_busy s)" "el_busy s ! i \<noteq> None"
    using assms(3) by (auto simp: loop_defs split: if_splits option.splits)
  have "in_run (el_executor s) i" using x(5,6) assms(1) by (simp add: loop_inv_def)
  from task_ends_executed [OF this x(1)] executor_event_total [OF loop_event_shaped [OF assms(1)] x(1)]
  show ?thesis using assms(2) ElThrow x(2-4) by (auto simp: loads_bounded_def split: option.splits)
next
  case ElLoad
  show ?thesis
  proof (cases "t = s\<lparr>el_loading := None\<rparr>")
    case True
    then show ?thesis using assms(2,3) ElLoad
      by (auto simp: loads_bounded_def loop_event_def loop_load_def with_executor_def split: option.splits if_splits)
  next
    case False
    then obtain k x where x: "executor_event (Load k) (el_executor s) = Some x" "t = (with_executor x s)\<lparr>el_loading := Some (Suc k)\<rparr>"
      "el_loading s = Some k" "k < executorCount"
      using assms(3) ElLoad by (auto simp: loop_event_def loop_load_def split: option.splits if_splits)
    then show ?thesis
      using executor_event_total [OF loop_event_shaped [OF assms(1)] x(1)] executed_grows [OF x(1)] assms(2) ElLoad
      by (auto simp: loads_bounded_def with_executor_def)
  qed
next
  case ElRun
  then show ?thesis using assms(2,3) by (auto simp: loads_bounded_def loop_event_def loop_run_def split: if_splits)
next
  case ElStopExecutor
  have "executor_event CallStop (el_executor s) = Some (executor_stop (el_executor s))"
    by (simp add: executor_event_def)
  from executor_event_total [OF loop_event_shaped [OF assms(1)] this] executed_grows [OF this]
  show ?thesis using assms(2,3) ElStopExecutor
    by (auto simp: loads_bounded_def loop_event_def loop_stop_executor_def with_executor_def split: if_splits option.splits)
next
  case (ElStop b)
  then show ?thesis using assms(2,3)
    by (auto simp: loads_bounded_def loop_event_def loop_stop_def split: if_splits option.splits)
next
  case ElStopEnd
  then have "finished (ex_executed (el_executor t)) (el_executor t)"
    using assms(1,3) by (auto simp: loop_event_def loop_stop_end_def io_stop_end_def finished_def loop_inv_def split: if_splits)
  then show ?thesis using assms(4) by blast
next
  case (ElStep i)
  then obtain x where x: "executor_event (Step i) (el_executor s) = Some x" "t = with_executor x s"
    using assms(3) by (auto simp: loop_event_def loop_step_def split: if_splits)
  from executor_event_total [OF loop_event_shaped [OF assms(1)] x(1)] executed_grows [OF x(1)]
  show ?thesis using assms(2) ElStep by (auto simp: loads_bounded_def x(2) with_executor_def split: option.splits)
next
  case (ElSpurious i)
  then obtain x where x: "executor_event (Spurious i) (el_executor s) = Some x" "t = with_executor x s"
    using assms(3) by (auto simp: loop_event_def)
  from executor_event_total [OF loop_event_shaped [OF assms(1)] x(1)] executed_grows [OF x(1)]
  show ?thesis using assms(2) ElSpurious by (auto simp: loads_bounded_def x(2) with_executor_def split: option.splits)
next
  case ElStopper
  then obtain x where x: "executor_event Stopper (el_executor s) = Some x" "t = with_executor x s"
    using assms(3) by (auto simp: loop_event_def loop_stopper_def split: if_splits)
  from executor_event_total [OF loop_event_shaped [OF assms(1)] x(1)] executed_grows [OF x(1)]
  show ?thesis using assms(2) ElStopper by (auto simp: loads_bounded_def x(2) with_executor_def split: option.splits)
qed (use assms(2,3) in \<open>auto simp: loads_bounded_def loop_event_def handler_begins_def handler_ends_def loop_dispatch_def
      split: if_splits option.splits\<close>)

lemma total_executed: "length (ex_executed x) + length (serving x) \<le> size (total x)"
  by (simp add: total_def size_held)

lemma thrown_event:
  assumes "thrown_inv n s" "loop_event api strict e s = Some t"
  shows "thrown_inv (n + throws [e]) t"
proof -
  have inv: "loop_inv s" using assms(1) by (simp add: thrown_inv_def)
  have inv': "loop_inv t" by (rule loop_inv_event [OF inv assms(2)])
  show ?thesis
  proof (cases "\<exists>ts. finished ts (el_executor s)")
    case True
    then have over: "loop_over (el_done s) s" using inv by (simp add: loop_over_def)
    have "throws [e] = 0"
      using assms(2) loop_over_idle [OF over] by (cases e) (auto simp: loop_defs split: if_splits option.splits)
    then show ?thesis
      using True loop_finished_event [OF assms(2)] assms(1) inv' by (auto simp: thrown_inv_def)
  next
    case False
    then have b: "loads_bounded n s" using assms(1) by (simp add: thrown_inv_def)
    show ?thesis
    proof (cases "\<exists>ts. finished ts (el_executor t)")
      case fin: True
      have "throws [e] = 0 \<or> (\<exists>i. e = ElThrow i)" by (cases e) auto
      then have "n + throws [e] \<le> executorCount"
      proof
        assume "throws [e] = 0"
        then show ?thesis using assms(1) by (simp add: thrown_inv_def)
      next
        assume "\<exists>i. e = ElThrow i"
        then obtain i where "e = ElThrow i" by blast
        then have i: "i < executorCount" "el_busy s ! i \<noteq> None" "throws [e] = 1"
          using assms(2) inv by (auto simp: loop_defs loop_inv_def split: if_splits option.splits)
        then have "in_run (el_executor s) i" using inv by (simp add: loop_inv_def)
        then have "i \<in> set (serving (el_executor s))" by (simp add: serving_def) (simp add: in_run_def)
        then have "0 < length (serving (el_executor s))" by (cases "serving (el_executor s)") auto
        then show ?thesis using total_executed [of "el_executor s"] b i(3) unfolding loads_bounded_def by linarith
      qed
      then show ?thesis using fin inv' by (simp add: thrown_inv_def)
    next
      case False
      from loads_bounded_event [OF inv b assms(2) False] have l: "loads_bounded (n + throws [e]) t" .
      then have "n + throws [e] \<le> executorCount"
        using total_executed [of "el_executor t"] by (simp add: loads_bounded_def)
      then show ?thesis using l inv' by (simp add: thrown_inv_def)
    qed
  qed
qed

lemma throws_Cons: "throws (e # es) = throws [e] + throws es"
  by (cases e) auto

lemma thrown_run:
  "thrown_inv n s \<Longrightarrow> run_opt (loop_event api strict) es s = Some t \<Longrightarrow> thrown_inv (n + throws es) t"
proof (induction es arbitrary: n s)
  case (Cons e es)
  then obtain u where u: "loop_event api strict e s = Some u" "run_opt (loop_event api strict) es u = Some t"
    by (auto split: option.splits)
  from Cons.IH [OF thrown_event [OF Cons.prems(1) u(1)] u(2)] show ?case by (subst throws_Cons) (simp add: add.assoc)
qed simp

lemma thrown_serving:
  assumes "thrown_inv n s"
  shows "n + length (serving (el_executor s)) \<le> executorCount"
proof (cases "\<exists>ts. finished ts (el_executor s)")
  case True
  then have "\<not> in_run (el_executor s) i" for i using finished_not_in_run by blast
  then have "serving (el_executor s) = []" by (simp add: serving_def)
  then show ?thesis using assms by (simp add: thrown_inv_def)
next
  case False
  then show ?thesis using assms total_executed [of "el_executor s"] by (simp add: thrown_inv_def loads_bounded_def)
qed

text \<open>A queue as a context, for the examples: whether it is stopped, and the handlers in the order posted.\<close>

definition queue_asio :: "(bool \<times> nat list, nat) asio_api" where
  "queue_asio = \<lparr>ap_post = \<lambda>h (b, hs). (b, hs @ [h]),
     ap_next = \<lambda>(b, hs). if b then None else case hs of [] \<Rightarrow> None | h # hs \<Rightarrow> Some (h, (b, hs)),
     ap_stop = \<lambda>(b, hs). (True, hs), ap_restart = \<lambda>(b, hs). (False, hs), ap_pending = snd, ap_stopped = fst\<rparr>"

lemma queue_asio_documented: "asio_documented queue_asio"
  by (auto simp: asio_documented_def queue_asio_def split: list.splits)

definition start_up :: "nat loop_event list" where
  "start_up = [ElRun, ElLoad, ElLoad, ElLoad, ElLoad, ElLoad, ElPost 7]"

lemma replicate_4: "replicate 4 x = [x, x, x, x]"
  by (simp add: numeral_eq_Suc)

lemmas loop_eval = queue_asio_def loop_defs in_run_def executorCount_eq executor_defs wq_defs Let_def
  io_stop_begin_def io_stop_end_def slot_4

definition started :: "(bool \<times> nat list, nat) event_loop" where
  "started =
     \<lparr>el_io = \<lparr>io_running = True, io_guard = True, io_stopped = False,
        io_executor = \<lparr>ex_running = True, ex_index = 4,
          ex_queues = map (\<lambda>i. \<lparr>wq_tasks = [i], wq_lock = None, wq_waiters = []\<rparr>) [0, 1, 2, 3],
          ex_workers = [AtTest, AtTest, AtTest, AtTest], ex_stop = NotStopping, ex_executed = []\<rparr>\<rparr>,
      el_asio = (False, [7]), el_loading = None, el_busy = [None, None, None, None], el_done = [],
      el_stopping = False, el_stop_by = None, el_waits = False\<rparr>"

lemma start_up_run: "run_opt (loop_event queue_asio True) start_up (loop_new (False, [])) = Some started"
  by (simp add: loop_eval start_up_def started_def loop_new_def io_new_def executor_new_4 replicate_4)

section \<open>Properties\<close>

text \<open>
  C16. Once \<open>run\<close> has loaded its tasks, until the first \<open>stop\<close>, and if no handler throws, every one of the four threads serves: whatever has
  happened, a worker is inside \<open>io_context::run()\<close> after at most two steps of its own, and if it is not executing a
  handler then it can begin one whenever a handler is pending.
\<close>

theorem loop_serves_on_every_thread:
  assumes "asio_documented api" "\<not> ap_stopped api c"
    and "run_opt (loop_event api strict) es (loop_new c) = Some s"
    and "io_running (el_io s)" "el_loading s = None" "ex_running (el_executor s) \<and> \<not> el_stopping s"
    and "i < executorCount"
    and "\<forall>e \<in> set es. \<forall>j. e \<noteq> ElThrow j"
  shows "\<exists>k\<le>2. \<exists>t. run_opt (loop_event api strict) (replicate k (ElStep i)) s = Some t \<and> in_run (el_executor t) i \<and>
    (el_busy s ! i = None \<and> ap_pending api (el_asio s) \<noteq> [] \<longrightarrow> (\<exists>u. loop_event api strict (ElBegin i) t = Some u))"
proof -
  obtain l where l: "loop_fed api l s" using fed_run [OF assms(1,2,3,6,8)] by blast
  then have "l = executorCount" "\<not> ap_stopped api (el_asio s)"
    using assms(4,5) by (simp_all add: loop_fed_def)
  moreover have "ap_next api (el_asio s) \<noteq> None" if "ap_pending api (el_asio s) \<noteq> []" "\<not> ap_stopped api (el_asio s)"
    using assms(1) that by (auto simp: asio_documented_def dest!: spec [of _ "el_asio s"] split: option.splits)
  ultimately show ?thesis
    using fed_worker_arrives [of api s i strict] l loop_run_inv [OF assms(3)] assms(7)
    by (fastforce simp: loop_event_def handler_begins_def)
qed

theorem loop_serves_on_every_thread_witness:
  "\<exists>s t u k. run_opt (loop_event queue_asio True) start_up (loop_new (False, [])) = Some s \<and> k \<le> (2 :: nat) \<and>
     run_opt (loop_event queue_asio True) (replicate k (ElStep 3)) s = Some t \<and> in_run (el_executor t) 3 \<and>
     loop_event queue_asio True (ElBegin 3) t = Some u"
proof -
  obtain s where s: "run_opt (loop_event queue_asio True) start_up (loop_new (False, [])) = Some s"
    "io_running (el_io s)" "el_loading s = None" "ex_running (el_executor s) \<and> \<not> el_stopping s" "el_busy s ! 3 = None"
    "ap_pending queue_asio (el_asio s) = [7]"
    by (simp add: start_up_run) (simp add: started_def queue_asio_def)
  from loop_serves_on_every_thread [OF queue_asio_documented _ s(1-4), of 3] s
  show ?thesis by (fastforce simp: queue_asio_def executorCount_eq start_up_def)
qed



text \<open>
  C19. A stopped \<open>IOContext\<close> stays dead: after \<open>stop\<close> has returned, \<open>run\<close> may be called again and handlers may be posted,
  but no handler is ever executed again; every one posted from then on stays pending.
\<close>

theorem loop_stop_is_final:
  assumes "asio_documented api" "run_opt (loop_event api strict) es (loop_new c) = Some s"
    and "loop_stop_end api s = Some t" "run_opt (loop_event api strict) fs t = Some u"
  shows "el_busy u = replicate executorCount None \<and> el_done u = el_done s \<and>
    mset (ap_pending api (el_asio u)) = mset (ap_pending api (el_asio s)) + mset (posted fs)"
proof -
  have t: "loop_over (el_done s) t" by (rule loop_stop_end_over [OF loop_run_inv [OF assms(2)] assms(3)])
  have u: "loop_over (el_done s) u" by (rule loop_over_run [OF assms(4) t])
  have d: "el_done u = el_done s" using u by (simp add: loop_over_def)
  have "el_asio t = ap_restart api (el_asio s)" using assms(3) by (auto simp: loop_stop_end_def split: if_splits)
  then have pending: "ap_pending api (el_asio t) = ap_pending api (el_asio s)"
    using assms(1) by (simp add: asio_documented_def)
  have "mset (ap_pending api (el_asio u)) = mset (ap_pending api (el_asio s)) + mset (posted fs)"
    using loop_run_handlers [OF assms(1) _ assms(4)] t u loop_over_idle [OF t] loop_over_idle [OF u] pending
    by (simp add: loop_handlers_def loop_over_def)
  then show ?thesis using loop_over_idle [OF u] d by simp
qed

theorem loop_stop_is_final_witness:
  "\<exists>s t u. loop_stop_end queue_asio s = Some t \<and>
     run_opt (loop_event queue_asio True) start_up t = Some u \<and>
     el_busy u = replicate executorCount None \<and> el_done u = [] \<and> mset (ap_pending queue_asio (el_asio u)) = {#7, 7#}"
proof -
  let ?stop = "[ElStop None, ElStopExecutor, ElStopper, ElStep 0, ElStopper, ElStopper, ElStep 1, ElStopper, ElStopper, ElStep 2, ElStopper,
    ElStopper, ElStep 3, ElStopper, ElStopper]"
  obtain s t u where s: "run_opt (loop_event queue_asio True) (start_up @ ?stop) (loop_new (False, [])) = Some s"
    "loop_stop_end queue_asio s = Some t" "run_opt (loop_event queue_asio True) start_up t = Some u"
    "el_done s = []" "ap_pending queue_asio (el_asio s) = [7]"
    by (simp add: run_opt_append start_up_run) (simp add: started_def start_up_def loop_eval)
  from loop_stop_is_final [OF queue_asio_documented s(1-3)] s show ?thesis by (auto simp: start_up_def)
qed

text \<open>
  C20. \<open>stop\<close> called by a handler never returns: it waits for the worker that executes that handler, so whatever happens
  afterwards the handler does not end and the context stays half stopped.
\<close>

theorem loop_stop_in_handler_never_returns:
  assumes "run_opt (loop_event api strict) es (loop_new c) = Some s" "io_running (el_io s)"
    and "loop_event api strict (ElStop (Some i)) s = Some t" "run_opt (loop_event api strict) fs t = Some u"
  shows "el_stopping u \<and> loop_stop_end api u = None \<and> handler_ends i u = None \<and> el_busy u ! i \<noteq> None"
proof -
  have "stop_in_handler i t"
    using assms(2,3) loop_inv_event [OF loop_run_inv [OF assms(1)] assms(3)]
    by (auto simp: stop_in_handler_def loop_event_def loop_stop_def split: if_splits)
  from stop_in_handler_run [OF assms(4) this] have u: "stop_in_handler i u" .
  then show ?thesis
    using stop_in_handler_not_done [OF u] by (simp add: stop_in_handler_def loop_stop_end_def io_stop_end_def handler_ends_def)
qed

theorem loop_stop_in_handler_never_returns_witness:
  "\<exists>s t u. loop_event queue_asio True (ElStop (Some 0)) s = Some t \<and>
     run_opt (loop_event queue_asio True) [ElStopExecutor, ElStopper, ElPost 9] t = Some u \<and>
     el_stopping u \<and> loop_stop_end queue_asio u = None \<and> handler_ends 0 u = None"
proof -
  obtain s t u where s: "run_opt (loop_event queue_asio True) (start_up @ [ElStep 0, ElStep 0, ElBegin 0]) (loop_new (False, [])) = Some s"
    "io_running (el_io s)" "loop_event queue_asio True (ElStop (Some 0)) s = Some t"
    "run_opt (loop_event queue_asio True) [ElStopExecutor, ElStopper, ElPost 9] t = Some u"
    by (simp add: run_opt_append start_up_run) (simp add: started_def loop_eval)
  from loop_stop_in_handler_never_returns [OF s] s show ?thesis by blast
qed

text \<open>
  C18. Every handler that throws costs the context one of its four threads for good: the number of threads inside
  \<open>run()\<close> and the number of exceptions so far are together at most four, and after four exceptions no thread ever takes a
  handler again.
\<close>

theorem loop_throw_loses_thread:
  assumes "run_opt (loop_event api strict) es (loop_new c) = Some s"
  shows "throws es + length (serving (el_executor s)) \<le> executorCount \<and>
    (throws es = executorCount \<longrightarrow> loop_event api strict (ElBegin i) s = None)"
proof -
  have le: "throws es + length (serving (el_executor s)) \<le> executorCount"
    using thrown_serving [OF thrown_run [OF thrown_new assms]] by simp
  have "\<not> in_run (el_executor s) i" if "serving (el_executor s) = []"
    using that by (auto simp: serving_def filter_empty_conv in_run_def)
  then show ?thesis using le by (auto simp: loop_event_def handler_begins_def)
qed

theorem loop_throw_loses_thread_witness:
  "\<exists>s. run_opt (loop_event queue_asio True)
       (start_up @ [ElPost 8, ElPost 9, ElPost 10, ElPost 11,
          ElStep 0, ElStep 0, ElBegin 0, ElThrow 0, ElStep 1, ElStep 1, ElBegin 1, ElThrow 1,
          ElStep 2, ElStep 2, ElBegin 2, ElThrow 2, ElStep 3, ElStep 3, ElBegin 3, ElThrow 3]) (loop_new (False, [])) = Some s \<and>
     ap_pending queue_asio (el_asio s) = [11] \<and> loop_event queue_asio True (ElBegin 0) s = None"
proof -
  let ?es = "start_up @ [ElPost 8, ElPost 9, ElPost 10, ElPost 11,
          ElStep 0, ElStep 0, ElBegin 0, ElThrow 0, ElStep 1, ElStep 1, ElBegin 1, ElThrow 1,
          ElStep 2, ElStep 2, ElBegin 2, ElThrow 2, ElStep 3, ElStep 3, ElBegin 3, ElThrow 3]"
  obtain s where s: "run_opt (loop_event queue_asio True) ?es (loop_new (False, [])) = Some s"
    "ap_pending queue_asio (el_asio s) = [11]"
    by (simp add: run_opt_append start_up_run) (simp add: started_def loop_eval)
  have "throws ?es = executorCount" by (simp add: start_up_def executorCount_eq)
  with loop_throw_loses_thread [OF s(1), of 0] s show ?thesis by blast
qed

end
