(* ===== verification/Thread.thy ===== *)
theory Thread
  imports Errors
begin

text \<open>
  \<open>ThreadDetail\<close> of \<open>src/threading/Thread.cpp\<close>. Two parties act on one object: the caller of \<open>start\<close>,
  \<open>join\<close>, \<open>detach\<close> and the setters, and the threads \<open>start\<close> creates. Each access the code makes
  without synchronisation is its own event, so the order of the two is free where the code leaves
  it free. Threads are numbered in order of creation; thread \<open>g\<close> was created together with promise \<open>g\<close>.
\<close>

section \<open>State\<close>

text \<open>
  Where a created thread is in the lambda of \<open>start\<close>: before \<open>_started.store(true)\<close>, before
  \<open>set_priority\<close>, before \<open>set_name\<close>, inside \<open>work()\<close> (the init promise is set), before
  \<open>_promise->set_value()\<close>, finished.
\<close>

datatype thread_phase = NotCreated | Entry | Started | Prioritised | Working | Stopped | Exited

text \<open>The caller: free, between creating the \<open>std::thread\<close> and assigning \<open>_thread\<close>, in \<open>initFuture.wait()\<close>.\<close>

datatype caller_phase = Free | Creating nat | AwaitInit nat

text \<open>
  \<open>td_handle\<close> is \<open>_thread\<close>: nothing, or a thread and whether it is joinable; \<open>td_promise\<close> the promise
  the member \<open>_promise\<close> points to, \<open>td_set\<close> the promises that have a value, \<open>td_fault\<close> what ended the
  process, if anything did. \<open>'p\<close> is the platform's \<open>Priority\<close>.
\<close>

record 'p thread_detail =
  td_handle :: "(nat \<times> bool) option"
  td_promise :: "nat option"
  td_priority :: 'p
  td_name :: string
  td_tid :: u64
  td_started :: bool
  td_phase :: "nat \<Rightarrow> thread_phase"
  td_next :: nat
  td_caller :: caller_phase
  td_set :: "nat list"
  td_fault :: "fault option"

text \<open>The platforms' \<open>Priority\<close>: a class of the scheduler, on Linux with a level.\<close>

datatype policy_windows = ABOVE_NORMAL | BELOW_NORMAL | HIGHEST | IDLE_WINDOWS | LOWEST | NORMAL | TIME_CRITICAL

datatype policy_linux = OTHER | FIFO | RR | BATCH | IDLE

type_synonym priority_linux = "policy_linux \<times> u8"

definition default_windows :: policy_windows where "default_windows = NORMAL"

definition default_linux :: priority_linux where "default_linux = (OTHER, 0)"

definition thread_create :: "'p \<Rightarrow> string \<Rightarrow> 'p thread_detail" where
  "thread_create dflt app_name = \<lparr>td_handle = None, td_promise = None, td_priority = dflt,
     td_name = app_name, td_tid = 0, td_started = False, td_phase = (\<lambda>_. NotCreated), td_next = 0,
     td_caller = Free, td_set = [], td_fault = None\<rparr>"

section \<open>Operations\<close>

definition joinable :: "'p thread_detail \<Rightarrow> bool" where
  "joinable t = (case td_handle t of None \<Rightarrow> False | Some (g, j) \<Rightarrow> j)"

text \<open>\<open>join\<close>: the result is \<open>None\<close> while it has to wait for the thread.\<close>

definition thread_join :: "'p thread_detail \<Rightarrow> 'p thread_detail option" where
  "thread_join t =
     (case td_handle t of
        Some (g, True) \<Rightarrow> (if td_phase t g = Exited then Some (t\<lparr>td_handle := Some (g, False)\<rparr>) else None)
      | _ \<Rightarrow> Some t)"

text \<open>\<open>start\<close> up to the construction of the \<open>std::thread\<close>; the rest are the caller events below.\<close>

definition thread_start :: "'p thread_detail \<Rightarrow> ('p thread_detail option) res" where
  "thread_start t =
     (if td_started t then Inl (Thrown (AlreadyRunningException []))
      else ok (case thread_join t of
        None \<Rightarrow> None
      | Some t1 \<Rightarrow>
          (let g = td_next t1
           in Some (t1\<lparr>td_promise := Some g, td_phase := (td_phase t1)(g := Entry), td_next := Suc g,
                     td_caller := Creating g\<rparr>))))"

definition thread_status :: "'p thread_detail \<Rightarrow> bool" where
  "thread_status t = td_started t"

definition thread_detach :: "'p thread_detail \<Rightarrow> 'p thread_detail res" where
  "thread_detach t =
     (case td_handle t of
        Some (g, True) \<Rightarrow> ok (t\<lparr>td_handle := Some (g, False)\<rparr>)
      | _ \<Rightarrow> Inl (Thrown (BadHandlingException ''invalid thread'')))"

text \<open>
  The test at the head of \<open>set_priority\<close> and \<open>set_name\<close>: \<open>_thread\<close> is dereferenced without a null
  check once the thread counts as started.
\<close>

definition handle_check :: "'p thread_detail \<Rightarrow> unit res" where
  "handle_check t =
     (if \<not> td_started t then ok ()
      else case td_handle t of
        None \<Rightarrow> Inl (UndefinedBehaviour ''_thread is null'')
      | Some (g, j) \<Rightarrow> (if j then ok () else Inl (Thrown (BadHandlingException ''invalid thread''))))"

text \<open>\<open>os_ok\<close> is the outcome of the system call that sets the priority.\<close>

definition thread_set_priority ::
  "'p \<Rightarrow> bool \<Rightarrow> 'p \<Rightarrow> 'p thread_detail \<Rightarrow> ('p thread_detail \<times> bool) res" where
  "thread_set_priority dflt os_ok priority t =
     bind_res (handle_check t) (\<lambda>_.
       ok (t\<lparr>td_priority := priority\<rparr>,
           if \<not> td_started t then True else if priority \<noteq> dflt then os_ok else True))"

definition thread_get_priority :: "'p thread_detail \<Rightarrow> 'p" where
  "thread_get_priority t = td_priority t"

definition thread_set_name :: "string \<Rightarrow> 'p thread_detail \<Rightarrow> 'p thread_detail res" where
  "thread_set_name name t = bind_res (handle_check t) (\<lambda>_. ok (t\<lparr>td_name := name\<rparr>))"

definition thread_get_name :: "'p thread_detail \<Rightarrow> string" where
  "thread_get_name t = td_name t"

definition thread_get_tid :: "'p thread_detail \<Rightarrow> u64" where
  "thread_get_tid t = td_tid t"

text \<open>The deleter of \<open>__create\<close> joins first; \<open>async\<close> runs the work in a detached thread, then sets its promise.\<close>

definition thread_delete :: "'p thread_detail \<Rightarrow> 'p thread_detail option" where
  "thread_delete t = thread_join t"

definition thread_async :: "'a res \<Rightarrow> unit res" where
  "thread_async work = (case work of Inl (UndefinedBehaviour w) \<Rightarrow> Inl (UndefinedBehaviour w) | Inl _ \<Rightarrow> Inl Terminated | Inr _ \<Rightarrow> ok ())"

section \<open>The created thread\<close>

text \<open>An exception that leaves the lambda ends the process.\<close>

definition thread_escape :: "fault \<Rightarrow> 'p thread_detail \<Rightarrow> 'p thread_detail" where
  "thread_escape f t =
     t\<lparr>td_fault := Some (case f of Thrown _ \<Rightarrow> Terminated | StdException _ \<Rightarrow> Terminated | _ \<Rightarrow> f)\<rparr>"

definition thread_phase_to :: "nat \<Rightarrow> thread_phase \<Rightarrow> 'p thread_detail \<Rightarrow> 'p thread_detail" where
  "thread_phase_to g ph t = t\<lparr>td_phase := (td_phase t)(g := ph)\<rparr>"

text \<open>
  One step of thread \<open>g\<close>; \<open>tid\<close> is its system thread id. In \<open>Working\<close> the step is the return of
  \<open>work()\<close>.
\<close>

definition thread_run :: "'p \<Rightarrow> u64 \<Rightarrow> nat \<Rightarrow> 'p thread_detail \<Rightarrow> 'p thread_detail option" where
  "thread_run dflt tid g t =
     (case td_phase t g of
        NotCreated \<Rightarrow> None
      | Entry \<Rightarrow> Some (thread_phase_to g Started (t\<lparr>td_started := True, td_tid := tid\<rparr>))
      | Started \<Rightarrow>
          (case thread_set_priority dflt True (td_priority t) t of
             Inl f \<Rightarrow> Some (thread_escape f t)
           | Inr (t1, _) \<Rightarrow> Some (thread_phase_to g Prioritised t1))
      | Prioritised \<Rightarrow>
          (case thread_set_name (td_name t) t of
             Inl f \<Rightarrow> Some (thread_escape f t)
           | Inr t1 \<Rightarrow> Some (thread_phase_to g Working t1))
      | Working \<Rightarrow> Some (thread_phase_to g Stopped (t\<lparr>td_started := False\<rparr>))
      | Stopped \<Rightarrow>
          (case td_promise t of
             None \<Rightarrow> Some (thread_escape (UndefinedBehaviour ''_promise is null'') t)
           | Some p \<Rightarrow>
               if p \<in> set (td_set t) then Some (thread_escape (StdException ''future_error'') t)
               else Some (thread_phase_to g Exited (t\<lparr>td_set := td_set t @ [p]\<rparr>)))
      | Exited \<Rightarrow> None)"

section \<open>Events\<close>

datatype thread_event =
    EvStart | EvAssign | EvInitDone | EvJoin | EvDetach | EvRename string | EvRun nat | EvThrow nat

text \<open>
  The effect of an event, \<open>None\<close> when it cannot happen (yet). Calls that throw leave the state as
  it is. After a fault nothing happens any more.
\<close>

definition thread_event :: "'p \<Rightarrow> thread_event \<Rightarrow> 'p thread_detail \<Rightarrow> 'p thread_detail option" where
  "thread_event dflt e t =
     (if td_fault t \<noteq> None then None
      else case e of
        EvStart \<Rightarrow> (if td_caller t \<noteq> Free then None
                    else case thread_start t of Inl _ \<Rightarrow> Some t | Inr r \<Rightarrow> r)
      | EvAssign \<Rightarrow> (case td_caller t of
                      Creating g \<Rightarrow> Some (t\<lparr>td_handle := Some (g, True), td_caller := AwaitInit g\<rparr>)
                    | _ \<Rightarrow> None)
      | EvInitDone \<Rightarrow> (case td_caller t of
                        AwaitInit g \<Rightarrow>
                          (if td_phase t g \<in> {Working, Stopped, Exited} then Some (t\<lparr>td_caller := Free\<rparr>)
                           else None)
                      | _ \<Rightarrow> None)
      | EvJoin \<Rightarrow> (if td_caller t \<noteq> Free then None else thread_join t)
      | EvDetach \<Rightarrow> (if td_caller t \<noteq> Free then None
                     else case thread_detach t of Inl _ \<Rightarrow> Some t | Inr u \<Rightarrow> Some u)
      | EvRename n \<Rightarrow> (if td_caller t \<noteq> Free then None
                     else case thread_set_name n t of
                       Inl (UndefinedBehaviour w) \<Rightarrow> Some (thread_escape (UndefinedBehaviour w) t)
                     | Inl _ \<Rightarrow> Some t
                     | Inr u \<Rightarrow> Some u)
      | EvRun g \<Rightarrow> thread_run dflt 1 g t
      | EvThrow g \<Rightarrow> (if td_phase t g = Working then Some (thread_escape (StdException ''work'') t) else None))"

lemmas thread_defs [op_defs] = thread_start_def thread_join_def thread_detach_def handle_check_def
  thread_set_priority_def thread_set_name_def thread_escape_def thread_phase_to_def thread_run_def
  thread_event_def

section \<open>The orderly schedule\<close>

text \<open>
  The caller gets to assign \<open>_thread\<close> before the new thread takes a step, nobody detaches, and the
  work does not throw.
\<close>

definition orderly :: "thread_event \<Rightarrow> 'p thread_detail \<Rightarrow> bool" where
  "orderly e t \<longleftrightarrow> (case e of
       EvDetach \<Rightarrow> False
     | EvThrow _ \<Rightarrow> False
     | EvRun g \<Rightarrow> td_caller t \<noteq> Creating g
     | _ \<Rightarrow> True)"

inductive orderly_step :: "'p \<Rightarrow> 'p thread_detail \<Rightarrow> 'p thread_detail \<Rightarrow> bool" for dflt where
  orderly_stepI: "orderly e t \<Longrightarrow> thread_event dflt e t = Some u \<Longrightarrow> orderly_step dflt t u"

inductive_cases orderly_stepE: "orderly_step dflt t u"

definition active_phase :: "thread_phase \<Rightarrow> bool" where
  "active_phase ph \<longleftrightarrow> ph \<in> {Started, Prioritised, Working}"

text \<open>
  What holds along an orderly schedule: the newest thread \<open>k\<close> is in some phase and every earlier one
  has exited; no fault; the handle and the promise belong to the newest thread, \<open>_started\<close> says
  whether it is active, and the promises with a value are those of the exited threads, each set
  once and in order.
\<close>

definition phases :: "nat \<Rightarrow> thread_phase \<Rightarrow> nat \<Rightarrow> thread_phase" where
  "phases k ph g = (if g < k then Exited else if g = k then ph else NotCreated)"

lemma phases_simps [simp]:
  "phases k ph k = ph"
  "(phases k ph)(k := ph') = phases k ph'"
  "(phases k Exited)(Suc k := ph') = phases (Suc k) ph'"
  by (auto simp: phases_def fun_eq_iff)

lemma phases_mid: "phases k ph g \<notin> {NotCreated, Exited} \<Longrightarrow> g = k"
  by (auto simp: phases_def split: if_splits)

definition thread_at :: "nat \<Rightarrow> thread_phase \<Rightarrow> 'p thread_detail \<Rightarrow> bool" where
  "thread_at k ph t \<longleftrightarrow>
     td_fault t = None \<and> td_next t = Suc k \<and> td_phase t = phases k ph \<and> ph \<noteq> NotCreated \<and>
     td_promise t = Some k \<and> td_started t = active_phase ph \<and>
     td_set t = [0..<(if ph = Exited then Suc k else k)] \<and>
     (case td_caller t of
        Free \<Rightarrow> ph \<in> {Working, Stopped, Exited} \<and>
          (td_handle t = Some (k, True) \<or> td_handle t = Some (k, False) \<and> ph = Exited)
      | Creating g \<Rightarrow> g = k \<and> ph = Entry
      | AwaitInit g \<Rightarrow> g = k \<and> td_handle t = Some (k, True))"

definition thread_fresh :: "'p thread_detail \<Rightarrow> bool" where
  "thread_fresh t \<longleftrightarrow>
     td_fault t = None \<and> td_next t = 0 \<and> td_phase t = (\<lambda>_. NotCreated) \<and> \<not> td_started t \<and>
     td_set t = [] \<and> td_caller t = Free \<and> td_handle t = None"

definition thread_inv :: "'p thread_detail \<Rightarrow> bool" where
  "thread_inv t \<longleftrightarrow> thread_fresh t \<or> (\<exists>k ph. thread_at k ph t)"

lemma thread_inv_create: "thread_inv (thread_create dflt n)"
  by (simp add: thread_inv_def thread_fresh_def thread_create_def)

lemma fresh_phases: "(\<lambda>_. NotCreated)(0 := ph) = phases 0 ph"
  by (auto simp: phases_def fun_eq_iff)

lemma thread_fresh_event:
  assumes "thread_fresh t" "thread_event dflt e t = Some u"
  shows "thread_inv u"
proof (cases e)
  case EvStart
  with assms have "thread_at 0 Entry u"
    by (auto simp: thread_fresh_def thread_defs thread_at_def Let_def active_phase_def fresh_phases)
  then show ?thesis by (auto simp: thread_inv_def)
qed (use assms in \<open>auto simp: thread_inv_def thread_fresh_def thread_defs\<close>)

lemma thread_at_run:
  assumes "thread_at k ph t" "td_caller t \<noteq> Creating g" "thread_run dflt tid g t = Some u"
  shows "thread_inv u"
proof -
  from assms(3) have ph: "td_phase t g \<notin> {NotCreated, Exited}"
    by (auto simp: thread_run_def)
  with assms(1) have g: "g = k" using phases_mid by (auto simp: thread_at_def)
  with assms(1) ph have mid: "ph \<notin> {NotCreated, Exited}" by (simp add: thread_at_def)
  from assms(1,2) g mid have h: "td_handle t = Some (k, True)"
    by (auto simp: thread_at_def split: caller_phase.splits)
  note at = assms(1)[unfolded thread_at_def]
  have "\<exists>ph'. thread_at k ph' u"
  proof (cases ph)
    case Entry
    then have "thread_at k Started u"
      using at assms(2,3) g h
      by (auto simp: thread_at_def thread_run_def thread_phase_to_def active_phase_def
          split: caller_phase.splits)
    then show ?thesis by blast
  next
    case Started
    then have "thread_at k Prioritised u"
      using at assms(2,3) g h
      by (auto simp: thread_at_def thread_run_def thread_phase_to_def active_phase_def
          thread_set_priority_def handle_check_def split: caller_phase.splits)
    then show ?thesis by blast
  next
    case Prioritised
    then have "thread_at k Working u"
      using at assms(2,3) g h
      by (auto simp: thread_at_def thread_run_def thread_phase_to_def active_phase_def
          thread_set_name_def handle_check_def split: caller_phase.splits)
    then show ?thesis by blast
  next
    case Working
    then have "thread_at k Stopped u"
      using at assms(2,3) g h
      by (auto simp: thread_at_def thread_run_def thread_phase_to_def active_phase_def
          split: caller_phase.splits)
    then show ?thesis by blast
  next
    case Stopped
    then have "thread_at k Exited u"
      using at assms(2,3) g h
      by (auto simp: thread_at_def thread_run_def thread_phase_to_def active_phase_def
          split: caller_phase.splits)
    then show ?thesis by blast
  qed (use mid in auto)
  then show ?thesis by (auto simp: thread_inv_def)
qed

lemma thread_at_event:
  assumes "thread_at k ph t" "orderly e t" "thread_event dflt e t = Some u"
  shows "thread_inv u"
proof (cases e)
  case EvStart
  then have "thread_at k ph u \<or> thread_at (Suc k) Entry u"
    using assms by (auto simp: thread_at_def thread_event_def thread_start_def thread_join_def Let_def
        active_phase_def split: if_splits option.splits)
  then show ?thesis by (auto simp: thread_inv_def)
next
  case EvAssign
  then have "thread_at k ph u"
    using assms by (auto simp: thread_at_def thread_event_def split: caller_phase.splits if_splits)
  then show ?thesis by (auto simp: thread_inv_def)
next
  case EvInitDone
  then have "thread_at k ph u"
    using assms by (auto simp: thread_at_def thread_event_def split: caller_phase.splits if_splits)
  then show ?thesis by (auto simp: thread_inv_def)
next
  case EvJoin
  then have "thread_at k ph u"
    using assms by (auto simp: thread_at_def thread_event_def thread_join_def split: if_splits)
  then show ?thesis by (auto simp: thread_inv_def)
next
  case (EvRename n)
  then have "thread_at k ph u"
    using assms by (auto simp: thread_at_def thread_event_def thread_set_name_def handle_check_def
        active_phase_def split: if_splits)
  then show ?thesis by (auto simp: thread_inv_def)
next
  case (EvRun g)
  then show ?thesis
    using assms thread_at_run [of k ph t g dflt 1 u] by (auto simp: orderly_def thread_event_def split: if_splits)
qed (use assms in \<open>auto simp: orderly_def\<close>)

interpretation td: stepping "\<lambda>t. \<exists>n. t = thread_create dflt n" "orderly_step dflt" thread_inv for dflt
proof unfold_locales
  show "thread_inv t" if "\<exists>n. t = thread_create dflt n" for t
    using that thread_inv_create by auto
  show "thread_inv u" if "thread_inv t" "orderly_step dflt t u" for t u
  proof -
    from that(2) obtain e where "orderly e t" "thread_event dflt e t = Some u" by (rule orderly_stepE)
    then show ?thesis
      using that(1) thread_fresh_event [of t dflt e u] thread_at_event [of _ _ t e dflt u]
      by (auto simp: thread_inv_def [of t])
  qed
qed

text \<open>The futures that are ready are those of the threads that have finished.\<close>

lemma thread_inv_set:
  assumes "thread_inv t"
  shows "g \<in> set (td_set t) \<longleftrightarrow> td_phase t g = Exited"
proof -
  from assms consider "thread_fresh t" | k ph where "thread_at k ph t" by (auto simp: thread_inv_def)
  then show ?thesis
  proof cases
    case 2
    then have "td_phase t = phases k ph" "td_set t = [0..<(if ph = Exited then Suc k else k)]"
      by (simp_all add: thread_at_def)
    then show ?thesis by (auto simp: phases_def less_Suc_eq)
  qed (simp add: thread_fresh_def)
qed

section \<open>Properties\<close>



definition first_start :: "thread_event list" where
  "first_start = [EvStart, EvAssign, EvRun 0, EvRun 0, EvRun 0, EvInitDone]"


end
