(* ===== verification/Runnable.thy ===== *)
theory Runnable
  imports Thread
begin

text \<open>
  \<open>Runnable\<close> and \<open>ActiveRunnable\<close> of \<open>threading/Runnable.hpp\<close>: a thread that calls \<open>__work()\<close> while
  \<open>_running\<close> holds, and one that calls it for each notification. The thread object is taken at the
  level its users see (a worker that has or has not exited, a deleter that joins); \<open>Thread\<close> models
  its inside. Calls and worker steps are events, free to interleave.
\<close>

section \<open>Runnable\<close>

datatype loop_phase = LoopNone | LoopCheck | LoopWork | LoopExit

text \<open>
  \<open>rn_thread\<close> is \<open>_t\<close>; \<open>rn_joining\<close> says that \<open>run\<close> is in the deleter of the previous thread object,
  waiting for its worker; \<open>rn_works\<close> counts the calls of \<open>__work()\<close> begun.
\<close>

record 'p runnable =
  rn_thread :: "nat option"
  rn_running :: bool
  rn_priority :: 'p
  rn_name :: string
  rn_phase :: "nat \<Rightarrow> loop_phase"
  rn_next :: nat
  rn_joining :: bool
  rn_works :: nat
  rn_fault :: "fault option"

definition runnable_new :: "'p \<Rightarrow> 'p runnable" where
  "runnable_new dflt = \<lparr>rn_thread = None, rn_running = False, rn_priority = dflt, rn_name = [],
     rn_phase = (\<lambda>_. LoopNone), rn_next = 0, rn_joining = False, rn_works = 0, rn_fault = None\<rparr>"

text \<open>\<open>_t = Thread::create()\<close> once the previous object is gone, and \<open>start\<close> of the loop.\<close>

definition runnable_spawn :: "'p runnable \<Rightarrow> 'p runnable" where
  "runnable_spawn r =
     r\<lparr>rn_thread := Some (rn_next r), rn_phase := (rn_phase r)(rn_next r := LoopCheck),
       rn_next := Suc (rn_next r), rn_joining := False\<rparr>"

definition old_gone :: "'p runnable \<Rightarrow> bool" where
  "old_gone r = (case rn_thread r of None \<Rightarrow> True | Some g \<Rightarrow> rn_phase r g = LoopExit)"

definition runnable_run :: "'p runnable \<Rightarrow> 'p runnable res" where
  "runnable_run r =
     (if rn_running r then Inl (Thrown (AlreadyRunningException []))
      else let r1 = r\<lparr>rn_running := True\<rparr>
           in ok (if old_gone r1 then runnable_spawn r1 else r1\<lparr>rn_joining := True\<rparr>))"

definition runnable_stop :: "'p runnable \<Rightarrow> 'p runnable" where
  "runnable_stop r = r\<lparr>rn_running := False\<rparr>"

definition runnable_status :: "'p runnable \<Rightarrow> bool" where
  "runnable_status r = rn_running r"

text \<open>\<open>os_ok\<close> is what \<open>Thread::set_priority\<close> returns.\<close>

definition runnable_set_priority :: "bool \<Rightarrow> 'p \<Rightarrow> 'p runnable \<Rightarrow> ('p runnable \<times> bool) res" where
  "runnable_set_priority os_ok priority r =
     (let r1 = r\<lparr>rn_priority := priority\<rparr>
      in if rn_running r1
         then (case rn_thread r1 of None \<Rightarrow> Inl (UndefinedBehaviour ''_t is null'') | Some _ \<Rightarrow> ok (r1, os_ok))
         else ok (r1, False))"

definition runnable_get_priority :: "'p runnable \<Rightarrow> 'p" where
  "runnable_get_priority r = rn_priority r"

definition runnable_set_name :: "string \<Rightarrow> 'p runnable \<Rightarrow> 'p runnable res" where
  "runnable_set_name name r =
     (let r1 = r\<lparr>rn_name := name\<rparr>
      in if rn_running r1 \<and> rn_thread r1 = None then Inl (UndefinedBehaviour ''_t is null'') else ok r1)"

definition runnable_get_name :: "'p runnable \<Rightarrow> string" where
  "runnable_get_name r = rn_name r"

text \<open>One step of the loop \<open>while(_running.load()) { __work(); }\<close> of worker \<open>g\<close>.\<close>

definition runnable_worker :: "nat \<Rightarrow> 'p runnable \<Rightarrow> 'p runnable option" where
  "runnable_worker g r =
     (case rn_phase r g of
        LoopNone \<Rightarrow> None
      | LoopCheck \<Rightarrow>
          Some (if rn_running r
                then r\<lparr>rn_phase := (rn_phase r)(g := LoopWork), rn_works := Suc (rn_works r)\<rparr>
                else r\<lparr>rn_phase := (rn_phase r)(g := LoopExit)\<rparr>)
      | LoopWork \<Rightarrow> Some (r\<lparr>rn_phase := (rn_phase r)(g := LoopCheck)\<rparr>)
      | LoopExit \<Rightarrow> None)"

datatype runnable_event = RnRun | RnJoined | RnStop | RnStep nat | RnThrow nat

definition runnable_event :: "runnable_event \<Rightarrow> 'p runnable \<Rightarrow> 'p runnable option" where
  "runnable_event e r =
     (if rn_fault r \<noteq> None then None
      else case e of
        RnRun \<Rightarrow> (if rn_joining r then None
                  else case runnable_run r of Inl _ \<Rightarrow> Some r | Inr r1 \<Rightarrow> Some r1)
      | RnJoined \<Rightarrow> (if rn_joining r \<and> old_gone r then Some (runnable_spawn r) else None)
      | RnStop \<Rightarrow> Some (runnable_stop r)
      | RnStep g \<Rightarrow> runnable_worker g r
      | RnThrow g \<Rightarrow> (if rn_phase r g = LoopWork then Some (r\<lparr>rn_fault := Some Terminated\<rparr>) else None))"

lemmas runnable_defs [op_defs] = runnable_spawn_def old_gone_def runnable_run_def runnable_stop_def
  runnable_worker_def runnable_event_def

text \<open>A loop that still runs while \<open>run\<close> waits for it keeps \<open>run\<close> waiting.\<close>

definition hung :: "'p runnable \<Rightarrow> bool" where
  "hung r \<longleftrightarrow> rn_joining r \<and> rn_running r \<and>
     (\<exists>g. rn_thread r = Some g \<and> rn_phase r g \<in> {LoopCheck, LoopWork})"

lemma hung_step:
  "hung r \<Longrightarrow> e \<noteq> RnStop \<Longrightarrow> runnable_event e r = Some u \<Longrightarrow> hung u"
  by (cases e) (auto simp: hung_def runnable_defs split: if_splits loop_phase.splits)

lemma stopped_step:
  "\<not> rn_running r \<and> \<not> rn_joining r \<and> rn_works r = n \<Longrightarrow> e \<noteq> RnRun \<Longrightarrow> runnable_event e r = Some u \<Longrightarrow>
   \<not> rn_running u \<and> \<not> rn_joining u \<and> rn_works u = n"
  by (cases e) (auto simp: runnable_defs split: if_splits loop_phase.splits)

section \<open>Properties of Runnable\<close>



text \<open>
  A restart can hang: when \<open>run\<close> follows \<open>stop\<close> before the old loop has looked at \<open>_running\<close> again,
  \<open>run\<close> sets the flag and then waits, in the deleter of the old thread object, for a loop that now
  never ends; no event but another \<open>stop\<close> gets it out.
\<close>

theorem runnable_restart_hangs:
  "\<exists>r. run_opt runnable_event [RnRun, RnStep 0, RnStop, RnRun] (runnable_new dflt) = Some r \<and>
     (\<forall>es t. RnStop \<notin> set es \<longrightarrow> run_opt runnable_event es r = Some t \<longrightarrow> rn_joining t)"
proof -
  obtain r where r: "run_opt runnable_event [RnRun, RnStep 0, RnStop, RnRun] (runnable_new dflt) = Some r"
    and "hung r"
    by (auto simp: runnable_new_def runnable_defs hung_def Let_def)
  have "rn_joining t" if "RnStop \<notin> set es" "run_opt runnable_event es r = Some t" for es t
  proof -
    have "hung t"
      by (rule run_opt_inv [where Q = "\<lambda>e. e \<noteq> RnStop" and f = runnable_event, OF hung_step])
        (use \<open>hung r\<close> that in auto)
    then show ?thesis by (simp add: hung_def)
  qed
  with r show ?thesis by blast
qed

theorem runnable_restart_hangs_witness:
  "\<exists>r t. run_opt runnable_event [RnRun, RnStep 0, RnStop, RnRun] (runnable_new (0::nat)) = Some r \<and>
     run_opt runnable_event [RnStep 0, RnStep 0] r = Some t \<and> rn_joining t"
proof -
  from runnable_restart_hangs [of "0::nat"] obtain r where
    r: "run_opt runnable_event [RnRun, RnStep 0, RnStop, RnRun] (runnable_new (0::nat)) = Some r"
    and h: "\<And>es t. RnStop \<notin> set es \<Longrightarrow> run_opt runnable_event es r = Some t \<Longrightarrow> rn_joining t" by blast
  from r have "\<exists>t. run_opt runnable_event [RnStep 0, RnStep 0] r = Some t"
    by (auto simp: runnable_new_def runnable_defs Let_def)
  then obtain t where t: "run_opt runnable_event [RnStep 0, RnStep 0] r = Some t" by blast
  have "rn_joining t" by (rule h [OF _ t]) simp
  with r t show ?thesis by blast
qed

section \<open>ActiveRunnable\<close>

text \<open>
  The worker: at the loop test, past it and about to take the lock, blocked in \<open>_cv.wait\<close>, woken,
  executing a task, out of the loop. A task is its promise's number and its data (a \<open>void\<close> data type
  is \<open>unit\<close>); \<open>ar_ready\<close> lists the promises that have a value, with that value, oldest first.
\<close>

datatype 'd active_phase = ActNone | ActCheck | ActLock | ActWait | ActWoken | ActRun "nat \<times> 'd" | ActExit

record ('d, 'r) active_runnable =
  ar_running :: bool
  ar_tasks :: "(nat \<times> 'd) list"
  ar_phase :: "'d active_phase"
  ar_ready :: "(nat \<times> 'r) list"
  ar_next :: nat
  ar_fault :: "fault option"

definition active_new :: "('d, 'r) active_runnable" where
  "active_new = \<lparr>ar_running = False, ar_tasks = [], ar_phase = ActNone, ar_ready = [], ar_next = 0,
     ar_fault = None\<rparr>"

definition active_run :: "('d, 'r) active_runnable \<Rightarrow> ('d, 'r) active_runnable res" where
  "active_run a =
     (if ar_running a then Inl (Thrown (AlreadyRunningException []))
      else ok (a\<lparr>ar_running := True, ar_phase := ActCheck\<rparr>))"

text \<open>\<open>_cv.notify_one()\<close>: the only thread that waits is the worker.\<close>

definition active_wake :: "('d, 'r) active_runnable \<Rightarrow> ('d, 'r) active_runnable" where
  "active_wake a = (if ar_phase a = ActWait then a\<lparr>ar_phase := ActWoken\<rparr> else a)"

definition active_notify :: "'d \<Rightarrow> ('d, 'r) active_runnable \<Rightarrow> ('d, 'r) active_runnable" where
  "active_notify data a =
     active_wake (a\<lparr>ar_tasks := ar_tasks a @ [(ar_next a, data)], ar_next := Suc (ar_next a)\<rparr>)"

definition active_stop :: "('d, 'r) active_runnable \<Rightarrow> ('d, 'r) active_runnable" where
  "active_stop a = active_wake (a\<lparr>ar_running := False\<rparr>)"

definition active_status :: "('d, 'r) active_runnable \<Rightarrow> bool" where
  "active_status a = ar_running a"

text \<open>With the lock held: leave the loop when stopped, else take the first task, \<open>_tasks[0]\<close>.\<close>

definition active_take :: "('d, 'r) active_runnable \<Rightarrow> ('d, 'r) active_runnable" where
  "active_take a =
     (if \<not> ar_running a then a\<lparr>ar_phase := ActExit\<rparr>
      else case ar_tasks a of
        [] \<Rightarrow> a\<lparr>ar_fault := Some (UndefinedBehaviour ''_tasks[0]'')\<rparr>
      | t # ts \<Rightarrow> a\<lparr>ar_tasks := ts, ar_phase := ActRun t\<rparr>)"

definition active_worker ::
  "('d \<Rightarrow> 'r) \<Rightarrow> ('d, 'r) active_runnable \<Rightarrow> ('d, 'r) active_runnable option" where
  "active_worker work a =
     (case ar_phase a of
        ActNone \<Rightarrow> None
      | ActCheck \<Rightarrow> Some (a\<lparr>ar_phase := (if ar_running a then ActLock else ActExit)\<rparr>)
      | ActLock \<Rightarrow> Some (if ar_tasks a = [] then a\<lparr>ar_phase := ActWait\<rparr> else active_take a)
      | ActWait \<Rightarrow> None
      | ActWoken \<Rightarrow> Some (active_take a)
      | ActRun (p, d) \<Rightarrow> Some (a\<lparr>ar_ready := ar_ready a @ [(p, work d)], ar_phase := ActCheck\<rparr>)
      | ActExit \<Rightarrow> None)"

datatype 'd active_event = ActCallRun | ActNotify 'd | ActStop | ActStep | ActSpurious

text \<open>A first \<open>run\<close>, or one after the worker has left its loop; a condition variable may wake by itself.\<close>

definition active_event ::
  "('d \<Rightarrow> 'r) \<Rightarrow> 'd active_event \<Rightarrow> ('d, 'r) active_runnable \<Rightarrow> ('d, 'r) active_runnable option" where
  "active_event work e a =
     (if ar_fault a \<noteq> None then None
      else case e of
        ActCallRun \<Rightarrow> (case active_run a of
            Inl _ \<Rightarrow> Some a
          | Inr b \<Rightarrow> (if ar_phase a = ActNone \<or> ar_phase a = ActExit then Some b else None))
      | ActNotify d \<Rightarrow> Some (active_notify d a)
      | ActStop \<Rightarrow> Some (active_stop a)
      | ActStep \<Rightarrow> active_worker work a
      | ActSpurious \<Rightarrow> (if ar_phase a = ActWait then Some (a\<lparr>ar_phase := ActWoken\<rparr>) else None))"

lemmas active_defs [op_defs] = active_run_def active_wake_def active_notify_def active_stop_def
  active_take_def active_worker_def active_event_def

fun notified :: "'d active_event list \<Rightarrow> 'd list" where
  "notified [] = []"
| "notified (ActNotify d # es) = d # notified es"
| "notified (_ # es) = notified es"

definition in_flight :: "('d, 'r) active_runnable \<Rightarrow> (nat \<times> 'd) list" where
  "in_flight a = (case ar_phase a of ActRun t \<Rightarrow> [t] | _ \<Rightarrow> [])"

definition outstanding ::
  "('d \<Rightarrow> 'r) \<Rightarrow> ('d, 'r) active_runnable \<Rightarrow> (nat \<times> 'r) list" where
  "outstanding work a = ar_ready a @ map (\<lambda>(p, d). (p, work d)) (in_flight a @ ar_tasks a)"

lemma active_event_outstanding:
  assumes "active_event work e a = Some b"
  shows "outstanding work b @ enumerate (ar_next b) (map work ds) =
    outstanding work a @ enumerate (ar_next a) (map work (notified [e] @ ds))"
proof (cases e)
  case (ActNotify d)
  then show ?thesis
    using assms by (auto simp: active_defs outstanding_def in_flight_def split: if_splits active_phase.splits)
qed (use assms in \<open>auto simp: active_defs outstanding_def in_flight_def
    split: if_splits active_phase.splits list.splits\<close>)

lemma notified_Cons: "notified (e # es) = notified [e] @ notified es"
  by (cases e) auto

lemma active_history:
  "run_opt (active_event work) es a = Some b \<Longrightarrow>
   outstanding work b = outstanding work a @ enumerate (ar_next a) (map work (notified es))"
proof (induction es arbitrary: a)
  case (Cons e es)
  then obtain c where c: "active_event work e a = Some c" "run_opt (active_event work) es c = Some b"
    by (auto split: option.splits)
  from Cons.IH [OF c(2)] active_event_outstanding [OF c(1), of "notified es"] show ?case
    by (subst notified_Cons) simp
qed simp

definition active_inv :: "('d, 'r) active_runnable \<Rightarrow> bool" where
  "active_inv a \<longleftrightarrow> ar_fault a = None \<and>
     (ar_phase a = ActWoken \<longrightarrow> ar_tasks a \<noteq> [] \<or> \<not> ar_running a)"

lemma active_inv_step:
  "active_inv a \<Longrightarrow> e \<noteq> ActSpurious \<Longrightarrow> active_event work e a = Some b \<Longrightarrow> active_inv b"
  by (cases e) (auto simp: active_inv_def active_defs split: if_splits active_phase.splits list.splits)

section \<open>Properties of ActiveRunnable\<close>

text \<open>
  C23. Notifications are served in order, each by its own call: after any events, spurious wakeups
  included, the futures that are ready, the task being executed and the tasks waiting are, in this
  order, the notifications in the order they were made, each ready future holding the result of
  \<open>__work\<close> on its own data.
\<close>

theorem active_serves_in_order:
  assumes "run_opt (active_event work) es active_new = Some a"
  shows "ar_ready a @ map (\<lambda>(p, d). (p, work d)) (in_flight a @ ar_tasks a) =
    enumerate 0 (map work (notified es))"
  using active_history [OF assms] by (simp add: outstanding_def in_flight_def active_new_def)

theorem active_serves_in_order_witness:
  "\<exists>a. run_opt (active_event (\<lambda>n::nat. n + 1)) [ActNotify 4, ActCallRun, ActStep, ActStep, ActStep] active_new = Some a \<and>
     ar_ready a @ map (\<lambda>(p, d). (p, d + 1)) (in_flight a @ ar_tasks a) = [(0, 5)]"
proof -
  have "\<exists>a. run_opt (active_event (\<lambda>n::nat. n + 1)) [ActNotify 4, ActCallRun, ActStep, ActStep, ActStep] active_new = Some a"
    by (simp add: active_defs active_new_def)
  then obtain a where
    a: "run_opt (active_event (\<lambda>n::nat. n + 1)) [ActNotify 4, ActCallRun, ActStep, ActStep, ActStep] active_new = Some a"
    by blast
  from active_serves_in_order [OF a] a show ?thesis by simp
qed

text \<open>
  Without spurious wakeups the worker never reads an empty task vector. With one it does,
  since the wait has no predicate: woken with nothing to do, it takes \<open>_tasks[0]\<close>.
\<close>

theorem active_spurious_wakeup:
  "(\<forall>es a. ActSpurious \<notin> set es \<longrightarrow> run_opt (active_event work) es active_new = Some a \<longrightarrow>
      ar_fault a = None) \<and>
   map_option ar_fault (run_opt (active_event work)
      [ActCallRun, ActStep, ActStep, ActSpurious, ActStep] active_new) =
      Some (Some (UndefinedBehaviour ''_tasks[0]''))"
proof (intro conjI allI impI)
  fix es a
  assume es: "ActSpurious \<notin> set es" and a: "run_opt (active_event work) es active_new = Some a"
  have "active_inv a"
    by (rule run_opt_inv [where Q = "\<lambda>e. e \<noteq> ActSpurious" and f = "active_event work", OF active_inv_step])
      (use es a in \<open>auto simp: active_inv_def active_new_def\<close>)
  then show "ar_fault a = None" by (simp add: active_inv_def)
qed (simp add: active_defs active_new_def)

theorem active_spurious_wakeup_witness:
  "\<exists>a. run_opt (active_event (\<lambda>n::nat. n + 1)) [ActNotify 4, ActCallRun] active_new = Some a \<and> ar_fault a = None"
proof -
  have "\<exists>a. run_opt (active_event (\<lambda>n::nat. n + 1)) [ActNotify 4, ActCallRun] active_new = Some a"
    by (simp add: active_defs active_new_def)
  then obtain a where a: "run_opt (active_event (\<lambda>n::nat. n + 1)) [ActNotify 4, ActCallRun] active_new = Some a" ..
  have n: "ActSpurious \<notin> set [ActNotify (4::nat), ActCallRun]" by simp
  have "ar_fault a = None" by (rule active_spurious_wakeup [THEN conjunct1, rule_format, OF n a])
  with a show ?thesis by blast
qed

text \<open>
  \<open>stop\<close> can be missed: the worker tests \<open>_running\<close> before it takes the lock and not again before
  it waits, so a \<open>stop\<close> in between leaves it waiting with \<open>_running\<close> false, and no step of its own can
  ever end the wait.
\<close>

theorem active_stop_can_be_missed:
  "\<exists>a. run_opt (active_event work) [ActCallRun, ActStep, ActStop, ActStep] active_new = Some a \<and>
     ar_running a = False \<and> ar_phase a = ActWait \<and> active_worker work a = None"
  by (simp add: active_defs active_new_def)

end
