(* ===== verification/ActiveProgress.thy ===== *)
theory ActiveProgress
  imports Runnable
begin

text \<open>
  \<open>ActiveRunnable\<close> of \<open>threading/Runnable.hpp\<close>, continued: the settings of its thread, and that it makes
  progress. \<open>Runnable\<close> shows in which order notifications are served; here, that while it runs every one of them is
  served, within a number of steps of the worker that the tasks before it bound.
\<close>

section \<open>Settings\<close>

text \<open>
  The members \<open>_priority\<close> and \<open>_name\<close>; \<open>_t\<close> is null until \<open>run\<close> has been called, and \<open>os_ok\<close> is what
  \<open>Thread::set_priority\<close> returns.
\<close>

record 'p active_settings =
  as_priority :: 'p
  as_name :: string

definition active_set_priority ::
  "bool \<Rightarrow> 'p \<Rightarrow> ('d, 'r) active_runnable \<Rightarrow> 'p active_settings \<Rightarrow> ('p active_settings \<times> bool) res" where
  "active_set_priority os_ok priority a s =
     (let s1 = s\<lparr>as_priority := priority\<rparr>
      in if ar_running a
         then (if ar_phase a = ActNone then Inl (UndefinedBehaviour ''_t is null'') else ok (s1, os_ok))
         else ok (s1, False))"

definition active_get_priority :: "'p active_settings \<Rightarrow> 'p" where
  "active_get_priority s = as_priority s"

definition active_set_name ::
  "string \<Rightarrow> ('d, 'r) active_runnable \<Rightarrow> 'p active_settings \<Rightarrow> 'p active_settings res" where
  "active_set_name name a s =
     (let s1 = s\<lparr>as_name := name\<rparr>
      in if ar_running a \<and> ar_phase a = ActNone then Inl (UndefinedBehaviour ''_t is null'') else ok s1)"

definition active_get_name :: "'p active_settings \<Rightarrow> string" where
  "active_get_name s = as_name s"

section \<open>Invariant\<close>

text \<open>A runnable that runs has a worker in its loop; the worker waits only while there is nothing to do.\<close>

definition active_live :: "('d, 'r) active_runnable \<Rightarrow> bool" where
  "active_live a \<longleftrightarrow> active_inv a \<and> (ar_running a \<longrightarrow> ar_phase a \<noteq> ActNone \<and> ar_phase a \<noteq> ActExit) \<and>
     (ar_phase a = ActWait \<longrightarrow> ar_tasks a = [])"

lemma active_live_new: "active_live active_new"
  by (simp add: active_live_def active_inv_def active_new_def)

lemma active_live_step:
  assumes "active_live a" "e \<noteq> ActSpurious" "active_event work e a = Some b"
  shows "active_live b"
proof -
  have "active_inv b" using active_inv_step [OF _ assms(2,3)] assms(1) by (simp add: active_live_def)
  moreover have "(ar_running b \<longrightarrow> ar_phase b \<noteq> ActNone \<and> ar_phase b \<noteq> ActExit) \<and> (ar_phase b = ActWait \<longrightarrow> ar_tasks b = [])"
    using assms
    by (cases e) (auto simp: active_live_def active_defs split: if_splits active_phase.splits list.splits)
  ultimately show ?thesis by (simp add: active_live_def)
qed

lemma active_live_run:
  assumes "run_opt (active_event work) es active_new = Some a" "ActSpurious \<notin> set es"
  shows "active_live a"
  by (rule run_opt_inv [where Q = "\<lambda>e. e \<noteq> ActSpurious" and f = "active_event work", OF active_live_step])
    (use assms active_live_new in auto)

section \<open>Progress\<close>

text \<open>The worker steps to the end of the next task, and of the one with \<open>n\<close> tasks before it.\<close>

fun phase_cost :: "'d active_phase \<Rightarrow> nat" where
  "phase_cost (ActRun _) = 1"
| "phase_cost ActCheck = 3"
| "phase_cost _ = 2"

abbreviation active_queue :: "('d, 'r) active_runnable \<Rightarrow> (nat \<times> 'd) list" where
  "active_queue a \<equiv> in_flight a @ ar_tasks a"

definition waits_behind :: "('d, 'r) active_runnable \<Rightarrow> nat \<times> 'd \<Rightarrow> nat \<Rightarrow> bool" where
  "waits_behind a t n \<longleftrightarrow> (\<exists>us vs. active_queue a = us @ t # vs \<and> 3 * length us + phase_cost (ar_phase a) = n)"

definition served :: "('d \<Rightarrow> 'r) \<Rightarrow> ('d, 'r) active_runnable \<Rightarrow> nat \<times> 'd \<Rightarrow> bool" where
  "served work a t \<longleftrightarrow> (fst t, work (snd t)) \<in> set (ar_ready a)"

lemma worker_enabled: "active_live a \<Longrightarrow> ar_running a \<Longrightarrow> active_queue a \<noteq> [] \<Longrightarrow> active_worker work a \<noteq> None"
  by (auto simp: active_live_def active_worker_def in_flight_def split: active_phase.splits)

lemma served_stays: "served work a t \<Longrightarrow> active_event work e a = Some b \<Longrightarrow> served work b t"
  by (cases e) (auto simp: served_def active_defs split: if_splits active_phase.splits list.splits)

lemma running_stays: "ar_running a \<Longrightarrow> e \<noteq> ActStop \<Longrightarrow> active_event work e a = Some b \<Longrightarrow> ar_running b"
  by (cases e) (auto simp: active_defs split: if_splits active_phase.splits list.splits)

lemma queue_nonempty_not_waiting: "active_live a \<Longrightarrow> waits_behind a t n \<Longrightarrow> ar_phase a \<noteq> ActWait"
  by (auto simp: waits_behind_def active_live_def in_flight_def)

lemma worker_progress:
  assumes "active_live a" "ar_running a" "waits_behind a t n" "active_worker work a = Some b"
  shows "served work b t \<or> (\<exists>m. waits_behind b t m \<and> m < n)"
proof -
  obtain us vs where q: "active_queue a = us @ t # vs" and n: "n = 3 * length us + phase_cost (ar_phase a)"
    using assms(3) by (auto simp: waits_behind_def)
  have go: "waits_behind b t m" if "active_queue b = us @ t # vs" "m = 3 * length us + phase_cost (ar_phase b)" for m
    using that by (auto simp: waits_behind_def)
  show ?thesis
  proof (cases "ar_phase a")
    case ActCheck
    then have "b = a\<lparr>ar_phase := ActLock\<rparr>" using assms(2,4) by (simp add: active_worker_def)
    then have "waits_behind b t (3 * length us + 2)" using q ActCheck by (intro go) (simp_all add: in_flight_def)
    then show ?thesis using n ActCheck by fastforce
  next
    case ActLock
    then obtain s ts where s: "ar_tasks a = s # ts" using q by (cases "ar_tasks a") (auto simp: in_flight_def)
    then have "b = a\<lparr>ar_tasks := ts, ar_phase := ActRun s\<rparr>"
      using ActLock assms(2,4) by (simp add: active_worker_def active_take_def)
    then have "waits_behind b t (3 * length us + 1)" using q ActLock s by (intro go) (simp_all add: in_flight_def)
    then show ?thesis using n ActLock by fastforce
  next
    case ActWoken
    then obtain s ts where s: "ar_tasks a = s # ts" using q by (cases "ar_tasks a") (auto simp: in_flight_def)
    then have "b = a\<lparr>ar_tasks := ts, ar_phase := ActRun s\<rparr>"
      using ActWoken assms(2,4) by (simp add: active_worker_def active_take_def)
    then have "waits_behind b t (3 * length us + 1)" using q ActWoken s by (intro go) (simp_all add: in_flight_def)
    then show ?thesis using n ActWoken by fastforce
  next
    case (ActRun s)
    then have b: "b = a\<lparr>ar_ready := ar_ready a @ [(fst s, work (snd s))], ar_phase := ActCheck\<rparr>"
      using assms(4) by (cases s) (simp add: active_worker_def)
    show ?thesis
    proof (cases us)
      case Nil
      then have "t = s" using q ActRun by (simp add: in_flight_def)
      then show ?thesis by (simp add: served_def b)
    next
      case (Cons u us')
      then have "ar_tasks a = us' @ t # vs" using q ActRun by (simp add: in_flight_def)
      then have "waits_behind b t (3 * length us' + 3)" by (auto simp: waits_behind_def b in_flight_def)
      then show ?thesis using n ActRun Cons by fastforce
    qed
  qed (use assms(4) in \<open>auto simp: active_worker_def\<close>)
qed

lemma event_progress:
  assumes "active_live a" "ar_running a" "waits_behind a t n" "active_event work e a = Some b"
    and "e \<noteq> ActStop" "e \<noteq> ActSpurious"
  shows "served work b t \<or> (\<exists>m. waits_behind b t m \<and> m + (if e = ActStep then 1 else 0) \<le> n)"
proof (cases e)
  case (ActNotify d)
  note w = queue_nonempty_not_waiting [OF assms(1,3)]
  then have "active_queue b = active_queue a @ [(ar_next a, d)]" "ar_phase b = ar_phase a"
    using assms(4) ActNotify by (auto simp: active_defs in_flight_def split: if_splits)
  moreover obtain us vs where "active_queue a = us @ t # vs" "n = 3 * length us + phase_cost (ar_phase a)"
    using assms(3) by (auto simp: waits_behind_def)
  ultimately have "active_queue b = us @ t # (vs @ [(ar_next a, d)])" "n = 3 * length us + phase_cost (ar_phase b)"
    by simp_all
  then have "waits_behind b t n" unfolding waits_behind_def by blast
  then show ?thesis using ActNotify by auto
next
  case ActCallRun
  then have "b = a" using assms(2,4) by (auto simp: active_event_def active_run_def split: if_splits)
  then show ?thesis using assms(3) ActCallRun by auto
next
  case ActStep
  then have "active_worker work a = Some b" using assms(4) by (auto simp: active_event_def split: if_splits)
  from worker_progress [OF assms(1-3) this] ActStep show ?thesis by fastforce
qed (use assms in auto)

lemma run_progress:
  assumes "active_live a" "ar_running a" "waits_behind a t n" "run_opt (active_event work) fs a = Some b"
    and "ActStop \<notin> set fs" "ActSpurious \<notin> set fs" "n \<le> count_list fs ActStep"
  shows "served work b t"
  using assms
proof (induction fs arbitrary: a n)
  case Nil
  then have "n = 0" "waits_behind a t n" by simp_all
  moreover have "0 < phase_cost (ar_phase a)" by (cases "ar_phase a") auto
  ultimately show ?case by (auto simp: waits_behind_def)
next
  case (Cons e fs)
  then obtain c where c: "active_event work e a = Some c" "run_opt (active_event work) fs c = Some b"
    by (auto split: option.splits)
  have stays: "served work b t" if "served work c t"
    using c(2) that
  proof (induction fs arbitrary: c)
    case (Cons f fs)
    then obtain w where "active_event work f c = Some w" "run_opt (active_event work) fs w = Some b"
      by (auto split: option.splits)
    with Cons.IH served_stays [OF Cons.prems(2)] show ?case by blast
  qed simp
  have live: "active_live c" "ar_running c"
    using active_live_step [OF Cons.prems(1) _ c(1)] running_stays [OF Cons.prems(2) _ c(1)] Cons.prems(5,6) by auto
  from event_progress [OF Cons.prems(1-3) c(1)] Cons.prems(5,6)
  consider "served work c t" | m where "waits_behind c t m" "m + (if e = ActStep then 1 else 0) \<le> n" by auto
  then show ?case
  proof cases
    case 2
    then have "m \<le> count_list fs ActStep" using Cons.prems(7) by (auto split: if_splits)
    with Cons.IH [OF live 2(1) c(2)] Cons.prems(5,6) show ?thesis by simp
  qed (rule stays)
qed

section \<open>Property\<close>

text \<open>
  C28. Every notification is served. Take any history without spurious wakeups that leaves the runnable running, and a
  task that is being executed or waiting. The worker is not blocked; and whatever is notified meanwhile, once the
  worker has made three steps for every task there is, the task's future holds the result of \<open>__work\<close> on its data,
  unless \<open>stop\<close> is called.
\<close>

theorem active_serves_all:
  assumes "run_opt (active_event work) es active_new = Some a" "ActSpurious \<notin> set es" "ar_running a"
    and "(p, d) \<in> set (in_flight a @ ar_tasks a)"
  shows "active_worker work a \<noteq> None \<and>
    (\<forall>fs b. run_opt (active_event work) fs a = Some b \<and> ActStop \<notin> set fs \<and> ActSpurious \<notin> set fs \<and>
        3 * length (in_flight a @ ar_tasks a) \<le> count_list fs ActStep \<longrightarrow>
      (p, work d) \<in> set (ar_ready b))"
proof -
  have live: "active_live a" by (rule active_live_run [OF assms(1,2)])
  obtain us vs where q: "active_queue a = us @ (p, d) # vs" using split_list [OF assms(4)] by blast
  then have w: "waits_behind a (p, d) (3 * length us + phase_cost (ar_phase a))" by (auto simp: waits_behind_def)
  have "phase_cost (ar_phase a) \<le> 3" by (cases "ar_phase a") auto
  then have "3 * length us + phase_cost (ar_phase a) \<le> 3 * length (active_queue a)" by (simp add: q)
  moreover have "active_worker work a \<noteq> None" using worker_enabled [OF live assms(3)] q by simp
  moreover have "(p, work d) \<in> set (ar_ready b)"
    if "run_opt (active_event work) fs a = Some b" "ActStop \<notin> set fs" "ActSpurious \<notin> set fs"
      "3 * length us + phase_cost (ar_phase a) \<le> count_list fs ActStep" for fs b
    using run_progress [OF live assms(3) w that] by (simp add: served_def)
  ultimately show ?thesis by (meson le_trans)
qed

text \<open>Two notifications, the second while the first one is being served.\<close>

theorem active_serves_all_witness:
  "\<exists>a b. run_opt (active_event (\<lambda>n::nat. n + 1)) [ActNotify 4, ActCallRun] active_new = Some a \<and>
     run_opt (active_event (\<lambda>n::nat. n + 1)) [ActStep, ActNotify 7, ActStep, ActStep] a = Some b \<and>
     (0, 5) \<in> set (ar_ready b)"
proof -
  obtain a b where a: "run_opt (active_event (\<lambda>n::nat. n + 1)) [ActNotify 4, ActCallRun] active_new = Some a"
    "ar_running a" "active_queue a = [(0, 4)]"
    and b: "run_opt (active_event (\<lambda>n::nat. n + 1)) [ActStep, ActNotify 7, ActStep, ActStep] a = Some b"
    by (simp add: active_defs active_new_def in_flight_def)
  have "(0, 4 + 1) \<in> set (ar_ready b)"
    by (rule active_serves_all [OF a(1) _ a(2), THEN conjunct2, rule_format, OF _ _ conjI [OF b]])
      (simp_all add: a(3))
  with a(1) b show ?thesis by (auto simp: numeral_eq_Suc)
qed

text \<open>The setters fail on no runnable: one that runs has its thread.\<close>

lemma active_settings_total:
  assumes "run_opt (active_event work) es active_new = Some a" "ActSpurious \<notin> set es"
  shows "active_set_priority os_ok priority a s =
      ok (s\<lparr>as_priority := priority\<rparr>, ar_running a \<and> os_ok)"
    and "active_set_name name a s = ok (s\<lparr>as_name := name\<rparr>)"
  using active_live_run [OF assms]
  by (auto simp: active_set_priority_def active_set_name_def active_live_def Let_def)

end
