(* ===== verification/Timer.thy ===== *)
theory Timer
  imports Errors
begin

text \<open>
  \<open>TimerDetail\<close>, \<open>TimerManager\<close> and the two factory functions of \<open>src/threading/Timer.cpp\<close>. Time is
  the event that an interval has elapsed; the calls and the steps of the timer's thread interleave
  freely. The owners of the shared timer object are part of the state, since its destructor waits
  for the timer's thread.
\<close>

section \<open>TimerDetail\<close>

text \<open>
  The timer's thread: about to enter the first wait, in it, at the loop test, inside \<open>_func()\<close>, about
  to enter the wait of the loop, in it, about to set the promise, about to unregister, finished, or
  blocked in the destructor of its own timer.
\<close>

datatype timer_phase =
    TmNone | TmFirstLock | TmFirstWait | TmCheck | TmCall | TmLock | TmWait | TmPromise | TmUnregist
  | TmExit | TmSelfWait

text \<open>
  \<open>tm_handle\<close>: someone outside owns the timer (the \<open>unique_ptr\<close> of \<open>create\<close>); \<open>tm_managed\<close>: the
  manager's list does. \<open>tm_calls\<close> counts the calls of \<open>_func\<close>, \<open>tm_ticks\<close> the intervals that ended a wait.
\<close>

record timer =
  tm_async :: bool
  tm_running :: bool
  tm_phase :: timer_phase
  tm_done :: bool
  tm_handle :: bool
  tm_managed :: bool
  tm_calls :: nat
  tm_ticks :: nat

definition timer_create :: timer where
  "timer_create = \<lparr>tm_async = False, tm_running = False, tm_phase = TmNone, tm_done = False,
     tm_handle = True, tm_managed = True, tm_calls = 0, tm_ticks = 0\<rparr>"

definition timer_start :: "timer \<Rightarrow> timer res" where
  "timer_start t =
     (if tm_running t then Inl (Thrown (AlreadyRunningException []))
      else ok (t\<lparr>tm_running := True, tm_phase := TmFirstLock, tm_done := False\<rparr>))"

text \<open>\<open>async\<close> starts the timer at once; its local owner is gone when it returns.\<close>

definition timer_async :: "timer res" where
  "timer_async = bind_res (timer_start (timer_create\<lparr>tm_async := True\<rparr>)) (\<lambda>t. ok (t\<lparr>tm_handle := False\<rparr>))"

text \<open>\<open>stop\<close>: \<open>notify_all\<close> makes a waiting thread look at the predicate, which now holds.\<close>

definition timer_stop :: "timer \<Rightarrow> timer" where
  "timer_stop t =
     t\<lparr>tm_running := False,
       tm_phase := (case tm_phase t of TmFirstWait \<Rightarrow> TmCheck | TmWait \<Rightarrow> TmCheck | ph \<Rightarrow> ph)\<rparr>"

definition timer_status :: "timer \<Rightarrow> bool" where
  "timer_status t = tm_running t"

text \<open>\<open>wait_until_stop\<close> returns when the thread's future is ready, or if there is none.\<close>

definition timer_wait_returns :: "timer \<Rightarrow> bool" where
  "timer_wait_returns t \<longleftrightarrow> tm_phase t = TmNone \<or> tm_phase t = TmExit"

text \<open>
  A step of the timer's thread; \<open>again\<close> is what \<open>_func\<close> returns, \<open>busy\<close> whether the manager's lock is
  held by someone else. In \<open>TmUnregist\<close> the manager drops its reference, unless it is busy; if it was the last one, the destructor runs in this thread, and waits for it.
\<close>

definition timer_worker :: "bool \<Rightarrow> bool \<Rightarrow> timer \<Rightarrow> timer option" where
  "timer_worker again busy t =
     (case tm_phase t of
        TmFirstLock \<Rightarrow> Some (t\<lparr>tm_phase := (if tm_running t then TmFirstWait else TmCheck)\<rparr>)
      | TmCheck \<Rightarrow> Some (if tm_running t then t\<lparr>tm_phase := TmCall, tm_calls := Suc (tm_calls t)\<rparr>
                         else t\<lparr>tm_phase := TmPromise\<rparr>)
      | TmCall \<Rightarrow> Some (t\<lparr>tm_phase := (if again then TmLock else TmPromise)\<rparr>)
      | TmLock \<Rightarrow> Some (t\<lparr>tm_phase := (if tm_running t then TmWait else TmCheck)\<rparr>)
      | TmPromise \<Rightarrow> Some (t\<lparr>tm_done := True, tm_phase := TmUnregist\<rparr>)
      | TmUnregist \<Rightarrow>
          Some (if busy then t\<lparr>tm_phase := TmExit\<rparr>
                else if tm_handle t then t\<lparr>tm_managed := False, tm_phase := TmExit\<rparr>
                else t\<lparr>tm_managed := False, tm_running := False, tm_phase := TmSelfWait\<rparr>)
      | _ \<Rightarrow> None)"

definition timer_elapsed :: "timer \<Rightarrow> timer option" where
  "timer_elapsed t =
     (if tm_phase t \<in> {TmFirstWait, TmWait} then Some (t\<lparr>tm_phase := TmCheck, tm_ticks := Suc (tm_ticks t)\<rparr>)
      else None)"

text \<open>
  The owner lets go of the handle: while the manager still holds the timer, nothing else happens;
  otherwise the destructor stops it and waits.
\<close>

definition timer_drop :: "timer \<Rightarrow> timer" where
  "timer_drop t = (let t1 = t\<lparr>tm_handle := False\<rparr> in if tm_managed t1 then t1 else timer_stop t1)"

datatype timer_event = TmeStop | TmeStep bool bool | TmeElapsed | TmeDrop

definition timer_event :: "timer_event \<Rightarrow> timer \<Rightarrow> timer option" where
  "timer_event e t =
     (case e of TmeStop \<Rightarrow> Some (timer_stop t) | TmeStep again busy \<Rightarrow> timer_worker again busy t
      | TmeElapsed \<Rightarrow> timer_elapsed t | TmeDrop \<Rightarrow> Some (timer_drop t))"

lemmas timer_defs [op_defs] = timer_create_def timer_start_def timer_async_def timer_stop_def
  timer_worker_def timer_elapsed_def timer_drop_def timer_event_def

section \<open>TimerManager\<close>

text \<open>Timers are numbered; \<open>mg_locked\<close> says that some thread holds the manager's lock.\<close>

record timer_manager =
  mg_timers :: "nat list"
  mg_locked :: bool
  mg_shutingdown :: bool

definition manager_new :: timer_manager where
  "manager_new = \<lparr>mg_timers = [], mg_locked = False, mg_shutingdown = False\<rparr>"

definition manager_regist :: "nat \<Rightarrow> timer_manager \<Rightarrow> timer_manager" where
  "manager_regist timer m = (if mg_shutingdown m then m else m\<lparr>mg_timers := mg_timers m @ [timer]\<rparr>)"

definition manager_unregist :: "(nat \<Rightarrow> bool) \<Rightarrow> nat \<Rightarrow> timer_manager \<Rightarrow> timer_manager" where
  "manager_unregist status timer m =
     (if mg_locked m then m
      else m\<lparr>mg_timers := filter (\<lambda>t. \<not> (t = timer \<or> \<not> status t)) (mg_timers m)\<rparr>)"

text \<open>\<open>force_stop_all\<close> up to the loop, with the lock taken; the timers it stops and waits for, in order; its end.\<close>

definition manager_force_begin :: "timer_manager \<Rightarrow> nat list \<times> timer_manager" where
  "manager_force_begin m = (mg_timers m, m\<lparr>mg_shutingdown := True, mg_locked := True\<rparr>)"

definition manager_force_end :: "timer_manager \<Rightarrow> timer_manager" where
  "manager_force_end m = m\<lparr>mg_timers := [], mg_locked := False\<rparr>"

section \<open>Lemmas\<close>

definition before_call :: "timer \<Rightarrow> bool" where
  "before_call t \<longleftrightarrow> (tm_running t \<and> tm_phase t = TmCheck)"

definition timer_pace :: "timer \<Rightarrow> bool" where
  "timer_pace t \<longleftrightarrow> (if before_call t then tm_calls t < tm_ticks t else tm_calls t \<le> tm_ticks t) \<and>
     tm_phase t \<noteq> TmNone"

lemma timer_pace_step: "timer_pace t \<Longrightarrow> timer_event e t = Some u \<Longrightarrow> timer_pace u"
  by (cases e) (auto simp: timer_pace_def before_call_def timer_event_def timer_stop_def timer_worker_def
      timer_elapsed_def timer_drop_def Let_def split: timer_phase.splits if_splits)

text \<open>How many more steps a stopped timer's thread makes.\<close>

fun steps_left :: "timer_phase \<Rightarrow> nat" where
  "steps_left TmFirstLock = 4"
| "steps_left TmFirstWait = 4"
| "steps_left TmCall = 5"
| "steps_left TmLock = 4"
| "steps_left TmWait = 4"
| "steps_left TmCheck = 3"
| "steps_left TmPromise = 2"
| "steps_left TmUnregist = 1"
| "steps_left _ = 0"

lemma stopped_timer_step:
  "\<not> tm_running t \<Longrightarrow> timer_event e t = Some u \<Longrightarrow>
   \<not> tm_running u \<and> tm_calls u = tm_calls t \<and> steps_left (tm_phase u) \<le> steps_left (tm_phase t) \<and>
   (e \<notin> {TmeStop, TmeDrop} \<longrightarrow> steps_left (tm_phase u) < steps_left (tm_phase t))"
  by (cases e) (auto simp: timer_event_def timer_stop_def timer_worker_def timer_elapsed_def timer_drop_def
      Let_def split: timer_phase.splits if_splits)

fun thread_steps :: "timer_event list \<Rightarrow> nat" where
  "thread_steps [] = 0"
| "thread_steps (e # es) = (if e \<in> {TmeStop, TmeDrop} then 0 else 1) + thread_steps es"

lemma stopped_timer_run:
  "\<not> tm_running t \<Longrightarrow> run_opt timer_event es t = Some u \<Longrightarrow>
   \<not> tm_running u \<and> tm_calls u = tm_calls t \<and> thread_steps es + steps_left (tm_phase u) \<le> steps_left (tm_phase t)"
proof (induction es arbitrary: t)
  case (Cons e es)
  then obtain v where v: "timer_event e t = Some v" "run_opt timer_event es v = Some u"
    by (auto split: option.splits)
  from Cons.IH [OF _ v(2)] stopped_timer_step [OF Cons.prems(1) v(1)] show ?case by auto
qed simp

section \<open>Properties\<close>

text \<open>
  C25. The pace: in every execution of a started timer the callback has been called at most as often
  as the interval has elapsed, so never before the first interval and never twice in one.
\<close>

theorem timer_calls_paced:
  assumes "timer_start timer_create = ok t" and "run_opt timer_event es t = Some u"
  shows "tm_calls u \<le> tm_ticks u"
proof -
  have "timer_pace u"
    by (rule run_opt_inv [where Q = "\<lambda>_. True" and f = timer_event, OF timer_pace_step])
      (use assms in \<open>auto simp: timer_pace_def before_call_def timer_start_def timer_create_def\<close>)
  then show ?thesis by (auto simp: timer_pace_def split: if_splits)
qed

theorem timer_calls_paced_witness:
  "\<exists>t u. timer_start timer_create = ok t \<and>
     run_opt timer_event [TmeStep True False, TmeElapsed, TmeStep True False] t = Some u \<and> tm_calls u \<le> tm_ticks u"
proof -
  have "\<exists>t u. timer_start timer_create = ok t \<and>
     run_opt timer_event [TmeStep True False, TmeElapsed, TmeStep True False] t = Some u"
    by (simp add: timer_defs)
  then obtain t u where "timer_start timer_create = ok t"
    "run_opt timer_event [TmeStep True False, TmeElapsed, TmeStep True False] t = Some u" by blast
  with timer_calls_paced [OF this] show ?thesis by blast
qed



text \<open>
  A timer whose callback returns false ends without telling: its promise is set, but \<open>status\<close> stays
  true and \<open>start\<close> throws. If it was made by \<open>async\<close>, its thread drops the last reference to the timer
  and blocks for good in the destructor, which waits for this very thread.
\<close>

theorem timer_self_end:
  "(\<exists>t u. timer_start timer_create = ok t \<and>
     run_opt timer_event [TmeStep True False, TmeElapsed, TmeStep True False, TmeStep False False, TmeStep True False, TmeStep True False] t = Some u \<and>
     tm_phase u = TmExit \<and> tm_done u \<and> timer_status u \<and>
     timer_start u = Inl (Thrown (AlreadyRunningException []))) \<and>
   (\<exists>t u. timer_async = ok t \<and>
     run_opt timer_event [TmeStep True False, TmeElapsed, TmeStep True False, TmeStep False False, TmeStep True False, TmeStep True False] t = Some u \<and>
     tm_done u \<and> \<not> timer_wait_returns u \<and> timer_worker again busy u = None \<and> timer_elapsed u = None)"
  by (simp add: timer_defs timer_status_def timer_wait_returns_def)

text \<open>
  The manager forgets timers that are not running: unregistering one timer also drops every timer
  that has been created but not started, so \<open>force_stop_all\<close> does not stop it later; a timer that is
  running and not the one unregistered is kept.
\<close>

theorem manager_forgets_idle_timers:
  assumes "\<not> mg_locked m"
  shows "t \<in> set (fst (manager_force_begin (manager_unregist status x m))) \<longleftrightarrow>
    t \<in> set (mg_timers m) \<and> t \<noteq> x \<and> status t"
  using assms by (auto simp: manager_force_begin_def manager_unregist_def)

theorem manager_forgets_idle_timers_witness:
  "1 \<notin> set (fst (manager_force_begin (manager_unregist (\<lambda>t. t = 2) 0
     (manager_regist 2 (manager_regist 1 (manager_regist 0 manager_new))))))"
  using manager_forgets_idle_timers [of "manager_regist 2 (manager_regist 1 (manager_regist 0 manager_new))"
      1 "\<lambda>t. t = 2" 0]
  by (simp add: manager_regist_def manager_new_def)

end
