(* ===== verification/Singleton.thy ===== *)
theory Singleton
  imports Errors
begin

text \<open>
  The singletons of \<open>Singleton.hpp\<close> and \<open>src/Singleton.cpp\<close>, and \<open>SINGLE_INSTANCE_ONLY\<close> of
  \<open>CommonHeader.hpp\<close>. On Windows \<open>SingletonRegistry::get\<close> looks its entry up under a mutex and creates
  the instance in \<open>std::call_once\<close>; on Linux \<open>LazySingleton::get_instance\<close> tests and sets a static
  pointer. Threads call them concurrently: each critical section, and each access to the unprotected
  static pointer, is one step. Objects and entries are numbered in the order of their creation.
\<close>

section \<open>SingletonRegistry::get (Windows)\<close>

text \<open>The state of a \<open>std::once_flag\<close>: not called, being executed by a thread, returned from.\<close>

datatype once_flag = OnceFree | OnceBusy nat | OnceDone

record registry_entry =
  re_flag :: once_flag
  re_instance :: "nat option"

text \<open>
  A thread in \<open>get(type, factory)\<close>: before the lookup, about to enter \<open>call_once\<close>, inside the factory,
  about to read the instance, returned with a pointer, left by the factory's exception.
\<close>

datatype get_phase =
    Idle | Lookup nat | CallOnce nat nat | Factory nat nat | ReadInstance nat nat
  | Returned nat "nat option" | Threw nat

text \<open>\<open>sr_created\<close> lists the type of every object a factory has made.\<close>

record singleton_registry =
  sr_registry :: "nat \<rightharpoonup> nat"
  sr_entries :: "registry_entry list"
  sr_created :: "nat list"
  sr_thread :: "nat \<Rightarrow> get_phase"

definition registry_start :: singleton_registry where
  "registry_start = \<lparr>sr_registry = Map.empty, sr_entries = [], sr_created = [], sr_thread = (\<lambda>_. Idle)\<rparr>"

definition set_phase :: "nat \<Rightarrow> get_phase \<Rightarrow> singleton_registry \<Rightarrow> singleton_registry" where
  "set_phase i ph s = s\<lparr>sr_thread := (sr_thread s)(i := ph)\<rparr>"

definition set_entry :: "nat \<Rightarrow> registry_entry \<Rightarrow> singleton_registry \<Rightarrow> singleton_registry" where
  "set_entry e en s = s\<lparr>sr_entries := (sr_entries s)[e := en]\<rparr>"

definition singleton_call :: "nat \<Rightarrow> nat \<Rightarrow> singleton_registry \<Rightarrow> singleton_registry option" where
  "singleton_call i ty s =
     (case sr_thread s i of
        Lookup _ \<Rightarrow> None | CallOnce _ _ \<Rightarrow> None | Factory _ _ \<Rightarrow> None | ReadInstance _ _ \<Rightarrow> None
      | _ \<Rightarrow> Some (set_phase i (Lookup ty) s))"

text \<open>
  One step of thread \<open>i\<close>; \<open>works\<close> says whether the factory, when this step is its end, returns an object.
  \<open>call_once\<close> blocks while another thread executes the flag; an exception of the callable leaves the
  flag as if it had not been called.
\<close>

definition singleton_step :: "bool \<Rightarrow> nat \<Rightarrow> singleton_registry \<Rightarrow> singleton_registry option" where
  "singleton_step works i s =
     (case sr_thread s i of
        Lookup ty \<Rightarrow>
          (case sr_registry s ty of
             None \<Rightarrow>
               (let e = length (sr_entries s)
                in Some (set_phase i (CallOnce ty e)
                     (s\<lparr>sr_entries := sr_entries s @ [\<lparr>re_flag = OnceFree, re_instance = None\<rparr>],
                        sr_registry := (sr_registry s)(ty \<mapsto> e)\<rparr>)))
           | Some e \<Rightarrow> Some (set_phase i (CallOnce ty e) s))
      | CallOnce ty e \<Rightarrow>
          (let en = sr_entries s ! e
           in case re_flag en of
                OnceFree \<Rightarrow> Some (set_phase i (Factory ty e) (set_entry e (en\<lparr>re_flag := OnceBusy i\<rparr>) s))
              | OnceBusy _ \<Rightarrow> None
              | OnceDone \<Rightarrow> Some (set_phase i (ReadInstance ty e) s))
      | Factory ty e \<Rightarrow>
          (let en = sr_entries s ! e
           in if works
              then Some (set_phase i (ReadInstance ty e)
                     (set_entry e (en\<lparr>re_flag := OnceDone, re_instance := Some (length (sr_created s))\<rparr>)
                        (s\<lparr>sr_created := sr_created s @ [ty]\<rparr>)))
              else Some (set_phase i (Threw ty) (set_entry e (en\<lparr>re_flag := OnceFree\<rparr>) s)))
      | ReadInstance ty e \<Rightarrow> Some (set_phase i (Returned ty (re_instance (sr_entries s ! e))) s)
      | _ \<Rightarrow> None)"

datatype singleton_event = GetCall nat nat | GetStep bool nat

fun registry_event :: "singleton_event \<Rightarrow> singleton_registry \<Rightarrow> singleton_registry option" where
  "registry_event (GetCall i ty) s = singleton_call i ty s"
| "registry_event (GetStep works i) s = singleton_step works i s"

inductive singleton_next :: "singleton_registry \<Rightarrow> singleton_registry \<Rightarrow> bool" where
  singleton_nextI: "registry_event e s = Some t \<Longrightarrow> singleton_next s t"

inductive_simps singleton_next_iff: "singleton_next s t"

section \<open>LazySingleton::get_instance (Linux)\<close>

text \<open>
  The static \<open>shared_ptr\<close> is initialised to null, under the compiler's guard; the test and the assignment
  after it are plain statements. A thread is before the test, about to create and assign, about to
  copy the pointer into its result, returned.
\<close>

datatype lazy_phase = LzIdle | LzTest | LzMake | LzReturn | LzGot "nat option"

record lazy_singleton =
  lz_instance :: "nat option"
  lz_created :: nat
  lz_thread :: "nat \<Rightarrow> lazy_phase"

definition lazy_start :: lazy_singleton where
  "lazy_start = \<lparr>lz_instance = None, lz_created = 0, lz_thread = (\<lambda>_. LzIdle)\<rparr>"

definition lazy_step :: "nat \<Rightarrow> lazy_singleton \<Rightarrow> lazy_singleton" where
  "lazy_step i s =
     (case lz_thread s i of
        LzTest \<Rightarrow> s\<lparr>lz_thread := (lz_thread s)(i := (if lz_instance s = None then LzMake else LzReturn))\<rparr>
      | LzMake \<Rightarrow> s\<lparr>lz_instance := Some (lz_created s), lz_created := Suc (lz_created s),
                  lz_thread := (lz_thread s)(i := LzReturn)\<rparr>
      | LzReturn \<Rightarrow> s\<lparr>lz_thread := (lz_thread s)(i := LzGot (lz_instance s))\<rparr>
      | _ \<Rightarrow> s\<lparr>lz_thread := (lz_thread s)(i := LzTest)\<rparr>)"

text \<open>A call that no other thread interferes with: enter, test, create if null, return.\<close>

definition lazy_get :: "nat \<Rightarrow> lazy_singleton \<Rightarrow> nat option \<times> lazy_singleton" where
  "lazy_get i s =
     (let t = run_ops lazy_step (if lz_instance s = None then [i, i, i, i] else [i, i, i])
                (s\<lparr>lz_thread := (lz_thread s)(i := LzIdle)\<rparr>)
      in (lz_instance t, t))"

section \<open>Singleton::get_instance (Linux)\<close>

text \<open>
  The eager \<open>Singleton\<close> holds its instance in a static member that is initialised before \<open>main\<close>, once, at a place
  in the order of the program's initialisers that the standard leaves open; calls may come before it and after it.
\<close>

record eager_singleton =
  eg_instance :: "nat option"
  eg_created :: nat

definition eager_start :: eager_singleton where
  "eager_start = \<lparr>eg_instance = None, eg_created = 0\<rparr>"

definition eager_init :: "eager_singleton \<Rightarrow> eager_singleton" where
  "eager_init s = s\<lparr>eg_instance := Some (eg_created s), eg_created := Suc (eg_created s)\<rparr>"

definition eager_get :: "eager_singleton \<Rightarrow> nat option" where
  "eager_get s = eg_instance s"

text \<open>A call made by another static initialiser that happens to run first gets a null pointer.\<close>

lemma eager_one_instance:
  "eager_get eager_start = None" "eager_get (eager_init eager_start) = Some 0" "eg_created (eager_init eager_start) = 1"
  by (simp_all add: eager_get_def eager_init_def eager_start_def)

section \<open>SINGLE_INSTANCE_ONLY\<close>

text \<open>The constructor and the destructor of \<open>InstanceGuard\<close> on the flag \<open>_isSingleInstance\<close>.\<close>

definition guard_construct :: "bool \<Rightarrow> bool res" where
  "guard_construct flag = (if flag then Inl Terminated else ok True)"

definition guard_destroy :: "bool \<Rightarrow> bool" where
  "guard_destroy flag = False"

section \<open>Invariant of the registry\<close>

text \<open>
  An entry whose flag is done holds the only object made for its type; before that there is none. A
  thread in the factory is the one the flag is busy with; a pointer that was returned is the entry's.
\<close>

definition entry_of :: "singleton_registry \<Rightarrow> nat \<rightharpoonup> registry_entry" where
  "entry_of s ty = map_option ((!) (sr_entries s)) (sr_registry s ty)"

definition shape_ok :: "singleton_registry \<Rightarrow> bool" where
  "shape_ok s \<longleftrightarrow> (\<forall>ty e. sr_registry s ty = Some e \<longrightarrow> e < length (sr_entries s)) \<and>
     (\<forall>ty ty' e. sr_registry s ty = Some e \<and> sr_registry s ty' = Some e \<longrightarrow> ty' = ty)"

definition created_ok :: "nat list \<Rightarrow> nat \<Rightarrow> registry_entry option \<Rightarrow> bool" where
  "created_ok created ty en \<longleftrightarrow>
     (if \<exists>x. en = Some x \<and> re_flag x = OnceDone
      then count_list created ty = 1 \<and>
        (\<exists>k. re_instance (the en) = Some k \<and> k < length created \<and> created ! k = ty)
      else ty \<notin> set created)"

definition phase_ok :: "(nat \<rightharpoonup> nat) \<Rightarrow> (nat \<rightharpoonup> registry_entry) \<Rightarrow> nat \<Rightarrow> get_phase \<Rightarrow> bool" where
  "phase_ok reg en i ph \<longleftrightarrow>
     (case ph of
        CallOnce ty e \<Rightarrow> reg ty = Some e
      | Factory ty e \<Rightarrow> reg ty = Some e \<and> map_option re_flag (en ty) = Some (OnceBusy i)
      | ReadInstance ty e \<Rightarrow> reg ty = Some e \<and> map_option re_flag (en ty) = Some OnceDone
      | Returned ty p \<Rightarrow> map_option re_flag (en ty) = Some OnceDone \<and> p = re_instance (the (en ty))
      | _ \<Rightarrow> True)"

definition busy_ok :: "(nat \<rightharpoonup> registry_entry) \<Rightarrow> (nat \<Rightarrow> get_phase) \<Rightarrow> bool" where
  "busy_ok en th \<longleftrightarrow> (\<forall>ty i. map_option re_flag (en ty) = Some (OnceBusy i) \<longrightarrow> (\<exists>e. th i = Factory ty e))"

definition registry_inv :: "singleton_registry \<Rightarrow> bool" where
  "registry_inv s \<longleftrightarrow> shape_ok s \<and> (\<forall>ty. created_ok (sr_created s) ty (entry_of s ty)) \<and>
     (\<forall>i. phase_ok (sr_registry s) (entry_of s) i (sr_thread s i)) \<and> busy_ok (entry_of s) (sr_thread s)"

lemma registry_inv_start: "registry_inv registry_start"
  by (simp add: registry_inv_def registry_start_def shape_ok_def created_ok_def phase_ok_def busy_ok_def entry_of_def)

lemma set_phase_simps [simp]:
  "sr_registry (set_phase i ph s) = sr_registry s" "sr_entries (set_phase i ph s) = sr_entries s"
  "sr_created (set_phase i ph s) = sr_created s" "sr_thread (set_phase i ph s) = (sr_thread s)(i := ph)"
  by (simp_all add: set_phase_def)

lemma set_entry_simps [simp]:
  "sr_registry (set_entry e en s) = sr_registry s" "sr_entries (set_entry e en s) = (sr_entries s)[e := en]"
  "sr_created (set_entry e en s) = sr_created s" "sr_thread (set_entry e en s) = sr_thread s"
  by (simp_all add: set_entry_def)

lemma entry_of_update:
  assumes "shape_ok s" "sr_registry s ty = Some e" "sr_registry t = sr_registry s"
    and "sr_entries t = (sr_entries s)[e := en]"
  shows "entry_of t = (entry_of s)(ty \<mapsto> en)"
proof
  fix ty'
  show "entry_of t ty' = ((entry_of s)(ty \<mapsto> en)) ty'"
    using assms unfolding shape_ok_def
    by (cases "sr_registry s ty'") (auto simp: entry_of_def nth_list_update)
qed

lemma entry_of_new:
  assumes "shape_ok s" "sr_registry s ty = None" "sr_registry t = (sr_registry s)(ty \<mapsto> length (sr_entries s))"
    and "sr_entries t = sr_entries s @ [en]"
  shows "entry_of t = (entry_of s)(ty \<mapsto> en)" "shape_ok t"
proof -
  show "entry_of t = (entry_of s)(ty \<mapsto> en)"
  proof
    fix ty'
    show "entry_of t ty' = ((entry_of s)(ty \<mapsto> en)) ty'"
      using assms unfolding shape_ok_def
      by (cases "sr_registry s ty'") (auto simp: entry_of_def nth_append)
  qed
  have "e \<noteq> length (sr_entries s)" if "sr_registry s ty' = Some e" for ty' e
    using assms(1) that unfolding shape_ok_def by blast
  then show "shape_ok t" using assms unfolding shape_ok_def by (auto simp: less_SucI)
qed

lemma registry_inv_D:
  assumes "registry_inv s"
  shows "shape_ok s" "created_ok (sr_created s) ty (entry_of s ty)"
    "phase_ok (sr_registry s) (entry_of s) i (sr_thread s i)" "busy_ok (entry_of s) (sr_thread s)"
  using assms by (simp_all add: registry_inv_def)

text \<open>A thread moves on without touching the registry.\<close>

lemma registry_inv_phase:
  assumes "registry_inv s" "phase_ok (sr_registry s) (entry_of s) i ph" "\<forall>ty e. sr_thread s i \<noteq> Factory ty e"
  shows "registry_inv (set_phase i ph s)"
proof -
  have "entry_of (set_phase i ph s) = entry_of s" by (rule ext) (simp add: entry_of_def)
  moreover have "busy_ok (entry_of s) ((sr_thread s)(i := ph))"
    using assms(1,3) unfolding registry_inv_def busy_ok_def by fastforce
  ultimately show ?thesis using assms(1,2) by (simp add: registry_inv_def shape_ok_def)
qed

text \<open>A thread moves on and writes the entry of one type, which was not done.\<close>

lemma phases_kept:
  assumes "phase_ok reg en i ph" "reg \<subseteq>\<^sub>m reg'" "map_option re_flag (en ty) \<noteq> Some OnceDone"
    and "\<forall>e. ph \<noteq> Factory ty e"
  shows "phase_ok reg' (en(ty \<mapsto> x)) i ph"
proof -
  have "reg' a = Some b" if "reg a = Some b" for a b
    using assms(2) that unfolding map_le_def by (metis domI)
  then show ?thesis using assms(1,3,4) by (auto simp: phase_ok_def split: get_phase.splits)
qed

lemma registry_inv_entry:
  assumes inv: "registry_inv s" and shape: "shape_ok t" "sr_registry s \<subseteq>\<^sub>m sr_registry t"
    and en: "entry_of t = (entry_of s)(ty \<mapsto> en)" and th: "sr_thread t = (sr_thread s)(i := ph)"
    and created: "created_ok (sr_created t) ty (Some en)"
      "\<And>ty'. ty' \<noteq> ty \<Longrightarrow> created_ok (sr_created t) ty' (entry_of s ty')"
    and flag: "map_option re_flag (entry_of s ty) \<noteq> Some OnceDone"
    and free: "\<And>j e. j \<noteq> i \<Longrightarrow> sr_thread s j \<noteq> Factory ty e"
    and mine: "\<And>ty' e. sr_thread s i = Factory ty' e \<Longrightarrow> ty' = ty"
    and ph: "phase_ok (sr_registry t) (entry_of t) i ph"
    and busy: "\<And>j. re_flag en = OnceBusy j \<Longrightarrow> j = i \<and> (\<exists>e. ph = Factory ty e)"
  shows "registry_inv t"
proof -
  have "phase_ok (sr_registry t) (entry_of t) j (sr_thread t j)" for j
  proof (cases "j = i")
    case False
    have "phase_ok (sr_registry s) (entry_of s) j (sr_thread s j)" using inv by (simp add: registry_inv_def)
    then have "phase_ok (sr_registry t) ((entry_of s)(ty \<mapsto> en)) j (sr_thread s j)"
      using shape(2) flag by (rule phases_kept) (use free [OF False] in simp)
    then show ?thesis using False by (simp add: en th)
  qed (use ph in \<open>simp add: th\<close>)
  moreover have "busy_ok (entry_of t) (sr_thread t)"
    unfolding busy_ok_def
  proof (intro allI impI)
    fix ty' j
    assume a: "map_option re_flag (entry_of t ty') = Some (OnceBusy j)"
    show "\<exists>e. sr_thread t j = Factory ty' e"
    proof (cases "ty' = ty")
      case True
      then show ?thesis using a busy [of j] by (simp add: en th)
    next
      case False
      then obtain e where "sr_thread s j = Factory ty' e"
        using a registry_inv_D(4) [OF inv] by (auto simp: en busy_ok_def)
      then show ?thesis using mine [of ty' e] False by (cases "j = i") (simp_all add: th)
    qed
  qed
  ultimately show ?thesis using shape(1) created by (simp add: registry_inv_def en)
qed

text \<open>No thread other than the one the flag names is in the factory of a type.\<close>

lemma factory_alone:
  assumes inv: "registry_inv s" and one: "\<And>j. map_option re_flag (entry_of s ty) = Some (OnceBusy j) \<Longrightarrow> j = i"
    and "j \<noteq> i"
  shows "sr_thread s j \<noteq> Factory ty e"
proof
  assume "sr_thread s j = Factory ty e"
  then have "map_option re_flag (entry_of s ty) = Some (OnceBusy j)"
    using registry_inv_D(3) [OF inv, of j] by (simp add: phase_ok_def)
  with one assms(3) show False by blast
qed

lemma created_other:
  assumes "created_ok cr ty en" "ty' \<noteq> ty"
  shows "created_ok (cr @ [ty']) ty en"
proof (cases "\<exists>x. en = Some x \<and> re_flag x = OnceDone")
  case True
  with assms obtain k where "re_instance (the en) = Some k" "k < length cr" "cr ! k = ty" "count_list cr ty = 1"
    unfolding created_ok_def by auto
  then show ?thesis using True assms(2) unfolding created_ok_def by (auto simp: nth_append)
next
  case False
  then show ?thesis using assms unfolding created_ok_def by (simp only: if_False) simp
qed

lemma entry_of_Some: "sr_registry s ty = Some e \<Longrightarrow> entry_of s ty = Some (sr_entries s ! e)"
  by (simp add: entry_of_def)

lemma singleton_lookup_inv:
  assumes inv: "registry_inv s" and ph: "sr_thread s i = Lookup ty" and step: "singleton_step works i s = Some t"
  shows "registry_inv t"
proof (cases "sr_registry s ty")
  case None
  let ?en = "\<lparr>re_flag = OnceFree, re_instance = None\<rparr>"
  have t: "t = set_phase i (CallOnce ty (length (sr_entries s)))
      (s\<lparr>sr_entries := sr_entries s @ [?en], sr_registry := (sr_registry s)(ty \<mapsto> length (sr_entries s))\<rparr>)"
    using step ph None by (simp add: singleton_step_def Let_def)
  have e: "entry_of t = (entry_of s)(ty \<mapsto> ?en)" and shape: "shape_ok t"
    using entry_of_new [OF registry_inv_D(1) [OF inv] None, of t ?en] by (simp_all add: t)
  have none: "entry_of s ty = None" using None by (simp add: entry_of_def)
  show ?thesis
  proof (rule registry_inv_entry [OF inv shape _ e])
    show "sr_registry s \<subseteq>\<^sub>m sr_registry t" using None by (auto simp: t map_le_def)
    show "created_ok (sr_created t) ty (Some ?en)"
      using registry_inv_D(2) [OF inv, of ty] none by (simp add: t created_ok_def)
    show "phase_ok (sr_registry t) (entry_of t) i (CallOnce ty (length (sr_entries s)))"
      by (simp add: t phase_ok_def)
      show "created_ok (sr_created t) ty' (entry_of s ty')" for ty'
      using registry_inv_D(2) [OF inv] by (simp add: t)
    show "sr_thread s j \<noteq> Factory ty e" if "j \<noteq> i" for j e
      by (rule factory_alone [OF inv _ that]) (simp add: none)
  qed (use none ph in \<open>simp_all add: t\<close>)
next
  case (Some e)
  then have "t = set_phase i (CallOnce ty e) s" using step ph by (simp add: singleton_step_def)
  then show ?thesis using registry_inv_phase [OF inv] Some ph by (simp add: phase_ok_def)
qed

lemma singleton_once_inv:
  assumes inv: "registry_inv s" and ph: "sr_thread s i = CallOnce ty e" and step: "singleton_step works i s = Some t"
  shows "registry_inv t"
proof -
  have reg: "sr_registry s ty = Some e" using registry_inv_D(3) [OF inv, of i] ph by (simp add: phase_ok_def)
  note en = entry_of_Some [OF reg]
  show ?thesis
  proof (cases "re_flag (sr_entries s ! e)")
    case OnceFree
    let ?en = "(sr_entries s ! e)\<lparr>re_flag := OnceBusy i\<rparr>"
    have t: "t = set_phase i (Factory ty e) (set_entry e ?en s)"
      using step ph OnceFree by (simp add: singleton_step_def Let_def)
    have e: "entry_of t = (entry_of s)(ty \<mapsto> ?en)"
      using entry_of_update [OF registry_inv_D(1) [OF inv] reg, of t ?en] by (simp add: t)
    show ?thesis
    proof (rule registry_inv_entry [OF inv _ _ e])
      show "shape_ok t" using registry_inv_D(1) [OF inv] by (simp add: t shape_ok_def)
      show "created_ok (sr_created t) ty (Some ?en)"
        using registry_inv_D(2) [OF inv, of ty] en OnceFree by (simp add: t created_ok_def)
      show "phase_ok (sr_registry t) (entry_of t) i (Factory ty e)" using reg by (simp add: phase_ok_def e) (simp add: t)
        show "created_ok (sr_created t) ty' (entry_of s ty')" for ty'
      using registry_inv_D(2) [OF inv] by (simp add: t)
    show "sr_thread s j \<noteq> Factory ty e'" if "j \<noteq> i" for j e'
      by (rule factory_alone [OF inv _ that]) (simp add: en OnceFree)
  qed (use en OnceFree ph in \<open>simp_all add: t\<close>)
  next
    case (OnceBusy j)
    then show ?thesis using step ph by (simp add: singleton_step_def Let_def)
  next
    case OnceDone
    then have "t = set_phase i (ReadInstance ty e) s" using step ph by (simp add: singleton_step_def Let_def)
    then show ?thesis using registry_inv_phase [OF inv] OnceDone reg en ph by (simp add: phase_ok_def)
  qed
qed

lemma singleton_factory_inv:
  assumes inv: "registry_inv s" and ph: "sr_thread s i = Factory ty e" and step: "singleton_step works i s = Some t"
  shows "registry_inv t"
proof -
  have reg: "sr_registry s ty = Some e" and flag: "re_flag (sr_entries s ! e) = OnceBusy i"
    using registry_inv_D(3) [OF inv, of i] ph by (auto simp: phase_ok_def entry_of_def)
  note en = entry_of_Some [OF reg]
  have new: "ty \<notin> set (sr_created s)" using registry_inv_D(2) [OF inv, of ty] en flag by (simp add: created_ok_def)
  have alone: "sr_thread s j \<noteq> Factory ty e'" if "j \<noteq> i" for j e'
    by (rule factory_alone [OF inv _ that]) (simp add: en flag)
  define works_en where "works_en = (if works
    then (sr_entries s ! e)\<lparr>re_flag := OnceDone, re_instance := Some (length (sr_created s))\<rparr>
    else (sr_entries s ! e)\<lparr>re_flag := OnceFree\<rparr>)"
  define ph' where "ph' = (if works then ReadInstance ty e else Threw ty)"
  have t: "t = set_phase i ph' (set_entry e works_en
      (s\<lparr>sr_created := sr_created s @ (if works then [ty] else [])\<rparr>))"
    using step ph by (auto simp: singleton_step_def Let_def works_en_def ph'_def split: if_splits)
  have e: "entry_of t = (entry_of s)(ty \<mapsto> works_en)"
    using entry_of_update [OF registry_inv_D(1) [OF inv] reg, of t works_en] by (simp add: t)
  show ?thesis
  proof (rule registry_inv_entry [OF inv _ _ e])
    show "shape_ok t" using registry_inv_D(1) [OF inv] by (simp add: t shape_ok_def)
    show "created_ok (sr_created t) ty (Some works_en)"
      using new by (simp add: t works_en_def created_ok_def count_notin)
    show "created_ok (sr_created t) ty' (entry_of s ty')" if "ty' \<noteq> ty" for ty'
      using registry_inv_D(2) [OF inv, of ty'] created_other [of _ ty' _ ty] that by (simp add: t)
    show "phase_ok (sr_registry t) (entry_of t) i ph'"
      using reg by (simp add: phase_ok_def e ph'_def works_en_def) (simp add: t)
    show "\<And>j. re_flag works_en = OnceBusy j \<Longrightarrow> j = i \<and> (\<exists>e. ph' = Factory ty e)"
      by (simp add: works_en_def split: if_splits)
  qed (use alone en flag ph in \<open>simp_all add: t\<close>)
qed

lemma singleton_next_inv:
  assumes inv: "registry_inv s" and "singleton_next s t"
  shows "registry_inv t"
proof -
  from assms(2) obtain e where e: "registry_event e s = Some t" by (auto simp: singleton_next_iff)
  show ?thesis
  proof (cases e)
    case (GetCall i ty)
    then show ?thesis using e registry_inv_phase [OF inv, of i "Lookup ty"]
      by (auto simp: singleton_call_def phase_ok_def split: get_phase.splits)
  next
    case (GetStep works i)
    then have step: "singleton_step works i s = Some t" using e by simp
    show ?thesis
    proof (cases "sr_thread s i")
      case (ReadInstance ty e)
      then have t: "t = set_phase i (Returned ty (re_instance (sr_entries s ! e))) s"
        using step by (simp add: singleton_step_def)
      have "sr_registry s ty = Some e" "map_option re_flag (entry_of s ty) = Some OnceDone"
        using registry_inv_D(3) [OF inv, of i] ReadInstance by (auto simp: phase_ok_def)
      then show ?thesis using registry_inv_phase [OF inv] ReadInstance by (simp add: t phase_ok_def entry_of_def)
    qed (use step singleton_lookup_inv [OF inv] singleton_once_inv [OF inv] singleton_factory_inv [OF inv]
      in \<open>auto simp: singleton_step_def\<close>)
  qed
qed

interpretation sg: stepping "\<lambda>s. s = registry_start" singleton_next registry_inv
  by unfold_locales (auto simp: registry_inv_start intro: singleton_next_inv)

section \<open>Properties\<close>

definition in_call :: "get_phase \<Rightarrow> bool" where
  "in_call ph \<longleftrightarrow> (case ph of Idle \<Rightarrow> False | Returned _ _ \<Rightarrow> False | Threw _ \<Rightarrow> False | _ \<Rightarrow> True)"

text \<open>A thread that waits for a busy flag waits for one that is in the factory, and can go on.\<close>

lemma singleton_progress:
  assumes inv: "registry_inv s" and "in_call (sr_thread s i)"
  shows "\<exists>j t. singleton_step works j s = Some t"
proof (cases "\<exists>j ty e. sr_thread s j = Factory ty e")
  case True
  then obtain j ty e where "sr_thread s j = Factory ty e" by blast
  then show ?thesis by (intro exI [of _ j]) (simp add: singleton_step_def Let_def)
next
  case False
  have "re_flag (sr_entries s ! e) \<noteq> OnceBusy j" if "sr_thread s i = CallOnce ty e" for ty e j
    using registry_inv_D(3) [OF inv, of i] registry_inv_D(4) [OF inv] that False
    by (auto simp: phase_ok_def busy_ok_def entry_of_def)
  then show ?thesis using assms(2) False
    by (intro exI [of _ i])
      (auto simp: in_call_def singleton_step_def Let_def split: get_phase.splits option.splits once_flag.splits)
qed

text \<open>
  C27. Whatever the threads of the process do, the Windows registry makes at most one object of a type,
  even when factories throw: all calls for a type that return give the same pointer, which is not
  null and points to the object of that type; and calls never block each other for good.
\<close>

theorem singleton_one_instance:
  assumes "reach (\<lambda>s. s = registry_start) singleton_next s"
  shows "count_list (sr_created s) ty \<le> 1 \<and>
    (sr_thread s i = Returned ty p \<longrightarrow>
      (\<exists>k. p = Some k \<and> k < length (sr_created s) \<and> sr_created s ! k = ty)) \<and>
    (sr_thread s i = Returned ty p \<and> sr_thread s j = Returned ty q \<longrightarrow> p = q) \<and>
    (in_call (sr_thread s i) \<longrightarrow> (\<exists>j t. singleton_step works j s = Some t))"
proof -
  have inv: "registry_inv s" using assms by (rule sg.reach_inv)
  have ret: "map_option re_flag (entry_of s ty) = Some OnceDone \<and> p = re_instance (the (entry_of s ty))"
    if "sr_thread s i = Returned ty p" for i p
    using registry_inv_D(3) [OF inv, of i] that by (simp add: phase_ok_def)
  have "count_list (sr_created s) ty \<le> 1"
    using registry_inv_D(2) [OF inv, of ty] unfolding created_ok_def by (auto split: if_splits)
  moreover have "\<exists>k. p = Some k \<and> k < length (sr_created s) \<and> sr_created s ! k = ty"
    if "sr_thread s i = Returned ty p"
    using registry_inv_D(2) [OF inv, of ty] ret [OF that] by (auto simp: created_ok_def)
  ultimately show ?thesis using ret singleton_progress [OF inv] by blast
qed

definition two_callers :: "singleton_event list" where
  "two_callers = [GetCall 0 7, GetCall 1 7, GetStep True 0, GetStep True 1, GetStep True 1, GetStep False 1,
     GetStep True 0, GetStep True 0, GetStep True 0, GetCall 1 7, GetStep True 1, GetStep True 1, GetStep True 1]"

theorem singleton_one_instance_witness:
  "\<exists>s. run_opt registry_event two_callers registry_start = Some s \<and> sr_thread s 0 = Returned 7 (Some 0) \<and>
     sr_thread s 1 = Returned 7 (Some 0) \<and> count_list (sr_created s) 7 \<le> 1"
proof -
  have "\<exists>s. run_opt registry_event two_callers registry_start = Some s \<and> sr_thread s 0 = Returned 7 (Some 0) \<and>
     sr_thread s 1 = Returned 7 (Some 0)"
    by (simp add: two_callers_def registry_start_def singleton_call_def singleton_step_def set_phase_def
        set_entry_def Let_def)
  then obtain s where s: "run_opt registry_event two_callers registry_start = Some s"
      "sr_thread s 0 = Returned 7 (Some 0)" "sr_thread s 1 = Returned 7 (Some 0)" by blast
  have "reach (\<lambda>s. s = registry_start) singleton_next s"
    by (rule run_opt_reach [OF singleton_nextI reach_init s(1)]) simp_all
  from singleton_one_instance [OF this] s show ?thesis by blast
qed

fun lazy_gets :: "nat list \<Rightarrow> lazy_singleton \<Rightarrow> nat option list" where
  "lazy_gets [] s = []"
| "lazy_gets (i # is) s = (let (p, t) = lazy_get i s in p # lazy_gets is t)"

lemma lazy_get_same: "lz_instance s = Some k \<Longrightarrow> fst (lazy_get i s) = Some k \<and> lz_instance (snd (lazy_get i s)) = Some k"
  by (simp add: lazy_get_def lazy_step_def Let_def)

lemma lazy_gets_same: "lz_instance s = Some k \<Longrightarrow> set (lazy_gets is s) \<subseteq> {Some k}"
proof (induction "is" arbitrary: s)
  case (Cons i "is")
  obtain p t where g: "lazy_get i s = (p, t)" by (cases "lazy_get i s")
  with lazy_get_same [OF Cons.prems, of i] Cons.IH [of t] show ?case by simp
qed simp

text \<open>
  \<open>LazySingleton\<close> on Linux is a singleton as long as calls do not overlap: all of them give the first
  object. Two first calls that overlap both find the pointer null: two objects are made, and the two
  threads get different ones.
\<close>

theorem lazy_singleton_race:
  "set (lazy_gets is lazy_start) \<subseteq> {Some 0} \<and>
   (let s = run_ops lazy_step [0, 0, 1, 1, 0, 0, 1, 1] lazy_start
    in lz_created s = 2 \<and> lz_thread s 0 = LzGot (Some 0) \<and> lz_thread s 1 = LzGot (Some 1))"
proof (rule conjI)
  show "set (lazy_gets is lazy_start) \<subseteq> {Some 0}"
  proof (cases "is")
    case (Cons i js)
    obtain p t where g: "lazy_get i lazy_start = (p, t)" by (cases "lazy_get i lazy_start")
    then have "p = Some 0" "lz_instance t = Some 0"
      by (auto simp: lazy_get_def lazy_step_def lazy_start_def Let_def)
    with lazy_gets_same [of t 0 js] show ?thesis using Cons g by simp
  qed simp
qed (simp add: lazy_step_def lazy_start_def Let_def)

text \<open>One guarded object at a time: a second construction terminates, after a destruction one may follow.\<close>

lemma single_instance_guard:
  "guard_construct False = ok True" "guard_construct True = Inl Terminated"
  "guard_construct (guard_destroy flag) = ok True"
  by (simp_all add: guard_construct_def guard_destroy_def)

end
