(* ===== verification/Lifecycle.thy ===== *)
theory Lifecycle
  imports Errors
begin

text \<open>
  \<open>lifecycle/Application.h\<close>, \<open>src/lifecycle/Application.cpp\<close> and \<open>lifecycle/Resource.hpp\<close>,
  \<open>src/lifecycle/Resource.cpp\<close>: the name of the running binary, the main thread of an application with
  its signals, and the registry of tracked resources that the destructor audits in strict mode.
\<close>

section \<open>The binary's name\<close>

text \<open>
  \<open>get_binary_path\<close>: the system call (\<open>readlink\<close>, \<open>GetModuleFileNameA\<close>) gives the path or fails.
  \<open>std::filesystem::path::filename\<close> is what follows the last separator.
\<close>

definition get_binary_path :: "string option \<Rightarrow> string" where
  "get_binary_path r = (case r of None \<Rightarrow> [] | Some path \<Rightarrow> path)"

definition get_binary_name :: "char set \<Rightarrow> string \<Rightarrow> string" where
  "get_binary_name separators fullPath = rev (takeWhile (\<lambda>c. c \<notin> separators) (rev fullPath))"

record app_names =
  appPath :: string
  appName :: string

text \<open>The globals start as empty path and \<open>application\<close>; the constructor assigns the path to \<open>appName\<close>.\<close>

definition names_start :: app_names where
  "names_start = \<lparr>appPath = [], appName = ''application''\<rparr>"

definition application_names :: "char set \<Rightarrow> string option \<Rightarrow> app_names \<Rightarrow> app_names" where
  "application_names separators r n =
     (let n1 = n\<lparr>appName := get_binary_path r\<rparr>
      in if appPath n1 \<noteq> [] then n1\<lparr>appName := get_binary_name separators (appPath n1)\<rparr> else n1)"

section \<open>Tracked resources (Resource.hpp, Resource.cpp)\<close>

text \<open>\<open>ResourceManager::_resources\<close> is a set of addresses; a \<open>Resource\<close> object is its address.\<close>

type_synonym resource_manager = "nat set"

definition manager_track :: "nat \<Rightarrow> resource_manager \<Rightarrow> resource_manager" where
  "manager_track r m = insert r m"

definition manager_release :: "nat \<Rightarrow> resource_manager \<Rightarrow> resource_manager" where
  "manager_release r m = m - {r}"

definition manager_audit :: "resource_manager \<Rightarrow> unit res" where
  "manager_audit m = (if m \<noteq> {} then Inl (Thrown (BadHandlingException ''unreleases resource'')) else ok ())"

text \<open>
  A \<open>Resource<T>\<close>: its address and the object its weak pointer refers to. \<open>alive\<close> says which objects
  still have an owner. The destructor releases.
\<close>

record resource =
  rs_address :: nat
  rs_object :: "nat option"

definition resource_track :: "nat \<Rightarrow> resource \<times> resource_manager \<Rightarrow> resource \<times> resource_manager" where
  "resource_track obj = (\<lambda>(r, m). (r\<lparr>rs_object := Some obj\<rparr>, manager_track (rs_address r) m))"

definition resource_release :: "resource \<times> resource_manager \<Rightarrow> resource \<times> resource_manager" where
  "resource_release = (\<lambda>(r, m). (r\<lparr>rs_object := None\<rparr>, manager_release (rs_address r) m))"

definition resource_get_ptr :: "(nat \<Rightarrow> bool) \<Rightarrow> resource \<Rightarrow> nat option" where
  "resource_get_ptr alive r = (case rs_object r of Some obj \<Rightarrow> if alive obj then Some obj else None | None \<Rightarrow> None)"

text \<open>\<open>~Application\<close> is \<open>noexcept\<close>: what \<open>audit\<close> throws ends the process.\<close>

definition application_destroy :: "bool \<Rightarrow> resource_manager \<Rightarrow> unit res" where
  "application_destroy strict m =
     (if strict then (case manager_audit m of Inl _ \<Rightarrow> Inl Terminated | Inr u \<Rightarrow> ok u) else ok ())"

datatype resource_event = Track nat nat | Release nat

fun manager_event :: "resource_event \<Rightarrow> resource_manager \<Rightarrow> resource_manager" where
  "manager_event (Track a obj) m = snd (resource_track obj (\<lparr>rs_address = a, rs_object = None\<rparr>, m))"
| "manager_event (Release a) m = snd (resource_release (\<lparr>rs_address = a, rs_object = None\<rparr>, m))"

section \<open>Application::run\<close>

text \<open>
  The body of the application's thread: before \<open>bootup()\<close>, waiting for the future it returned, at the
  loop test, in \<open>sigwait\<close> (or \<open>WaitForSingleObject\<close>), before \<open>shutdown()\<close>, waiting for its future, done;
  \<open>AppFailed\<close> when \<open>bootup\<close> or \<open>shutdown\<close> threw, which ends the process. On Linux the signals of the
  mask stay pending until \<open>sigwait\<close> takes one; a pending signal is not queued twice; signals outside
  the mask keep their default action, which is not modelled. On Windows every
  console event sets one event flag, which nothing resets.
\<close>

datatype signal = SIGTERM | SIGINT | SIGHUP | OtherSignal nat

datatype app_phase =
    AppBoot | AppBootWait | AppLoop | AppSigwait | AppShutdown | AppShutdownWait | AppDone | AppFailed

record application =
  ap_shutdown :: bool
  ap_phase :: app_phase
  ap_pending :: "signal set"
  ap_event :: bool
  ap_boots :: nat
  ap_shutdowns :: nat

definition application_new :: application where
  "application_new = \<lparr>ap_shutdown = False, ap_phase = AppBoot, ap_pending = {}, ap_event = False,
     ap_boots = 0, ap_shutdowns = 0\<rparr>"

definition signal_handler :: "signal \<Rightarrow> application \<Rightarrow> application" where
  "signal_handler sig a =
     (case sig of SIGTERM \<Rightarrow> a\<lparr>ap_shutdown := True\<rparr> | SIGINT \<Rightarrow> a\<lparr>ap_shutdown := True\<rparr> | _ \<Rightarrow> a)"

definition sigset :: "signal set" where "sigset = {SIGTERM, SIGINT, SIGHUP}"

text \<open>
  What happens: the user's \<open>bootup()\<close> or \<open>shutdown()\<close> returns (with a future or \<open>nullptr\<close>) or throws, its
  future becomes ready, a signal is sent to the process, the thread takes a step. \<open>SigwaitTakes s\<close> is
  \<open>sigwait\<close> returning \<open>s\<close>; \<open>WaitTimeout\<close> is the second of the Windows loop.
\<close>

datatype app_event =
    UserReturns bool | UserThrows | FutureReady | SendSignal signal | LoopTest | SigwaitTakes signal
  | WaitObject | WaitTimeout

definition app_step_linux :: "app_event \<Rightarrow> application \<Rightarrow> application option" where
  "app_step_linux e a =
     (case (e, ap_phase a) of
        (UserReturns future, AppBoot) \<Rightarrow>
          Some (a\<lparr>ap_boots := Suc (ap_boots a), ap_phase := (if future then AppBootWait else AppLoop)\<rparr>)
      | (UserReturns future, AppShutdown) \<Rightarrow>
          Some (a\<lparr>ap_shutdowns := Suc (ap_shutdowns a), ap_phase := (if future then AppShutdownWait else AppDone)\<rparr>)
      | (UserThrows, AppBoot) \<Rightarrow> Some (a\<lparr>ap_phase := AppFailed\<rparr>)
      | (UserThrows, AppShutdown) \<Rightarrow> Some (a\<lparr>ap_phase := AppFailed\<rparr>)
      | (FutureReady, AppBootWait) \<Rightarrow> Some (a\<lparr>ap_phase := AppLoop\<rparr>)
      | (FutureReady, AppShutdownWait) \<Rightarrow> Some (a\<lparr>ap_phase := AppDone\<rparr>)
      | (SendSignal sig, _) \<Rightarrow>
          Some (if sig \<in> sigset then a\<lparr>ap_pending := insert sig (ap_pending a)\<rparr> else a)
      | (LoopTest, AppLoop) \<Rightarrow> Some (a\<lparr>ap_phase := (if ap_shutdown a then AppShutdown else AppSigwait)\<rparr>)
      | (SigwaitTakes sig, AppSigwait) \<Rightarrow>
          (if sig \<in> ap_pending a
           then Some (signal_handler sig (a\<lparr>ap_pending := ap_pending a - {sig}, ap_phase := AppLoop\<rparr>))
           else None)
      | _ \<Rightarrow> None)"

definition app_step_windows :: "app_event \<Rightarrow> application \<Rightarrow> application option" where
  "app_step_windows e a =
     (case (e, ap_phase a) of
        (SendSignal _, _) \<Rightarrow> Some (a\<lparr>ap_event := True\<rparr>)
      | (WaitObject, AppSigwait) \<Rightarrow>
          (if ap_event a then Some (signal_handler SIGTERM (a\<lparr>ap_phase := AppLoop\<rparr>)) else None)
      | (WaitTimeout, AppSigwait) \<Rightarrow> (if ap_event a then None else Some (a\<lparr>ap_phase := AppLoop\<rparr>))
      | (SigwaitTakes _, _) \<Rightarrow> None
      | _ \<Rightarrow> app_step_linux e a)"

text \<open>\<open>run\<close> returns 0 after the thread's future, or -1 when the Windows event or handler is not there.\<close>

definition run_result :: "bool \<Rightarrow> bool \<Rightarrow> application \<Rightarrow> int option" where
  "run_result win handler_set a =
     (if win \<and> \<not> handler_set then Some (-1) else if ap_phase a = AppDone then Some 0 else None)"

lemmas app_step_defs [op_defs] = app_step_linux_def app_step_windows_def signal_handler_def sigset_def

definition app_step :: "bool \<Rightarrow> app_event \<Rightarrow> application \<Rightarrow> application option" where
  "app_step win = (if win then app_step_windows else app_step_linux)"

section \<open>Invariant\<close>

text \<open>The counters follow the phase, and only a terminating signal sets the flag.\<close>

definition app_inv :: "bool \<Rightarrow> application \<Rightarrow> bool" where
  "app_inv stopped a \<longleftrightarrow>
     (ap_phase a \<noteq> AppFailed \<longrightarrow> ap_boots a = (if ap_phase a = AppBoot then 0 else 1)) \<and>
     ap_boots a \<le> 1 \<and>
     ap_shutdowns a = (if ap_phase a \<in> {AppShutdownWait, AppDone} then 1 else 0) \<and>
     (ap_shutdown a \<longrightarrow> stopped) \<and>
     (ap_phase a \<in> {AppShutdown, AppShutdownWait, AppDone} \<longrightarrow> ap_shutdown a) \<and>
     ap_pending a \<subseteq> sigset \<and> (ap_pending a \<inter> {SIGTERM, SIGINT} \<noteq> {} \<longrightarrow> stopped) \<and> (ap_event a \<longrightarrow> stopped)"

definition stopping :: "bool \<Rightarrow> app_event \<Rightarrow> bool" where
  "stopping win e \<longleftrightarrow> (\<exists>sig. e = SendSignal sig \<and> (win \<or> sig \<in> {SIGTERM, SIGINT}))"

lemma app_inv_new: "app_inv False application_new"
  by (simp add: app_inv_def application_new_def)

lemma app_linux_inv:
  assumes "app_inv stopped a" "app_step_linux e a = Some b"
  shows "app_inv (stopped \<or> stopping False e) b"
proof (cases e)
  case (SendSignal sig)
  then have "b = (if sig \<in> sigset then a\<lparr>ap_pending := insert sig (ap_pending a)\<rparr> else a)"
    using assms(2) by (simp add: app_step_linux_def)
  then show ?thesis using assms(1) SendSignal by (auto simp: app_inv_def stopping_def)
next
  case (SigwaitTakes sig)
  then have b: "ap_phase a = AppSigwait" "sig \<in> ap_pending a"
      "b = signal_handler sig (a\<lparr>ap_pending := ap_pending a - {sig}, ap_phase := AppLoop\<rparr>)"
    using assms(2) by (cases "ap_phase a"; simp add: app_step_linux_def split: if_splits)+
  then show ?thesis using assms(1) by (cases sig) (auto simp: app_inv_def signal_handler_def)
qed (use assms in \<open>(cases "ap_phase a"; simp add: app_step_linux_def; clarsimp simp: app_inv_def split: if_splits)+\<close>)

lemma app_windows_inv:
  assumes "app_inv stopped a" "app_step_windows e a = Some b"
  shows "app_inv (stopped \<or> stopping True e) b"
proof (cases "(\<exists>sig. e = SendSignal sig) \<or> e = WaitObject \<or> e = WaitTimeout")
  case True
  then have "e = WaitTimeout \<and> b = a\<lparr>ap_phase := AppLoop\<rparr> \<and> ap_phase a = AppSigwait \<or>
     e = WaitObject \<and> ap_event a \<and> b = a\<lparr>ap_phase := AppLoop, ap_shutdown := True\<rparr> \<and> ap_phase a = AppSigwait \<or>
     (\<exists>sig. e = SendSignal sig) \<and> b = a\<lparr>ap_event := True\<rparr>" using assms(2)
    by (elim disjE exE; cases "ap_phase a"; simp add: app_step_defs split: if_splits)
  then show ?thesis using assms(1)
    by (elim disjE conjE exE) (simp_all add: app_inv_def stopping_def)
next
  case False
  then have "app_step_linux e a = Some b"
    using assms(2) by (cases e; cases "ap_phase a") (simp_all add: app_step_windows_def)
  moreover have "\<not> stopping True e" "\<not> stopping False e" using False by (auto simp: stopping_def)
  ultimately show ?thesis using app_linux_inv [OF assms(1)] by fastforce
qed

lemma app_step_inv:
  "app_inv stopped a \<Longrightarrow> app_step win e a = Some b \<Longrightarrow> app_inv (stopped \<or> stopping win e) b"
  using app_linux_inv app_windows_inv by (cases win) (auto simp: app_step_def)

lemma app_run_inv:
  "app_inv stopped a \<Longrightarrow> run_opt (app_step win) es a = Some b \<Longrightarrow>
   app_inv (stopped \<or> (\<exists>e\<in>set es. stopping win e)) b"
proof (induction es arbitrary: a stopped)
  case (Cons e es)
  then obtain u where u: "app_step win e a = Some u" "run_opt (app_step win) es u = Some b"
    by (auto split: option.splits)
  from Cons.IH [OF app_step_inv [OF Cons.prems(1) u(1)] u(2)] show ?case by (simp add: disj_assoc)
qed simp

section \<open>Properties\<close>

text \<open>
  C29. An application boots once and shuts down once, in this order, on either platform: \<open>shutdown()\<close> is
  called only after \<open>bootup()\<close> and its future, and only when SIGTERM or SIGINT (on Windows: any console
  event) was sent before; SIGHUP is taken and ignored. \<open>run\<close> returns 0 only after that.
\<close>

theorem application_lifecycle:
  assumes "run_opt (app_step win) es application_new = Some a"
  shows "ap_boots a \<le> 1 \<and> ap_shutdowns a \<le> ap_boots a \<and>
    (ap_phase a \<in> {AppShutdown, AppShutdownWait, AppDone} \<longrightarrow> ap_boots a = 1 \<and> (\<exists>e\<in>set es. stopping win e)) \<and>
    (ap_phase a \<noteq> AppFailed \<and> 0 < ap_shutdowns a \<longrightarrow> ap_phase a \<in> {AppShutdownWait, AppDone}) \<and>
    (run_result win True a = Some 0 \<longrightarrow> ap_shutdowns a = 1 \<and> (\<exists>e\<in>set es. stopping win e))"
  using app_run_inv [OF app_inv_new assms]
  by (auto simp: app_inv_def run_result_def split: if_splits)

definition orderly_run :: "app_event list" where
  "orderly_run = [UserReturns True, SendSignal SIGHUP, FutureReady, LoopTest, SigwaitTakes SIGHUP, LoopTest,
     SendSignal SIGTERM, SigwaitTakes SIGTERM, LoopTest, UserReturns False]"

theorem application_lifecycle_witness:
  "\<exists>a. run_opt (app_step False) orderly_run application_new = Some a \<and> run_result False True a = Some 0 \<and>
     ap_shutdowns a = 1"
proof -
  have "\<exists>a. run_opt (app_step False) orderly_run application_new = Some a \<and> run_result False True a = Some 0"
    by (simp add: orderly_run_def app_step_def app_step_defs application_new_def run_result_def)
  then obtain a where a: "run_opt (app_step False) orderly_run application_new = Some a"
      "run_result False True a = Some 0" by blast
  with application_lifecycle [OF a(1)] show ?thesis by blast
qed

text \<open>The steps of the application's own thread in its loop.\<close>

definition loop_event :: "app_event \<Rightarrow> bool" where
  "loop_event e \<longleftrightarrow> (case e of LoopTest \<Rightarrow> True | SigwaitTakes _ \<Rightarrow> True | _ \<Rightarrow> False)"

definition told_to_stop :: "application \<Rightarrow> bool" where
  "told_to_stop a \<longleftrightarrow> finite (ap_pending a) \<and>
     (ap_phase a = AppShutdown \<or>
      ap_phase a = AppLoop \<and> (ap_shutdown a \<or> ap_pending a \<inter> {SIGTERM, SIGINT} \<noteq> {}) \<or>
      ap_phase a = AppSigwait \<and> ap_pending a \<inter> {SIGTERM, SIGINT} \<noteq> {})"

definition loop_distance :: "application \<Rightarrow> nat" where
  "loop_distance a = (case ap_phase a of
     AppLoop \<Rightarrow> Suc (2 * card (ap_pending a)) | AppSigwait \<Rightarrow> 2 * card (ap_pending a) | _ \<Rightarrow> 0)"

lemma loop_step:
  assumes "told_to_stop a" "loop_event e" "app_step_linux e a = Some b"
  shows "told_to_stop b \<and> loop_distance b < loop_distance a"
proof (cases e)
  case LoopTest
  then show ?thesis using assms
    by (auto simp: app_step_linux_def told_to_stop_def loop_distance_def card_gt_0_iff split: app_phase.splits if_splits)
next
  case (SigwaitTakes sig)
  then have b: "ap_phase a = AppSigwait" "sig \<in> ap_pending a"
      "b = signal_handler sig (a\<lparr>ap_pending := ap_pending a - {sig}, ap_phase := AppLoop\<rparr>)"
    using assms(3) by (auto simp: app_step_linux_def split: app_phase.splits if_splits)
  have "card (ap_pending a) = Suc (card (ap_pending a - {sig}))"
    using b(2) assms(1) by (intro card.remove) (auto simp: told_to_stop_def)
  moreover have "ap_pending b = ap_pending a - {sig}" "ap_phase b = AppLoop"
    "ap_shutdown b \<longleftrightarrow> ap_shutdown a \<or> sig \<in> {SIGTERM, SIGINT}"
    by (auto simp: b(3) signal_handler_def split: signal.splits)
  ultimately show ?thesis using assms(1) b(1) by (auto simp: told_to_stop_def loop_distance_def)
qed (use assms(2) in \<open>simp_all add: loop_event_def\<close>)

lemma loop_run:
  "told_to_stop a \<Longrightarrow> list_all loop_event es \<Longrightarrow> run_opt app_step_linux es a = Some b \<Longrightarrow>
   told_to_stop b \<and> length es + loop_distance b \<le> loop_distance a"
proof (induction es arbitrary: a)
  case (Cons e es)
  then obtain u where u: "app_step_linux e a = Some u" "run_opt app_step_linux es u = Some b"
    by (auto split: option.splits)
  from loop_step [OF Cons.prems(1) _ u(1)] Cons.IH [OF _ _ u(2)] Cons.prems(2) show ?case by auto
qed simp

text \<open>
  C30. A signal to stop is always followed (Linux): once SIGTERM or SIGINT is pending in a running
  application, its thread cannot go on for more than \<open>2n + 1\<close> steps, with \<open>n\<close> signals pending, whichever
  of them \<open>sigwait\<close> picks; and it does not get stuck before it has come to \<open>shutdown()\<close>.
\<close>

theorem application_stops:
  assumes "ap_phase a \<in> {AppLoop, AppSigwait}" "finite (ap_pending a)"
    and "ap_pending a \<inter> {SIGTERM, SIGINT} \<noteq> {}"
    and "list_all loop_event es" "run_opt app_step_linux es a = Some b"
  shows "length es \<le> 2 * card (ap_pending a) + 1 \<and>
    (ap_phase b = AppShutdown \<or> (\<exists>e c. loop_event e \<and> app_step_linux e b = Some c))"
proof -
  have t: "told_to_stop a" using assms(1-3) by (auto simp: told_to_stop_def)
  note r = loop_run [OF t assms(4,5)]
  have "loop_distance a \<le> 2 * card (ap_pending a) + 1" using assms(1) by (auto simp: loop_distance_def)
  moreover have "\<exists>e c. loop_event e \<and> app_step_linux e b = Some c" if running: "ap_phase b \<noteq> AppShutdown"
  proof (cases "ap_phase b = AppLoop")
    case True
    then show ?thesis by (intro exI [of _ LoopTest]) (simp add: loop_event_def app_step_linux_def)
  next
    case False
    then obtain sig where "ap_phase b = AppSigwait" "sig \<in> ap_pending b"
      using r running by (auto simp: told_to_stop_def)
    then show ?thesis by (intro exI [of _ "SigwaitTakes sig"]) (simp add: loop_event_def app_step_linux_def)
  qed
  ultimately show ?thesis using r by fastforce
qed

theorem application_stops_witness:
  "\<exists>b. run_opt app_step_linux [SigwaitTakes SIGHUP, LoopTest, SigwaitTakes SIGINT, LoopTest]
     (application_new\<lparr>ap_phase := AppSigwait, ap_pending := {SIGHUP, SIGINT}\<rparr>) = Some b \<and> ap_phase b = AppShutdown"
proof -
  let ?a = "application_new\<lparr>ap_phase := AppSigwait, ap_pending := {SIGHUP, SIGINT}\<rparr>"
  let ?es = "[SigwaitTakes SIGHUP, LoopTest, SigwaitTakes SIGINT, LoopTest]"
  obtain b where b: "run_opt app_step_linux ?es ?a = Some b" "ap_phase b = AppShutdown"
    by (simp add: app_step_defs application_new_def)
  have "length ?es \<le> 2 * card (ap_pending ?a) + 1 \<and>
    (ap_phase b = AppShutdown \<or> (\<exists>e c. loop_event e \<and> app_step_linux e b = Some c))"
    by (rule application_stops [where a = ?a, OF _ _ _ _ b(1)]) (simp_all add: loop_event_def)
  with b show ?thesis by blast
qed

text \<open>The addresses that were tracked and not released since.\<close>

definition leaked :: "resource_event list \<Rightarrow> nat set" where
  "leaked es = {a. \<exists>us obj vs. es = us @ Track a obj # vs \<and> Release a \<notin> set vs}"

lemma leaked_snoc:
  "leaked (es @ [Track a obj]) = insert a (leaked es)" "leaked (es @ [Release a]) = leaked es - {a}"
proof -
  have track: "b \<in> leaked (es @ [Track a obj]) \<longleftrightarrow> b = a \<or> b \<in> leaked es" for b
  proof
    assume "b \<in> leaked (es @ [Track a obj])"
    then obtain us ob vs where s: "es @ [Track a obj] = us @ Track b ob # vs" "Release b \<notin> set vs"
      by (auto simp: leaked_def)
    then show "b = a \<or> b \<in> leaked es"
      by (cases vs rule: rev_cases) (auto simp: leaked_def)
  next
    assume "b = a \<or> b \<in> leaked es"
    then show "b \<in> leaked (es @ [Track a obj])"
    proof
      assume "b \<in> leaked es"
      then obtain us ob vs where "es = us @ Track b ob # vs" "Release b \<notin> set vs" by (auto simp: leaked_def)
      then have "es @ [Track a obj] = us @ Track b ob # (vs @ [Track a obj])"
        "Release b \<notin> set (vs @ [Track a obj])" by auto
      then show ?thesis unfolding leaked_def by blast
    qed (force simp: leaked_def)
  qed
  have release: "b \<in> leaked (es @ [Release a]) \<longleftrightarrow> b \<noteq> a \<and> b \<in> leaked es" for b
  proof
    assume "b \<in> leaked (es @ [Release a])"
    then obtain us ob vs where s: "es @ [Release a] = us @ Track b ob # vs" "Release b \<notin> set vs"
      by (auto simp: leaked_def)
    then show "b \<noteq> a \<and> b \<in> leaked es"
      by (cases vs rule: rev_cases) (auto simp: leaked_def)
  next
    assume "b \<noteq> a \<and> b \<in> leaked es"
    then obtain us ob vs where "es = us @ Track b ob # vs" "Release b \<notin> set vs" "b \<noteq> a" by (auto simp: leaked_def)
    then have "es @ [Release a] = us @ Track b ob # (vs @ [Release a])" "Release b \<notin> set (vs @ [Release a])" by auto
    then show "b \<in> leaked (es @ [Release a])" unfolding leaked_def by blast
  qed
  show "leaked (es @ [Track a obj]) = insert a (leaked es)" "leaked (es @ [Release a]) = leaked es - {a}"
    using track release by blast+
qed

lemma manager_events_leaked: "run_ops manager_event es {} = leaked es"
proof (induction es rule: rev_induct)
  case (snoc e es)
  then show ?case
    by (cases e) (simp_all add: leaked_snoc resource_track_def resource_release_def manager_track_def manager_release_def)
qed (simp add: leaked_def)

text \<open>
  The strict-mode audit at the end of an application finds exactly the leaks: after any history of
  tracked and released resources the destructor ends the process if and only if some resource was
  tracked and not released since, and otherwise, and without strict mode, does nothing.
\<close>

theorem audit_finds_leaks:
  "application_destroy strict (run_ops manager_event es {}) =
     (if strict \<and> leaked es \<noteq> {} then Inl Terminated else ok ())"
  by (simp add: manager_events_leaked application_destroy_def manager_audit_def)

text \<open>The path of the binary never reaches \<open>appPath\<close>: the name of the application is the whole path.\<close>

lemma application_name_is_path:
  "application_names seps (Some path) names_start = \<lparr>appPath = [], appName = path\<rparr>"
  by (simp add: application_names_def names_start_def get_binary_path_def)

lemma binary_name_of_path: "CHR ''/'' \<notin> set n" if "n = get_binary_name {CHR ''/''} p" for n p
  using that by (auto simp: get_binary_name_def dest: set_takeWhileD)

end
