(* ===== verification/ThreadTracking.thy ===== *)
theory ThreadTracking
  imports Thread Lifecycle
begin

text \<open>
  Strict mode (\<open>STRICT_MODE_ENABLED\<close>): each thread that \<open>ThreadDetail::start\<close> creates holds a
  \<open>Resource<Thread>\<close>, which it tracks on entry and releases before it sets its promise. The events are
  those of \<open>Thread\<close>, together with the registry of \<open>Lifecycle\<close>; the resource of thread \<open>g\<close>, a local of its
  lambda, has the address \<open>g\<close>.
\<close>

section \<open>Tracked events\<close>

definition track_effect :: "thread_event \<Rightarrow> 'p thread_detail \<Rightarrow> resource_manager \<Rightarrow> resource_manager" where
  "track_effect e t m =
     (case e of
        EvRun g \<Rightarrow>
          (case td_phase t g of
             Entry \<Rightarrow> snd (resource_track g (\<lparr>rs_address = g, rs_object = None\<rparr>, m))
           | Stopped \<Rightarrow> snd (resource_release (\<lparr>rs_address = g, rs_object = Some g\<rparr>, m))
           | _ \<Rightarrow> m)
      | _ \<Rightarrow> m)"

definition strict_event ::
  "'p \<Rightarrow> thread_event \<Rightarrow> 'p thread_detail \<times> resource_manager \<Rightarrow> ('p thread_detail \<times> resource_manager) option" where
  "strict_event dflt e = (\<lambda>(t, m). map_option (\<lambda>u. (u, track_effect e t m)) (thread_event dflt e t))"

section \<open>Invariant\<close>

definition thread_live :: "thread_phase \<Rightarrow> bool" where
  "thread_live ph \<longleftrightarrow> ph \<in> {Started, Prioritised, Working, Stopped}"

definition strict_inv :: "'p thread_detail \<times> resource_manager \<Rightarrow> bool" where
  "strict_inv = (\<lambda>(t, m). td_fault t = None \<longrightarrow>
     m = {g. thread_live (td_phase t g)} \<and> (\<forall>g. td_next t \<le> g \<longrightarrow> td_phase t g = NotCreated))"

lemma thread_run_phase:
  assumes "thread_run dflt tid g t = Some u" "td_fault u = None"
  shows "\<exists>ph. td_phase u = (td_phase t)(g := ph) \<and> td_next u = td_next t \<and> td_phase t g \<noteq> NotCreated \<and>
    (td_phase t g = Entry \<longrightarrow> ph = Started) \<and> (td_phase t g = Stopped \<longrightarrow> ph = Exited) \<and>
    (td_phase t g \<notin> {Entry, Stopped} \<longrightarrow> thread_live (td_phase t g) \<and> thread_live ph)"
  using assms
  by (cases "td_phase t g")
    (auto simp: thread_run_def thread_phase_to_def thread_escape_def thread_set_priority_def thread_set_name_def
      bind_res_def thread_live_def split: option.splits sum.splits if_splits)

lemma thread_quiet_phase:
  assumes "thread_event dflt e t = Some u" "\<And>g. e \<noteq> EvRun g" "e \<noteq> EvStart"
  shows "td_phase u = td_phase t \<and> td_next u = td_next t"
proof (cases e)
  case EvJoin
  then show ?thesis using assms(1)
    by (auto simp: thread_event_def thread_join_def split: option.splits bool.splits if_splits)
next
  case EvDetach
  then show ?thesis using assms(1)
    by (auto simp: thread_event_def thread_detach_def split: option.splits bool.splits if_splits)
next
  case (EvRename n)
  have "td_phase v = td_phase t \<and> td_next v = td_next t" if "thread_set_name n t = ok v" for v
    using that by (auto simp: thread_set_name_def bind_res_ok_iff)
  then show ?thesis using assms(1) EvRename
    by (auto simp: thread_event_def thread_escape_def split: if_splits sum.splits fault.splits)
qed (use assms in \<open>auto simp: thread_event_def thread_escape_def split: caller_phase.splits if_splits\<close>)

lemma thread_start_phase:
  assumes "thread_event dflt EvStart t = Some u"
  shows "u = t \<or> td_phase u = (td_phase t)(td_next t := Entry) \<and> td_next u = Suc (td_next t)"
  using assms
  by (auto simp: thread_event_def thread_start_def thread_join_def Let_def split: option.splits if_splits bool.splits)

lemma strict_event_inv:
  assumes "strict_inv s" "strict_event dflt e s = Some s'"
  shows "strict_inv s'"
proof -
  obtain t m u where s: "s = (t, m)" "thread_event dflt e t = Some u" "s' = (u, track_effect e t m)"
    using assms(2) by (cases s) (auto simp: strict_event_def)
  have ok: "td_fault t = None" using s(2) by (auto simp: thread_event_def split: if_splits)
  with assms(1) have inv: "m = {g. thread_live (td_phase t g)}" "\<And>g. td_next t \<le> g \<Longrightarrow> td_phase t g = NotCreated"
    by (auto simp: strict_inv_def s(1))
  show ?thesis
  proof (cases "td_fault u = None")
    case True
    consider g where "e = EvRun g" | "e = EvStart" | "\<And>g. e \<noteq> EvRun g" "e \<noteq> EvStart" by blast
    then show ?thesis
    proof cases
      case (1 g)
      then have "thread_run dflt 1 g t = Some u" using s(2) ok by (simp add: thread_event_def)
      from thread_run_phase [OF this True] obtain ph where
        ph: "td_phase u = (td_phase t)(g := ph)" "td_next u = td_next t" "td_phase t g \<noteq> NotCreated"
          "td_phase t g = Entry \<longrightarrow> ph = Started" "td_phase t g = Stopped \<longrightarrow> ph = Exited"
          "td_phase t g \<notin> {Entry, Stopped} \<longrightarrow> thread_live (td_phase t g) \<and> thread_live ph" by blast
      have "track_effect e t m = {x. thread_live (td_phase u x)}"
      proof (cases "td_phase t g = Entry \<or> td_phase t g = Stopped")
        case True
        then show ?thesis using 1 ph inv(1)
          by (auto simp: track_effect_def resource_track_def resource_release_def manager_track_def
              manager_release_def thread_live_def)
      next
        case False
        then have "track_effect e t m = m" using 1 by (cases "td_phase t g") (auto simp: track_effect_def)
        then show ?thesis using False ph inv(1) by auto
      qed
      moreover have "td_phase u x = NotCreated" if "td_next u \<le> x" for x
        using that inv(2) [of x] ph(1-3) by (cases "x = g") auto
      ultimately show ?thesis by (simp add: strict_inv_def s(3))
    next
      case 2
      then have m: "track_effect e t m = m" by (simp add: track_effect_def)
      have "thread_live (((td_phase t)(td_next t := Entry)) x) \<longleftrightarrow> thread_live (td_phase t x)" for x
        using inv(2) [of "td_next t"] by (simp add: thread_live_def)
      then show ?thesis using 2 thread_start_phase [of dflt t u] s(2,3) inv m
        by (auto simp: strict_inv_def simp del: fun_upd_apply) (simp add: inv(2))
    next
      case 3
      then have "track_effect e t m = m" by (cases e) (auto simp: track_effect_def)
      then show ?thesis using thread_quiet_phase [OF s(2) 3] inv by (simp add: strict_inv_def s(3))
    qed
  qed (auto simp: strict_inv_def s(3))
qed

section \<open>Property\<close>

text \<open>
  C31. In strict mode the audit that ends an application finds exactly the threads still running: in
  every interleaving of a thread object's callers and threads, over restarts, the registry holds the
  threads that have begun and not yet released; the destructor of the application ends the process
  if and only if there is one; and a program that keeps to the orderly schedule and has waited for the future
  of every \<open>start\<close> passes.
\<close>

theorem audit_finds_running_threads:
  assumes "run_opt (strict_event dflt) es (thread_create dflt n, {}) = Some (t, m)" "td_fault t = None"
  shows "m = {g. thread_live (td_phase t g)} \<and>
    (application_destroy True m = Inl Terminated \<longleftrightarrow> (\<exists>g. thread_live (td_phase t g))) \<and>
    (reach (\<lambda>t. t = thread_create dflt n) (orderly_step dflt) t \<and> (\<forall>g<td_next t. g \<in> set (td_set t)) \<longrightarrow>
      application_destroy True m = ok ())"
proof -
  have "strict_inv (thread_create dflt n, {})"
    by (simp add: strict_inv_def thread_create_def thread_live_def)
  from run_opt_inv [of strict_inv "\<lambda>_. True", OF strict_event_inv this _ assms(1)] assms(2)
  have m: "m = {g. thread_live (td_phase t g)}" and new: "\<And>g. td_next t \<le> g \<Longrightarrow> td_phase t g = NotCreated"
    by (auto simp: strict_inv_def)
  have audit: "application_destroy True m = (if m = {} then ok () else Inl Terminated)"
    by (simp add: application_destroy_def manager_audit_def)
  have "m = {}" if r: "reach (\<lambda>t. t = thread_create dflt n) (orderly_step dflt) t"
    and all: "\<forall>g<td_next t. g \<in> set (td_set t)"
  proof -
    have "thread_inv t" using r by (induction rule: reach.induct) (auto intro: thread_inv_create td.inv_step)
    then have "td_phase t g = Exited \<or> td_phase t g = NotCreated" for g
      using all new [of g] thread_inv_set [of t g] by (cases "g < td_next t") auto
    then have "\<not> thread_live (td_phase t g)" for g
      by (metis (full_types) thread_live_def empty_iff insert_iff thread_phase.distinct)
    then show ?thesis using m by simp
  qed
  then show ?thesis using m audit by auto
qed

theorem audit_finds_running_threads_witness:
  "\<exists>t m. run_opt (strict_event (0::nat)) (first_start @ [EvRun 0, EvRun 0]) (thread_create 0 ''app'', {}) = Some (t, m) \<and>
     m = {g. thread_live (td_phase t g)} \<and> td_phase t 0 = Exited"
proof -
  have "\<exists>t m. run_opt (strict_event (0::nat)) (first_start @ [EvRun 0, EvRun 0]) (thread_create 0 ''app'', {}) = Some (t, m) \<and>
      td_fault t = None \<and> td_phase t 0 = Exited"
    by (simp add: first_start_def strict_event_def track_effect_def thread_create_def thread_defs Let_def)
  then show ?thesis using audit_finds_running_threads [where dflt = "0::nat"] by metis
qed

end
