(* ===== verification/Observer.thy ===== *)
theory Observer
  imports Errors
begin

text \<open>
  \<open>Subject\<close> of \<open>Observer.hpp\<close>. Observers are identified by a number, in place of the address their
  \<open>shared_ptr\<close>s share. The overload of \<open>unregist\<close> that takes a reference calls a function that does not
  exist, and does not compile when it is used. The handlers of a notification may do anything to the
  application's state \<open>'st\<close> and to the subject itself.
\<close>

section \<open>Subject\<close>

record subject =
  sb_observers :: "nat list"

definition subject_new :: subject where
  "subject_new = \<lparr>sb_observers = []\<rparr>"

definition subject_regist :: "nat \<Rightarrow> subject \<Rightarrow> subject" where
  "subject_regist observer s = s\<lparr>sb_observers := sb_observers s @ [observer]\<rparr>"

definition subject_unregist :: "nat \<Rightarrow> subject \<Rightarrow> subject" where
  "subject_unregist observer s = s\<lparr>sb_observers := filter (\<lambda>obs. obs \<noteq> observer) (sb_observers s)\<rparr>"

text \<open>
  \<open>notify\<close>: a range-based loop, each observer in turn. The loop holds iterators into the vector: when a
  handler has changed the vector, going on with them is undefined. What a handler throws leaves the loop.
\<close>

fun notify_each ::
  "(nat \<Rightarrow> 'a \<Rightarrow> subject \<times> 'st \<Rightarrow> (subject \<times> 'st) res) \<Rightarrow> 'a \<Rightarrow> nat list \<Rightarrow> subject \<times> 'st \<Rightarrow>
   (subject \<times> 'st) res" where
  "notify_each onEvent args [] w = ok w"
| "notify_each onEvent args (obs # os) w =
     bind_res (onEvent obs args w) (\<lambda>w'.
       if sb_observers (fst w') \<noteq> sb_observers (fst w) then Inl (UndefinedBehaviour ''iterator invalidated'')
       else notify_each onEvent args os w')"

definition subject_notify ::
  "(nat \<Rightarrow> 'a \<Rightarrow> subject \<times> 'st \<Rightarrow> (subject \<times> 'st) res) \<Rightarrow> 'a \<Rightarrow> subject \<times> 'st \<Rightarrow> (subject \<times> 'st) res" where
  "subject_notify onEvent args w = notify_each onEvent args (sb_observers (fst w)) w"

lemmas subject_defs [op_defs] = subject_new_def subject_regist_def subject_unregist_def subject_notify_def

datatype subject_event = Regist nat | Unregist nat

fun apply_event :: "subject_event \<Rightarrow> subject \<Rightarrow> subject" where
  "apply_event (Regist obs) s = subject_regist obs s"
| "apply_event (Unregist obs) s = subject_unregist obs s"

section \<open>Properties\<close>

text \<open>A handler that leaves the subject alone, given by what it does to the application.\<close>

definition plain_handler ::
  "(nat \<Rightarrow> 'a \<Rightarrow> 'st \<Rightarrow> 'st res) \<Rightarrow> nat \<Rightarrow> 'a \<Rightarrow> subject \<times> 'st \<Rightarrow> (subject \<times> 'st) res" where
  "plain_handler h obs args w = bind_res (h obs args (snd w)) (\<lambda>st. ok (fst w, st))"

lemma notify_each_plain:
  "notify_each (plain_handler h) args os (s, st) = bind_res (run_res (\<lambda>obs. h obs args) os st) (\<lambda>st'. ok (s, st'))"
proof (induction os arbitrary: st)
  case (Cons obs os)
  then show ?case by (cases "h obs args st") (simp_all add: plain_handler_def)
qed simp

lemma observers_count:
  "count_list (sb_observers (run_ops apply_event es subject_new)) obs =
   count_list (takeWhile (\<lambda>e. e \<noteq> Unregist obs) (rev es)) (Regist obs)"
proof (induction es rule: rev_induct)
  case (snoc e es)
  then show ?case
    by (cases e) (auto simp: subject_regist_def subject_unregist_def count_filter_neq)
qed (simp add: subject_new_def)

lemma filter_shorter: "filter P xs \<noteq> a # xs"
  using length_filter_le [of P xs] by (metis impossible_Cons)


end
