(* ===== verification/Logging.thy ===== *)
theory Logging
  imports Errors
begin

text \<open>
  \<open>Logger\<close> and \<open>LogStream\<close> of \<open>Logger.hpp\<close> and \<open>src/Logger.cpp\<close>, and \<open>Factory::create\<close> of
  \<open>Factory.hpp\<close>. The standard output is the list of lines written to it. \<open>string_format\<close> (\<open>snprintf\<close>) and
  the streaming of a value to text are the standard library's; the pieces here are already texts.
\<close>

section \<open>Logger and LogStream\<close>

datatype log_level = LvInfo | LvDebug | LvWarn | LvError

fun level_tag :: "log_level \<Rightarrow> string" where
  "level_tag LvInfo = ''[INFO] ''"
| "level_tag LvDebug = ''[DEBUG] ''"
| "level_tag LvWarn = ''[WARN] ''"
| "level_tag LvError = ''[ERROR] ''"

definition log_write :: "log_level \<Rightarrow> string \<Rightarrow> string list \<Rightarrow> string list" where
  "log_write level log cout = cout @ [level_tag level @ log]"

record log_stream =
  ls_oss :: string
  ls_level :: log_level
  ls_fileName :: string
  ls_fileLine :: nat

definition log_stream :: "log_level \<Rightarrow> string \<Rightarrow> nat \<Rightarrow> log_stream" where
  "log_stream level fileName fileLine =
     \<lparr>ls_oss = [], ls_level = level, ls_fileName = fileName, ls_fileLine = fileLine\<rparr>"

definition log_insert :: "string \<Rightarrow> log_stream \<Rightarrow> log_stream" where
  "log_insert piece s = s\<lparr>ls_oss := ls_oss s @ piece\<rparr>"

text \<open>A manipulator such as \<open>std::hex\<close> or \<open>std::endl\<close> acts on the stream itself.\<close>

definition log_manip :: "(string \<Rightarrow> string) \<Rightarrow> log_stream \<Rightarrow> log_stream" where
  "log_manip manip s = s\<lparr>ls_oss := manip (ls_oss s)\<rparr>"

text \<open>A number as \<open>ostream\<close> writes it: in decimal.\<close>

fun decimal :: "nat \<Rightarrow> string" where
  "decimal n = (if n < 10 then [char_of (48 + n)] else decimal (n div 10) @ [char_of (48 + n mod 10)])"

declare decimal.simps [simp del]

text \<open>The destructor appends the place and writes the line.\<close>

definition log_flush :: "log_stream \<Rightarrow> string list \<Rightarrow> string list" where
  "log_flush s cout =
     log_write (ls_level s) (ls_oss s @ ''('' @ ls_fileName s @ '':'' @ decimal (ls_fileLine s) @ '')'') cout"

text \<open>\<open>LogInfo << p1 << ... << pn;\<close>: the temporary is destroyed at the end of the statement.\<close>

definition log_statement :: "log_level \<Rightarrow> string \<Rightarrow> nat \<Rightarrow> string list \<Rightarrow> string list \<Rightarrow> string list" where
  "log_statement level fileName fileLine pieces cout =
     log_flush (run_ops log_insert pieces (log_stream level fileName fileLine)) cout"

text \<open>\<open>__FILENAME__\<close>: what follows the last slash.\<close>

definition file_name :: "string \<Rightarrow> string" where
  "file_name path = rev (takeWhile (\<lambda>c. c \<noteq> CHR ''/'') (rev path))"

section \<open>Factory\<close>

text \<open>\<open>create\<close> is \<open>noexcept\<close>: an exception of the class's own \<open>__create\<close> ends the process.\<close>

definition factory_create :: "'a res \<Rightarrow> 'a res" where
  "factory_create r = (case r of Inl (Thrown e) \<Rightarrow> Inl Terminated | Inl (StdException e) \<Rightarrow> Inl Terminated | _ \<Rightarrow> r)"

definition unique_create :: "'a res \<Rightarrow> 'a res" where
  "unique_create r = (case r of Inl (Thrown e) \<Rightarrow> Inl Terminated | Inl (StdException e) \<Rightarrow> Inl Terminated | _ \<Rightarrow> r)"

section \<open>Properties\<close>

lemma log_pieces: "run_ops log_insert ps s = s\<lparr>ls_oss := ls_oss s @ concat ps\<rparr>"
  by (induction ps arbitrary: s) (simp_all add: log_insert_def)

text \<open>A statement writes one line: tag, the pieces in order, the place.\<close>

lemma log_statement_line:
  "log_statement level f n ps cout =
   cout @ [level_tag level @ concat ps @ ''('' @ f @ '':'' @ decimal n @ '')'']"
  by (simp add: log_statement_def log_pieces log_stream_def log_flush_def log_write_def)

lemma level_tags_distinct: "level_tag a = level_tag b \<longleftrightarrow> a = b"
  by (cases a; cases b; simp)

lemma factory_never_throws: "factory_create r \<noteq> Inl (Thrown e)" "factory_create (ok x) = ok x"
  by (auto simp: factory_create_def split: sum.splits fault.splits)

end
