(* ===== verification/EventFrame.thy ===== *)
theory EventFrame
  imports Errors
begin

unbundle bit_operations_syntax

text \<open>
  The wire frame of the publish/subscribe protocol, \<open>communication/EventFrame.hpp\<close>: topic (two
  bytes, big-endian), type (one byte), payload. \<open>Frame::type\<close> is an enum with the fixed underlying
  type \<open>uint8_t\<close>, so \<open>static_cast\<close> gives it any byte: the model keeps the byte and names the four
  enumerators.
\<close>

section \<open>Byte codecs\<close>

text \<open>
  The contract of an encoder and its decoder. A client that only decodes what was encoded needs
  \<open>byte_codec\<close>; one that forwards what it decoded needs the other direction as well.
\<close>

locale byte_codec =
  fixes enc :: "'a \<Rightarrow> bytes"
    and dec :: "bytes \<Rightarrow> 'a res"
  assumes dec_enc: "dec (enc x) = ok x"
begin

lemma enc_inj: "enc x = enc y \<longleftrightarrow> x = y"
  using dec_enc by (metis sum.inject(2))

lemma dec_map_enc: "map dec (map enc xs) = map ok xs"
  by (simp add: dec_enc)

end

locale exact_byte_codec = byte_codec +
  assumes enc_dec: "dec bs = ok x \<Longrightarrow> enc x = bs"
begin

lemma dec_iff: "dec bs = ok x \<longleftrightarrow> bs = enc x"
  using dec_enc enc_dec by blast

end

section \<open>Frame\<close>

type_synonym frame_type = u8

definition REGIST :: frame_type where "REGIST = 0"
definition UNREGIST :: frame_type where "UNREGIST = 1"
definition DATA :: frame_type where "DATA = 2"
definition ACK :: frame_type where "ACK = 3"

lemmas frame_type_defs = REGIST_def UNREGIST_def DATA_def ACK_def

lemma frame_types_distinct [simp]:
  "REGIST \<noteq> UNREGIST" "REGIST \<noteq> DATA" "REGIST \<noteq> ACK" "UNREGIST \<noteq> DATA" "UNREGIST \<noteq> ACK"
  "DATA \<noteq> ACK" "UNREGIST \<noteq> REGIST" "DATA \<noteq> REGIST" "ACK \<noteq> REGIST" "DATA \<noteq> UNREGIST"
  "ACK \<noteq> UNREGIST" "ACK \<noteq> DATA"
  by (simp_all add: frame_type_defs)

record frame =
  fr_topic :: u16
  fr_type :: frame_type
  fr_payload :: bytes

text \<open>
  \<open>parse\<close>: the topic is \<open>static_cast<uint16_t>(raw[0] << 8) | raw[1]\<close>, with \<open>raw[0]\<close> promoted to
  \<open>int\<close> before the shift.
\<close>

definition frame_parse :: "bytes \<Rightarrow> frame res" where
  "frame_parse raw =
     (if length raw < 3 then Inl (AssertionFailure ''raw.size() >= 3'')
      else let topic = (ucast (push_bit 8 (ucast (raw ! 0) :: 32 word)) :: u16) OR ucast (raw ! 1);
               ty = raw ! 2;
               payload = drop 3 raw
           in ok \<lparr>fr_topic = topic, fr_type = ty, fr_payload = payload\<rparr>)"

definition frame_make :: "u16 \<Rightarrow> frame_type \<Rightarrow> bytes \<Rightarrow> bytes" where
  "frame_make topic ty payload =
     [ucast (drop_bit 8 topic), ucast (topic AND 0xFF), ty] @ payload"

lemma topic_join_split:
  "(ucast (push_bit 8 (ucast (ucast (drop_bit 8 t) :: u8) :: 32 word)) :: u16) OR
   ucast (ucast (t AND 0xFF) :: u8) = (t :: u16)"
proof (rule bit_word_eqI)
  fix i assume "i < LENGTH(16)"
  have m: "(0xFF :: u16) = mask 8" by (simp add: mask_eq_exp_minus_1)
  show "bit ((ucast (push_bit 8 (ucast (ucast (drop_bit 8 t) :: u8) :: 32 word)) :: u16) OR
      ucast (ucast (t AND 0xFF) :: u8)) i \<longleftrightarrow> bit t i"
    using \<open>i < LENGTH(16)\<close> unfolding m
    by (auto simp: bit_or_iff bit_push_bit_iff bit_drop_bit_eq bit_and_iff bit_mask_iff bit_ucast_iff)
qed

lemma topic_split_join:
  fixes a b :: u8
  defines "t \<equiv> (ucast (push_bit 8 (ucast a :: 32 word)) :: u16) OR ucast b"
  shows "(ucast (drop_bit 8 t) :: u8) = a" and "(ucast (t AND 0xFF) :: u8) = b"
proof -
  have m: "(0xFF :: u16) = mask 8" by (simp add: mask_eq_exp_minus_1)
  show "(ucast (drop_bit 8 t) :: u8) = a"
    by (rule bit_word_eqI)
      (auto simp: t_def bit_or_iff bit_push_bit_iff bit_drop_bit_eq bit_ucast_iff
        dest: bit_imp_le_length)
  show "(ucast (t AND 0xFF) :: u8) = b"
    unfolding m by (rule bit_word_eqI)
      (auto simp: t_def bit_or_iff bit_push_bit_iff bit_and_iff bit_mask_iff bit_ucast_iff)
qed

lemma frame_parse_make:
  "frame_parse (frame_make topic ty payload) =
   ok \<lparr>fr_topic = topic, fr_type = ty, fr_payload = payload\<rparr>"
  using topic_join_split [of topic] by (simp add: frame_parse_def frame_make_def Let_def)

lemma frame_make_parse:
  assumes "frame_parse raw = ok f"
  shows "frame_make (fr_topic f) (fr_type f) (fr_payload f) = raw"
proof -
  from assms have "\<not> length raw < 3" by (auto simp: frame_parse_def)
  then obtain a b c rest where raw: "raw = a # b # c # rest"
    by (cases raw; cases "tl raw"; cases "tl (tl raw)") auto
  show ?thesis
    using assms topic_split_join [of a b] by (auto simp: raw frame_parse_def frame_make_def Let_def)
qed

definition frame_encode :: "frame \<Rightarrow> bytes" where
  "frame_encode f = frame_make (fr_topic f) (fr_type f) (fr_payload f)"

interpretation fr: exact_byte_codec frame_encode frame_parse
  by unfold_locales (simp_all add: frame_encode_def frame_parse_make frame_make_parse)

lemma frame_parse_short: "length raw < 3 \<Longrightarrow> \<exists>f. frame_parse raw = Inl f"
  by (simp add: frame_parse_def)

section \<open>Properties\<close>

text \<open>
  C11. \<open>make\<close> and \<open>parse\<close> are inverse to each other: parsing what \<open>make\<close> produced gives the topic,
  type and payload back for every topic, type byte and payload, and whatever parses is the
  serialization of exactly the parsed frame; the frames that do not parse are those shorter
  than three bytes.
\<close>

theorem frame_round_trip:
  "frame_parse (frame_make topic ty payload) =
     ok \<lparr>fr_topic = topic, fr_type = ty, fr_payload = payload\<rparr> \<and>
   (frame_parse raw = ok f \<longleftrightarrow> raw = frame_make (fr_topic f) (fr_type f) (fr_payload f)) \<and>
   ((\<exists>e. frame_parse raw = Inl e) \<longleftrightarrow> length raw < 3)"
  using frame_parse_make fr.dec_iff [of raw f] by (auto simp: frame_encode_def frame_parse_def Let_def)

end
