(* ===== verification/AsyncTcp.thy ===== *)
theory AsyncTcp
  imports EventFrame
begin

unbundle bit_operations_syntax

text \<open>
  The TCP socket and listener of \<open>asio/AsyncTcp.hpp\<close> and \<open>src/asio/AsyncTcp.cpp\<close>. Asio itself is
  not modelled: its completions are the events the functions below take (bytes that arrived, an
  error code, a finished write). What the code adds is modelled in full: the four-byte length
  prefix of \<open>send\<close>, the two-stage receive loop (header, then exactly that many payload bytes), the
  connection flag, the mapping of errors to \<open>ErrorCode\<close>, and the accept loop.
\<close>

section \<open>Connections (Socket.hpp)\<close>

datatype protocol = TCP | UDP

record connection =
  cn_protocol :: protocol
  cn_address :: string
  cn_port :: u32

section \<open>Length-prefix framing\<close>

text \<open>\<open>std::memcpy\<close> of a \<open>uint32_t\<close>: the bytes in memory order, on a little-endian machine.\<close>

definition u32_bytes :: "u32 \<Rightarrow> bytes" where
  "u32_bytes n = [ucast n, ucast (drop_bit 8 n), ucast (drop_bit 16 n), ucast (drop_bit 24 n)]"

definition bytes_u32 :: "bytes \<Rightarrow> u32" where
  "bytes_u32 bs = ucast (bs ! 0) OR push_bit 8 (ucast (bs ! 1)) OR push_bit 16 (ucast (bs ! 2)) OR
     push_bit 24 (ucast (bs ! 3))"

text \<open>The buffer \<open>send\<close> writes: \<open>static_cast<uint32_t>(data.size())\<close>, then the data.\<close>

definition tcp_frame :: "bytes \<Rightarrow> bytes" where
  "tcp_frame data = u32_bytes (of_nat (length data)) @ data"

section \<open>The receive loop\<close>

text \<open>
  \<open>receive\<close> has one read outstanding at a time: the header (with the bytes read so far), or a payload
  of known size. When the application's handler does not return normally, the code after it, which
  starts the next read, does not run: \<open>RxDead\<close>. After an error the loop has ended: \<open>RxStopped\<close>.
\<close>

datatype rx_state =
    RxHeader bytes
  | RxPayload nat bytes
  | RxDead fault
  | RxStopped

text \<open>A complete message: \<open>onReceive(*payload); self->receive(...)\<close>.\<close>

definition rx_deliver :: "(bytes \<Rightarrow> 'st \<Rightarrow> 'st res) \<Rightarrow> bytes \<Rightarrow> 'st \<Rightarrow> rx_state \<times> 'st" where
  "rx_deliver h payload st =
     (case h payload st of Inl f \<Rightarrow> (RxDead f, st) | Inr st' \<Rightarrow> (RxHeader [], st'))"

fun rx_byte :: "(bytes \<Rightarrow> 'st \<Rightarrow> 'st res) \<Rightarrow> u8 \<Rightarrow> rx_state \<times> 'st \<Rightarrow> rx_state \<times> 'st" where
  "rx_byte h b (RxHeader acc, st) =
     (let header = acc @ [b]
      in if length header < 4 then (RxHeader header, st)
         else let payloadSize = unat (bytes_u32 header)
              in if payloadSize = 0 then rx_deliver h [] st else (RxPayload payloadSize [], st))"
| "rx_byte h b (RxPayload n acc, st) =
     (let payload = acc @ [b]
      in if length payload < n then (RxPayload n payload, st) else rx_deliver h payload st)"
| "rx_byte h b (RxDead f, st) = (RxDead f, st)"
| "rx_byte h b (RxStopped, st) = (RxStopped, st)"

text \<open>A segment of the stream arriving at the socket.\<close>

definition rx_feed :: "(bytes \<Rightarrow> 'st \<Rightarrow> 'st res) \<Rightarrow> bytes \<Rightarrow> rx_state \<times> 'st \<Rightarrow> rx_state \<times> 'st" where
  "rx_feed h seg s = run_ops (rx_byte h) seg s"

section \<open>The socket\<close>

datatype net_error = Eof | ConnectionReset | OperationAborted | OtherError nat

datatype sock_event = OnConnect | OnError error_code | OnSend nat

record tcp_socket =
  ts_conn :: connection
  ts_connected :: bool
  ts_open :: bool
  ts_rx :: rx_state

definition tcp_new :: "connection \<Rightarrow> tcp_socket" where
  "tcp_new conn = \<lparr>ts_conn = conn, ts_connected = False, ts_open = False, ts_rx = RxStopped\<rparr>"

text \<open>An accepted socket starts out connected, with an empty \<open>_conn\<close>.\<close>

definition tcp_accepted :: "tcp_socket" where
  "tcp_accepted = \<lparr>ts_conn = \<lparr>cn_protocol = TCP, cn_address = [], cn_port = 0\<rparr>,
     ts_connected = True, ts_open = True, ts_rx = RxStopped\<rparr>"

text \<open>Whether \<open>connect\<close> starts an \<open>async_connect\<close>: a connected socket ignores the call.\<close>

definition tcp_connect_starts :: "tcp_socket \<Rightarrow> bool" where
  "tcp_connect_starts s = (\<not> ts_connected s)"

text \<open>Completion of \<open>async_connect\<close>; \<open>has_err\<close> says whether an error handler was given.\<close>

definition tcp_connect_done :: "bool \<Rightarrow> net_error option \<Rightarrow> tcp_socket \<Rightarrow> tcp_socket \<times> sock_event list" where
  "tcp_connect_done has_err ec s =
     (case ec of
        None \<Rightarrow> (s\<lparr>ts_connected := True, ts_open := True\<rparr>, [OnConnect])
      | Some _ \<Rightarrow> (s, if has_err then [OnError CONNECTION_LOST] else []))"

definition tcp_disconnect :: "tcp_socket \<Rightarrow> tcp_socket" where
  "tcp_disconnect s = s\<lparr>ts_open := False, ts_connected := False\<rparr>"

text \<open>The destructor disconnects: nothing is left open, whatever state the socket was in.\<close>

definition tcp_destroy :: "tcp_socket \<Rightarrow> tcp_socket" where
  "tcp_destroy s = tcp_disconnect s"

definition tcp_receive :: "tcp_socket \<Rightarrow> tcp_socket" where
  "tcp_receive s = s\<lparr>ts_rx := RxHeader []\<rparr>"

text \<open>The outstanding read fails: different handling in the header and in the payload stage.\<close>

definition tcp_receive_error :: "bool \<Rightarrow> net_error \<Rightarrow> tcp_socket \<Rightarrow> tcp_socket \<times> sock_event list" where
  "tcp_receive_error has_err ec s =
     (case ts_rx s of
        RxHeader _ \<Rightarrow>
          (let lost = (ec = Eof \<or> ec = ConnectionReset);
               cec = (if lost then CONNECTION_LOST else RECEIVE_FAILURE);
               s1 = (if lost then tcp_disconnect s else s)
           in (s1\<lparr>ts_rx := RxStopped\<rparr>, if has_err then [OnError cec] else []))
      | RxPayload _ _ \<Rightarrow>
          (s\<lparr>ts_rx := RxStopped\<rparr>, if has_err then [OnError RECEIVE_FAILURE] else [])
      | _ \<Rightarrow> (s, []))"

text \<open>Completion of \<open>async_write\<close>; the byte count includes the header.\<close>

definition tcp_send_done :: "bool \<Rightarrow> bool \<Rightarrow> bytes \<Rightarrow> net_error option \<Rightarrow> sock_event list" where
  "tcp_send_done has_send has_err data ec =
     (case ec of
        None \<Rightarrow> (if has_send then [OnSend (length (tcp_frame data))] else [])
      | Some _ \<Rightarrow> (if has_err then [OnError SEND_FAILURE] else []))"

section \<open>The listener\<close>

record tcp_listener =
  tl_open :: bool
  tl_accepting :: bool
  tl_accepted :: nat

definition listener_new :: tcp_listener where
  "listener_new = \<lparr>tl_open = False, tl_accepting = False, tl_accepted = 0\<rparr>"

definition listener_listen :: "tcp_listener \<Rightarrow> tcp_listener" where
  "listener_listen l = l\<lparr>tl_open := True, tl_accepting := True\<rparr>"

definition listener_stop :: "tcp_listener \<Rightarrow> tcp_listener" where
  "listener_stop l = (if tl_open l then l\<lparr>tl_open := False\<rparr> else l)"

text \<open>One completion of \<open>async_accept\<close>: deliver and re-arm, stop, or re-arm if still open.\<close>

definition listener_accept_done :: "net_error option \<Rightarrow> tcp_listener \<Rightarrow> tcp_listener" where
  "listener_accept_done ec l =
     (if \<not> tl_accepting l then l
      else case ec of
        None \<Rightarrow> l\<lparr>tl_accepted := Suc (tl_accepted l)\<rparr>
      | Some OperationAborted \<Rightarrow> l\<lparr>tl_accepting := False\<rparr>
      | Some _ \<Rightarrow> (if tl_open l then l else l\<lparr>tl_accepting := False\<rparr>))"

section \<open>Framing lemmas\<close>

lemma bytes_u32_u32_bytes: "bytes_u32 (u32_bytes n) = n"
proof (rule bit_word_eqI)
  fix i assume "i < LENGTH(32)"
  then have "i < 8 \<or> (8 \<le> i \<and> i < 16) \<or> (16 \<le> i \<and> i < 24) \<or> (24 \<le> i \<and> i < 32)" by auto
  then show "bit (bytes_u32 (u32_bytes n)) i = bit n i"
    by (auto simp: bytes_u32_def u32_bytes_def bit_or_iff bit_push_bit_iff bit_drop_bit_eq bit_ucast_iff
        not_le)
qed

lemma length_u32_bytes [simp]: "length (u32_bytes n) = 4"
  by (simp add: u32_bytes_def)

lemma rx_feed_Nil [simp]: "rx_feed h [] s = s"
  by (simp add: rx_feed_def)

lemma rx_feed_Cons [simp]: "rx_feed h (b # bs) s = rx_feed h bs (rx_byte h b s)"
  by (simp add: rx_feed_def)

lemma rx_feed_append [simp]: "rx_feed h (xs @ ys) s = rx_feed h ys (rx_feed h xs s)"
  by (simp add: rx_feed_def)

lemma rx_feed_dead [simp]: "rx_feed h xs (RxDead f, st) = (RxDead f, st)"
  by (induction xs) auto

lemma rx_feed_payload:
  "0 < length bs \<Longrightarrow> length acc + length bs = n \<Longrightarrow>
   rx_feed h bs (RxPayload n acc, st) = rx_deliver h (acc @ bs) st"
proof (induction bs arbitrary: acc)
  case (Cons b bs)
  then show ?case
    using Cons.IH [of "acc @ [b]"] by (cases "bs = []") (auto simp: Let_def)
qed simp

lemma rx_feed_header:
  "rx_feed h (u32_bytes n) (RxHeader [], st) =
   (if unat n = 0 then rx_deliver h [] st else (RxPayload (unat n) [], st))"
  using bytes_u32_u32_bytes [of n] by (simp add: u32_bytes_def Let_def)

text \<open>One complete message makes exactly one delivery, whatever its content.\<close>

lemma rx_feed_frame:
  assumes "length data < 2 ^ 32"
  shows "rx_feed h (tcp_frame data) (RxHeader [], st) = rx_deliver h data st"
proof -
  have n: "unat (of_nat (length data) :: u32) = length data"
    using assms by (intro unat_of_nat_small) simp
  show ?thesis
    using rx_feed_payload [of data "[]" "length data" h st] n
    by (cases "data = []") (auto simp: tcp_frame_def rx_feed_header)
qed

text \<open>Running the handler over a list of messages, stopping at the first one that fails.\<close>

fun rx_messages :: "(bytes \<Rightarrow> 'st \<Rightarrow> 'st res) \<Rightarrow> bytes list \<Rightarrow> 'st \<Rightarrow> rx_state \<times> 'st" where
  "rx_messages h [] st = (RxHeader [], st)"
| "rx_messages h (m # ms) st =
     (case h m st of Inl f \<Rightarrow> (RxDead f, st) | Inr st' \<Rightarrow> rx_messages h ms st')"

lemma rx_feed_frames:
  "\<forall>m\<in>set ms. length m < 2 ^ 32 \<Longrightarrow>
   rx_feed h (concat (map tcp_frame ms)) (RxHeader [], st) = rx_messages h ms st"
proof (induction ms arbitrary: st)
  case (Cons m ms)
  then show ?case
    using rx_feed_frame [of m h st] by (auto simp: rx_deliver_def split: sum.splits)
qed simp

lemma rx_feed_segments: "rx_feed h (concat segs) s = foldl (\<lambda>s seg. rx_feed h seg s) s segs"
  by (induction segs arbitrary: s) auto

lemma rx_messages_collect:
  "rx_messages (\<lambda>m st. ok (st @ [m])) ms st = (RxHeader [], st @ ms)"
  by (induction ms arbitrary: st) auto

section \<open>Properties\<close>

text \<open>
  C8. Message boundaries survive the stream: however TCP cuts the bytes of a sequence of sends into
  segments, the receive loop hands the handler exactly the sent messages, whole and in order,
  and stops for good at the first message the handler fails on. The messages are shorter than
  \<open>2^32\<close> bytes, the range of the length prefix.
\<close>

theorem tcp_framing_preserves_messages:
  assumes "\<forall>m\<in>set ms. length m < 2 ^ 32" and "concat segs = concat (map tcp_frame ms)"
  shows "foldl (\<lambda>s seg. rx_feed h seg s) (RxHeader [], st) segs = rx_messages h ms st \<and>
    foldl (\<lambda>s seg. rx_feed (\<lambda>m st. ok (st @ [m])) seg s) (RxHeader [], []) segs = (RxHeader [], ms)"
  using rx_feed_frames [OF assms(1), of h st] assms(2)
    rx_feed_frames [OF assms(1), of "\<lambda>m st. ok (st @ [m])" "[]"]
  by (simp add: rx_messages_collect flip: rx_feed_segments)

theorem tcp_framing_preserves_messages_witness:
  "foldl (\<lambda>s seg. rx_feed (\<lambda>m st. ok (st @ [m])) seg s) (RxHeader [], [])
     [[2, 0], [0, 0, 7], [8, 0, 0, 0], [0]] = (RxHeader [], [[7, 8], []])"
proof -
  have e: "concat [[2, 0], [0, 0, 7], [8, 0, 0, 0], [0]] = concat (map tcp_frame [[7, 8], []])"
    by (simp add: tcp_frame_def u32_bytes_def)
  show ?thesis
    using tcp_framing_preserves_messages [OF _ e, where h = "\<lambda>m st. ok (st @ [m])" and st = "[]"]
    by simp
qed

text \<open>
  The receive loop treats the end of the connection differently in its two stages: an end of
  file while a header is awaited closes the socket and reports \<open>CONNECTION_LOST\<close>; the same
  end of file in the middle of a payload reports \<open>RECEIVE_FAILURE\<close> and leaves the socket open and
  flagged as connected.
\<close>

lemma tcp_eof_handling:
  "tcp_receive_error True Eof (s\<lparr>ts_rx := RxHeader acc\<rparr>) =
     (s\<lparr>ts_rx := RxStopped, ts_open := False, ts_connected := False\<rparr>, [OnError CONNECTION_LOST])"
  "tcp_receive_error True Eof (s\<lparr>ts_rx := RxPayload n acc\<rparr>) =
     (s\<lparr>ts_rx := RxStopped\<rparr>, [OnError RECEIVE_FAILURE])"
  by (simp_all add: tcp_receive_error_def tcp_disconnect_def Let_def)

text \<open>A stopped listener accepts nothing more once its pending accept has completed.\<close>

lemma listener_stop_final:
  assumes "ec = Some e"
  shows "\<not> tl_accepting (listener_accept_done ec (listener_stop l)) \<and>
    run_ops listener_accept_done ecs (listener_accept_done ec (listener_stop l)) =
      listener_accept_done ec (listener_stop l)"
proof -
  have off: "\<not> tl_accepting (listener_accept_done (Some e) (listener_stop l))"
    by (cases e) (auto simp: listener_accept_done_def listener_stop_def)
  have "run_ops listener_accept_done ecs m = m" if "\<not> tl_accepting m" for m
    using that by (induction ecs) (auto simp: listener_accept_done_def)
  then show ?thesis using off assms by simp
qed

end
