(* ===== verification/EventBroker.thy ===== *)
theory EventBroker
  imports AsyncTcp
begin

text \<open>
  The event broker of \<open>asio/AsyncEventBroker.hpp\<close> and \<open>src/asio/AsyncEventBroker.cpp\<close>:
  \<open>TopicRegistry\<close> (topic to sessions), \<open>ClientSession\<close> (the frames of one connection) and
  \<open>AsyncEventBroker\<close> (accept, and the callbacks that tie the two together). A session is
  identified by a number, in place of the address its \<open>shared_ptr\<close> and \<open>weak_ptr\<close>s share; the
  record says which sessions are alive, that is, which weak pointers still lock.
\<close>

section \<open>TopicRegistry\<close>

type_synonym sid = nat

record topic_registry =
  rg_sessions :: "u16 \<rightharpoonup> sid list"

definition registry_new :: topic_registry where
  "registry_new = \<lparr>rg_sessions = Map.empty\<rparr>"

text \<open>\<open>_sessions[topic].push_back(session)\<close>: an absent key starts as an empty vector.\<close>

definition registry_regist :: "u16 \<Rightarrow> sid \<Rightarrow> topic_registry \<Rightarrow> topic_registry" where
  "registry_regist topic session r =
     r\<lparr>rg_sessions := (rg_sessions r)(topic \<mapsto>
        (case rg_sessions r topic of None \<Rightarrow> [] | Some ss \<Rightarrow> ss) @ [session])\<rparr>"

text \<open>
  \<open>unregist\<close> visits every topic: it removes the weak pointers that lock to the session (an expired
  one never does) and erases the entry if nothing is left.
\<close>

definition registry_unregist :: "(sid \<Rightarrow> bool) \<Rightarrow> sid \<Rightarrow> topic_registry \<Rightarrow> topic_registry" where
  "registry_unregist alive session r =
     r\<lparr>rg_sessions := (\<lambda>topic. case rg_sessions r topic of
          None \<Rightarrow> None
        | Some ss \<Rightarrow> (let ss' = filter (\<lambda>weak. \<not> (alive weak \<and> weak = session)) ss
                      in if ss' = [] then None else Some ss'))\<rparr>"

text \<open>\<open>route\<close>: the frame is sent to every session of the topic that is still alive, in order.\<close>

definition registry_route :: "(sid \<Rightarrow> bool) \<Rightarrow> u16 \<Rightarrow> bytes \<Rightarrow> topic_registry \<Rightarrow> (sid \<times> bytes) list" where
  "registry_route alive topic payload r =
     (let bytesFrame = frame_make topic DATA payload
      in case rg_sessions r topic of
           None \<Rightarrow> []
         | Some ss \<Rightarrow> map (\<lambda>session. (session, bytesFrame)) (filter alive ss))"

section \<open>The broker\<close>

text \<open>
  \<open>bk_rx\<close> is the receive loop of each session's socket, \<open>bk_sent\<close> the frames handed to
  \<open>ClientSession::send\<close> so far, oldest first, \<open>bk_next\<close> the next session to be created,
  \<open>bk_listening\<close> whether the broker has a listener.
\<close>

record broker =
  bk_registry :: topic_registry
  bk_alive :: "sid \<Rightarrow> bool"
  bk_rx :: "sid \<Rightarrow> rx_state"
  bk_sent :: "(sid \<times> bytes) list"
  bk_next :: sid
  bk_listening :: bool

definition broker_new :: broker where
  "broker_new = \<lparr>bk_registry = registry_new, bk_alive = (\<lambda>_. False), bk_rx = (\<lambda>_. RxStopped),
     bk_sent = [], bk_next = 0, bk_listening = False\<rparr>"

definition broker_run :: "broker \<Rightarrow> broker" where
  "broker_run b = b\<lparr>bk_listening := True\<rparr>"

definition broker_stop :: "broker \<Rightarrow> broker" where
  "broker_stop b = (if \<not> bk_listening b then b else b\<lparr>bk_listening := False\<rparr>)"

definition session_send :: "sid \<Rightarrow> bytes \<Rightarrow> broker \<Rightarrow> broker" where
  "session_send s bytesFrame b = b\<lparr>bk_sent := bk_sent b @ [(s, bytesFrame)]\<rparr>"

text \<open>The three callbacks \<open>onAccept\<close> gives a session.\<close>

definition on_subscribe :: "u16 \<Rightarrow> sid \<Rightarrow> broker \<Rightarrow> broker" where
  "on_subscribe topic s b =
     session_send s (frame_make topic ACK [])
       (b\<lparr>bk_registry := registry_regist topic s (bk_registry b)\<rparr>)"

definition on_unsubscribe :: "sid \<Rightarrow> broker \<Rightarrow> broker" where
  "on_unsubscribe s b = b\<lparr>bk_registry := registry_unregist (bk_alive b) s (bk_registry b)\<rparr>"

definition on_event :: "u16 \<Rightarrow> bytes \<Rightarrow> broker \<Rightarrow> broker" where
  "on_event topic payload b =
     b\<lparr>bk_sent := bk_sent b @ registry_route (bk_alive b) topic payload (bk_registry b)\<rparr>"

text \<open>\<open>ClientSession::onReceive\<close>: the parse may fail its assertion; an unknown type is logged.\<close>

definition on_receive :: "sid \<Rightarrow> bytes \<Rightarrow> broker \<Rightarrow> broker res" where
  "on_receive s raw b =
     bind_res (frame_parse raw) (\<lambda>frame.
       ok (if fr_type frame = REGIST then on_subscribe (fr_topic frame) s b
           else if fr_type frame = UNREGIST then on_unsubscribe s b
           else if fr_type frame = DATA then on_event (fr_topic frame) (fr_payload frame) b
           else b))"

text \<open>\<open>onAccept\<close>: a new session, kept alive by the receive loop \<open>establish\<close> starts.\<close>

definition on_accept :: "broker \<Rightarrow> broker" where
  "on_accept b =
     b\<lparr>bk_alive := (bk_alive b)(bk_next b := True),
       bk_rx := (bk_rx b)(bk_next b := RxHeader []),
       bk_next := Suc (bk_next b)\<rparr>"

text \<open>Bytes arriving on a session's connection run through its receive loop.\<close>

definition session_bytes :: "sid \<Rightarrow> bytes \<Rightarrow> broker \<Rightarrow> broker" where
  "session_bytes s seg b =
     (let (rx, b') = rx_feed (on_receive s) seg (bk_rx b s, b)
      in b'\<lparr>bk_rx := (bk_rx b')(s := rx)\<rparr>)"

text \<open>
  A failed read: the error handler unregisters the session; then the handlers holding the session
  are destroyed, and its weak pointers expire.
\<close>

definition session_error :: "sid \<Rightarrow> broker \<Rightarrow> broker" where
  "session_error s b =
     (let b1 = on_unsubscribe s b
      in b1\<lparr>bk_alive := (bk_alive b1)(s := False), bk_rx := (bk_rx b1)(s := RxStopped)\<rparr>)"

datatype broker_call = Accept | Frame sid u16 frame_type bytes | Lost sid

text \<open>A broker driven by whole frames: what a well-behaved peer can make it do.\<close>

fun broker_step :: "broker_call \<Rightarrow> broker \<Rightarrow> broker" where
  "broker_step Accept b = on_accept b"
| "broker_step (Frame s topic ty payload) b =
     (if bk_alive b s then
        (case on_receive s (frame_make topic ty payload) b of Inl _ \<Rightarrow> b | Inr b' \<Rightarrow> b')
      else b)"
| "broker_step (Lost s) b = (if bk_alive b s then session_error s b else b)"

lemmas broker_defs [op_defs] = on_subscribe_def on_unsubscribe_def on_event_def on_accept_def
  session_send_def session_error_def

section \<open>The registry as a multimap\<close>

text \<open>
  The contract of a topic table: registering appends to one topic, unregistering removes a session
  from all topics, and the table never keeps an empty entry. Routing needs no more than this.
\<close>

locale topic_table =
  fixes members :: "'t \<Rightarrow> u16 \<Rightarrow> sid list"
    and add :: "u16 \<Rightarrow> sid \<Rightarrow> 't \<Rightarrow> 't"
    and remove :: "(sid \<Rightarrow> bool) \<Rightarrow> sid \<Rightarrow> 't \<Rightarrow> 't"
    and tidy :: "'t \<Rightarrow> bool"
  assumes members_add: "members (add topic s t) u = (if u = topic then members t u @ [s] else members t u)"
    and members_remove: "alive s \<Longrightarrow> members (remove alive s t) u = filter (\<lambda>x. x \<noteq> s) (members t u)"
    and tidy_add: "tidy t \<Longrightarrow> tidy (add topic s t)"
    and tidy_remove: "tidy t \<Longrightarrow> tidy (remove alive s t)"
begin

lemma removed_nowhere: "alive s \<Longrightarrow> s \<notin> set (members (remove alive s t) u)"
  by (simp add: members_remove)

lemma others_kept: "alive s \<Longrightarrow> x \<noteq> s \<Longrightarrow>
  count_list (members (remove alive s t) u) x = count_list (members t u) x"
  by (simp add: members_remove count_filter_neq)

lemma add_then_remove: "alive s \<Longrightarrow> s \<notin> set (members t u) \<Longrightarrow>
  members (remove alive s (add topic s t)) u = members t u"
  by (auto simp: members_remove members_add intro: filter_True)

end

definition registry_members :: "topic_registry \<Rightarrow> u16 \<Rightarrow> sid list" where
  "registry_members r topic = (case rg_sessions r topic of None \<Rightarrow> [] | Some ss \<Rightarrow> ss)"

definition registry_tidy :: "topic_registry \<Rightarrow> bool" where
  "registry_tidy r \<longleftrightarrow> (\<forall>topic. rg_sessions r topic \<noteq> Some [])"

lemma registry_remove_members:
  "registry_members (registry_unregist alive s r) u =
   filter (\<lambda>x. \<not> (alive x \<and> x = s)) (registry_members r u)"
  by (auto simp: registry_members_def registry_unregist_def Let_def split: option.splits)

interpretation rg: topic_table registry_members registry_regist registry_unregist registry_tidy
proof unfold_locales
  show "registry_members (registry_regist topic s t) u =
      (if u = topic then registry_members t u @ [s] else registry_members t u)" for topic s t u
    by (simp add: registry_members_def registry_regist_def)
  show "registry_members (registry_unregist alive s t) u = filter (\<lambda>x. x \<noteq> s) (registry_members t u)"
    if "alive s" for alive s t u
    using that by (auto simp: registry_remove_members intro: filter_cong)
  show "registry_tidy (registry_regist topic s t)" if "registry_tidy t" for topic s t
    using that by (simp add: registry_tidy_def registry_regist_def)
  show "registry_tidy (registry_unregist alive s t)" if "registry_tidy t" for alive s t
    using that by (auto simp: registry_tidy_def registry_unregist_def Let_def split: option.splits)
qed

lemma registry_route_members:
  "registry_route alive topic payload r =
   map (\<lambda>s. (s, frame_make topic DATA payload)) (filter alive (registry_members r topic))"
  by (simp add: registry_route_def registry_members_def split: option.splits)

section \<open>What the broker should have done, read off the history\<close>

text \<open>
  A history is a list of calls, most recent first. \<open>live\<close> and \<open>subscribed\<close> say, from the calls
  alone, which sessions exist and which of them are subscribed to which topic.
\<close>

fun accepts :: "broker_call list \<Rightarrow> nat" where
  "accepts [] = 0"
| "accepts (Accept # h) = Suc (accepts h)"
| "accepts (_ # h) = accepts h"

fun live :: "broker_call list \<Rightarrow> sid \<Rightarrow> bool" where
  "live [] x = False"
| "live (Accept # h) x = (x = accepts h \<or> live h x)"
| "live (Frame s topic ty payload # h) x = live h x"
| "live (Lost s # h) x = (x \<noteq> s \<and> live h x)"

fun subscribed :: "broker_call list \<Rightarrow> sid \<Rightarrow> u16 \<Rightarrow> bool" where
  "subscribed [] x t = False"
| "subscribed (Accept # h) x t = subscribed h x t"
| "subscribed (Frame s topic ty payload # h) x t =
     (if x = s \<and> live h s \<and> ty = REGIST \<and> topic = t then True
      else if x = s \<and> ty = UNREGIST then False
      else subscribed h x t)"
| "subscribed (Lost s # h) x t = (x \<noteq> s \<and> subscribed h x t)"

abbreviation broker_after :: "broker_call list \<Rightarrow> broker" where
  "broker_after h \<equiv> run_ops broker_step (rev h) broker_new"

lemma on_receive_make:
  "on_receive s (frame_make topic ty payload) b =
   ok (if ty = REGIST then on_subscribe topic s b
       else if ty = UNREGIST then on_unsubscribe s b
       else if ty = DATA then on_event topic payload b
       else b)"
  by (simp add: on_receive_def frame_parse_make)

lemma subscribed_live: "subscribed h x t \<Longrightarrow> live h x"
  by (induction h x t rule: subscribed.induct) (auto split: if_splits)

lemma broker_after_inv:
  "bk_next (broker_after h) = accepts h \<and> (\<forall>x. bk_alive (broker_after h) x = live h x) \<and>
   registry_tidy (bk_registry (broker_after h)) \<and>
   (\<forall>x t. x \<in> set (registry_members (bk_registry (broker_after h)) t) \<longleftrightarrow> subscribed h x t)"
proof (induction h)
  case Nil
  show ?case
    by (simp add: broker_new_def registry_new_def registry_members_def registry_tidy_def)
next
  case (Cons c h)
  then have n: "bk_next (broker_after h) = accepts h" and a: "bk_alive (broker_after h) = live h"
    and t: "registry_tidy (bk_registry (broker_after h))"
    and m: "\<And>x t. x \<in> set (registry_members (bk_registry (broker_after h)) t) \<longleftrightarrow> subscribed h x t"
    by (auto simp: fun_eq_iff)
  note facts = n a t m
  show ?case
  proof (cases c)
    case Accept
    then show ?thesis using facts by (auto simp: on_accept_def)
  next
    case (Frame s topic ty payload)
    show ?thesis
    proof (cases "live h s")
      case True
      then show ?thesis
        using facts Frame
        by (auto simp: on_receive_make broker_defs rg.members_add rg.members_remove rg.tidy_add
            rg.tidy_remove)
    next
      case False
      then have "\<not> subscribed h s u" for u using subscribed_live by blast
      then show ?thesis using facts Frame False by auto
    qed
  next
    case (Lost s)
    show ?thesis
    proof (cases "live h s")
      case True
      then show ?thesis
        using facts Lost
        by (auto simp: session_error_def on_unsubscribe_def Let_def rg.members_remove rg.tidy_remove)
    next
      case False
      then have "\<not> subscribed h s u" for u using subscribed_live by blast
      then show ?thesis using facts Lost False by auto
    qed
  qed
qed

section \<open>Properties\<close>

text \<open>
  Topic routing is right for every history of connections, frames and disconnections: when a
  live session publishes a payload on a topic, the broker sends new frames, all of them the DATA
  frame with that topic and payload, to exactly the sessions that are subscribed to the topic
  according to the history. No other session and no other topic gets anything.
\<close>

theorem broker_routes_to_subscribers:
  assumes "live h s"
  shows "\<exists>out. bk_sent (broker_after (Frame s t DATA p # h)) = bk_sent (broker_after h) @ out \<and>
    (\<forall>x bs. (x, bs) \<in> set out \<longleftrightarrow> bs = frame_make t DATA p \<and> subscribed h x t)"
proof -
  let ?b = "broker_after h"
  let ?out = "registry_route (bk_alive ?b) t p (bk_registry ?b)"
  have "bk_alive ?b s" using assms broker_after_inv [of h] by simp
  then have "bk_sent (broker_after (Frame s t DATA p # h)) = bk_sent ?b @ ?out"
    by (simp add: on_receive_make on_event_def)
  moreover have "(x, bs) \<in> set ?out \<longleftrightarrow> bs = frame_make t DATA p \<and> subscribed h x t" for x bs
    using broker_after_inv [of h] subscribed_live [of h x t] by (auto simp: registry_route_members)
  ultimately show ?thesis by blast
qed

theorem broker_routes_to_subscribers_witness:
  "\<exists>out. bk_sent (broker_after [Frame 1 10 DATA [5], Frame 0 10 REGIST [], Accept, Accept]) =
      bk_sent (broker_after [Frame 0 10 REGIST [], Accept, Accept]) @ out \<and>
    (0, frame_make 10 DATA [5]) \<in> set out"
proof -
  let ?h = "[Frame 0 10 REGIST [], Accept, Accept]"
  have l: "live ?h 1" by simp
  have s: "subscribed ?h 0 10" by simp
  show ?thesis using broker_routes_to_subscribers [OF l, of 10 "[5]"] s by blast
qed

text \<open>
  C6. The registry stays consistent: after any history, a session is listed under a topic exactly
  when the history subscribed it, every listed session is alive, and no topic is kept with an
  empty list, so the table is bounded by the live subscriptions.
\<close>

theorem broker_registry_invariant:
  "(x \<in> set (registry_members (bk_registry (broker_after h)) t) \<longleftrightarrow> subscribed h x t) \<and>
   (subscribed h x t \<longrightarrow> bk_alive (broker_after h) x) \<and>
   rg_sessions (bk_registry (broker_after h)) t \<noteq> Some []"
  using broker_after_inv [of h] subscribed_live [of h x t] by (auto simp: registry_tidy_def)

theorem broker_registry_invariant_witness:
  "bk_alive (broker_after [Frame 0 10 REGIST [], Accept]) 0"
  using broker_registry_invariant [of 0 "[Frame 0 10 REGIST [], Accept]" 10] by simp

end
