(* ===== verification/EventTransport.thy ===== *)
theory EventTransport
  imports EventBroker
begin

text \<open>
  The client side of the publish/subscribe system: \<open>TcpTransport\<close> (\<open>asio/AsyncEventTransport.hpp\<close>
  and \<open>.cpp\<close>), the default operations of \<open>EventTransport.hpp\<close>, and \<open>EventPublisher\<close> and
  \<open>EventSubscriber\<close> (\<open>communication/Event.hpp\<close>, \<open>impl/*.ipp\<close>). The work posted to the strand is a
  queue of tasks; \<open>connect\<close> and \<open>subscribe\<close> run in the caller, as in the code. \<open>strict\<close> is
  \<open>STRICT_MODE_ENABLED\<close>. The application behind the callbacks is a state \<open>'st\<close> its handlers
  transform or fail on.
\<close>

section \<open>TcpTransport\<close>

datatype strand_task = TaskDisconnect | TaskPublish bytes

text \<open>The handler of an outstanding \<open>async_connect\<close>: the one of \<open>connect\<close> or the one of \<open>subscribe\<close>.\<close>

datatype 'st on_connect =
    ForPublish
  | ForSubscribe "bytes \<Rightarrow> 'st \<Rightarrow> 'st res" "('st \<Rightarrow> 'st res) option"

text \<open>
  Sockets are numbered in order of creation; \<open>tt_socket\<close> is \<open>_socket\<close>, \<open>tt_connecting\<close> the
  connects that have not completed yet, with the socket they belong to, and \<open>tt_sent\<close> the data given
  to \<open>AsyncTcpSocket::send\<close> so far.
\<close>

record 'st tcp_transport =
  tt_conn :: connection
  tt_topic :: u16
  tt_socket :: "(nat \<times> tcp_socket) option"
  tt_connected :: bool
  tt_strand :: "strand_task list"
  tt_connecting :: "(nat \<times> 'st on_connect) list"
  tt_receiver :: "((bytes \<Rightarrow> 'st \<Rightarrow> 'st res) \<times> ('st \<Rightarrow> 'st res) option) option"
  tt_sent :: "bytes list"
  tt_next :: nat

definition transport_new :: "connection \<Rightarrow> u16 \<Rightarrow> 'st tcp_transport" where
  "transport_new conn topic = \<lparr>tt_conn = conn, tt_topic = topic, tt_socket = None,
     tt_connected = False, tt_strand = [], tt_connecting = [], tt_receiver = None, tt_sent = [],
     tt_next = 0\<rparr>"

text \<open>
  The common part of \<open>connect\<close> and \<open>subscribe\<close>. The host name is resolved inside
  \<open>AsyncTcpSocket::connect\<close>, after \<open>_socket\<close> has been assigned; \<open>resolver.resolve\<close> throws when it fails.
\<close>

definition transport_open ::
  "bool \<Rightarrow> (connection \<Rightarrow> bool) \<Rightarrow> 'st on_connect \<Rightarrow> 'st tcp_transport \<Rightarrow> 'st tcp_transport \<times> unit res" where
  "transport_open strict resolves handler t =
     (if tt_socket t \<noteq> None then (t, if strict then Inl Aborted else ok ())
      else let t1 = t\<lparr>tt_socket := Some (tt_next t, tcp_new (tt_conn t)), tt_next := Suc (tt_next t)\<rparr>
           in if resolves (tt_conn t)
              then (t1\<lparr>tt_connecting := tt_connecting t1 @ [(tt_next t, handler)]\<rparr>, ok ())
              else (t1, Inl (StdException ''system_error'')))"

definition transport_connect ::
  "bool \<Rightarrow> (connection \<Rightarrow> bool) \<Rightarrow> 'st tcp_transport \<Rightarrow> 'st tcp_transport \<times> unit res" where
  "transport_connect strict resolves t = transport_open strict resolves ForPublish t"

definition transport_subscribe ::
  "bool \<Rightarrow> (connection \<Rightarrow> bool) \<Rightarrow> (bytes \<Rightarrow> 'st \<Rightarrow> 'st res) \<Rightarrow> ('st \<Rightarrow> 'st res) option \<Rightarrow>
   'st tcp_transport \<Rightarrow> 'st tcp_transport \<times> unit res" where
  "transport_subscribe strict resolves onMessage onSubscribed t =
     transport_open strict resolves (ForSubscribe onMessage onSubscribed) t"

definition transport_connected :: "'st tcp_transport \<Rightarrow> bool" where
  "transport_connected t = tt_connected t"

definition transport_disconnect :: "'st tcp_transport \<Rightarrow> 'st tcp_transport" where
  "transport_disconnect t = t\<lparr>tt_strand := tt_strand t @ [TaskDisconnect]\<rparr>"

definition transport_publish :: "bytes \<Rightarrow> 'st tcp_transport \<Rightarrow> 'st tcp_transport" where
  "transport_publish payload t = t\<lparr>tt_strand := tt_strand t @ [TaskPublish payload]\<rparr>"

text \<open>The strand runs the posted lambdas one at a time, in the order they were posted.\<close>

fun run_task :: "strand_task \<Rightarrow> 'st tcp_transport \<Rightarrow> 'st tcp_transport res" where
  "run_task TaskDisconnect t =
     (if tt_socket t = None then ok t
      else ok (t\<lparr>tt_socket := None, tt_receiver := None, tt_connected := False\<rparr>))"
| "run_task (TaskPublish payload) t =
     (if \<not> tt_connected t then ok t
      else case tt_socket t of
        None \<Rightarrow> Inl (UndefinedBehaviour ''_socket is null'')
      | Some _ \<Rightarrow> ok (t\<lparr>tt_sent := tt_sent t @ [frame_make (tt_topic t) DATA payload]\<rparr>))"

definition strand_settle :: "'st tcp_transport \<Rightarrow> 'st tcp_transport res" where
  "strand_settle t = run_res run_task (tt_strand t) (t\<lparr>tt_strand := []\<rparr>)"

text \<open>
  Completion of a connect. The handler of \<open>AsyncSocketImpl::connect\<close> captures a bare \<open>this\<close>: when the
  transport has dropped that socket in the meantime, a success still stores into the destroyed
  object.
\<close>

definition transport_connect_done ::
  "nat \<Rightarrow> net_error option \<Rightarrow> 'st tcp_transport \<Rightarrow> 'st tcp_transport res" where
  "transport_connect_done i ec t =
     (case map_of (tt_connecting t) i of
        None \<Rightarrow> ok t
      | Some handler \<Rightarrow>
          (let t1 = t\<lparr>tt_connecting := filter (\<lambda>c. fst c \<noteq> i) (tt_connecting t)\<rparr>
           in if ec \<noteq> None then ok t1
              else case tt_socket t of
                None \<Rightarrow> Inl (UndefinedBehaviour ''socket used after destruction'')
              | Some (j, s) \<Rightarrow>
                  if j \<noteq> i then Inl (UndefinedBehaviour ''socket used after destruction'')
                  else let s1 = fst (tcp_connect_done True None s);
                           t2 = t1\<lparr>tt_connected := True, tt_socket := Some (i, s1)\<rparr>
                       in (case handler of
                             ForPublish \<Rightarrow> ok t2
                           | ForSubscribe onMessage onSubscribed \<Rightarrow>
                               ok (t2\<lparr>tt_sent := tt_sent t2 @ [frame_make (tt_topic t) REGIST []],
                                      tt_socket := Some (i, tcp_receive s1),
                                      tt_receiver := Some (onMessage, onSubscribed)\<rparr>))))"

text \<open>The receive callback; calling an empty \<open>std::function\<close> throws \<open>std::bad_function_call\<close>.\<close>

definition transport_on_raw ::
  "(bytes \<Rightarrow> 'st \<Rightarrow> 'st res) \<Rightarrow> ('st \<Rightarrow> 'st res) option \<Rightarrow> bytes \<Rightarrow> 'st \<Rightarrow> 'st res" where
  "transport_on_raw onMessage onSubscribed raw st =
     bind_res (frame_parse raw) (\<lambda>frame.
       if fr_type frame = ACK then
         (case onSubscribed of None \<Rightarrow> Inl (StdException ''bad_function_call'') | Some f \<Rightarrow> f st)
       else if fr_type frame = DATA then onMessage (fr_payload frame) st
       else ok st)"

text \<open>Bytes arriving at the transport's socket, and the end of its connection.\<close>

definition transport_bytes :: "bytes \<Rightarrow> 'st tcp_transport \<times> 'st \<Rightarrow> 'st tcp_transport \<times> 'st" where
  "transport_bytes seg = (\<lambda>(t, st).
     case (tt_socket t, tt_receiver t) of
       (Some (i, s), Some (onMessage, onSubscribed)) \<Rightarrow>
         (let (rx, st') = rx_feed (transport_on_raw onMessage onSubscribed) seg (ts_rx s, st)
          in (t\<lparr>tt_socket := Some (i, s\<lparr>ts_rx := rx\<rparr>)\<rparr>, st'))
     | _ \<Rightarrow> (t, st))"

definition transport_lost :: "net_error \<Rightarrow> 'st tcp_transport \<Rightarrow> 'st tcp_transport" where
  "transport_lost ec t =
     (case tt_socket t of
        None \<Rightarrow> t
      | Some (i, s) \<Rightarrow> t\<lparr>tt_socket := Some (i, fst (tcp_receive_error True ec s))\<rparr>)"

text \<open>The operations \<open>EventTransport\<close> gives a transport that does not override them.\<close>

definition default_operation :: "bool \<Rightarrow> unit res" where
  "default_operation strict = (if strict then Inl Aborted else ok ())"

lemmas transport_defs [op_defs] = transport_open_def transport_connect_def transport_subscribe_def
  transport_connected_def transport_disconnect_def transport_publish_def strand_settle_def

section \<open>The contract of a transport\<close>

text \<open>
  What publisher and subscriber need of a transport: after the posted work has run, a disconnected
  transport is not connected, a connected one has handed exactly the wire form of a published
  payload to the network and is still connected, and one that is not connected has sent nothing.
\<close>

locale transport =
  fixes connected :: "'t \<Rightarrow> bool"
    and disconnect :: "'t \<Rightarrow> 't"
    and publish :: "bytes \<Rightarrow> 't \<Rightarrow> 't"
    and settle :: "'t \<Rightarrow> 't res"
    and sent :: "'t \<Rightarrow> bytes list"
    and wire :: "'t \<Rightarrow> bytes \<Rightarrow> bytes"
    and good :: "'t \<Rightarrow> bool"
  assumes settle_disconnect: "good t \<Longrightarrow>
      \<exists>u. settle (disconnect t) = ok u \<and> good u \<and> \<not> connected u \<and> sent u = sent t"
    and settle_publish: "good t \<Longrightarrow> \<exists>u. settle (publish b t) = ok u \<and> good u \<and>
      connected u = connected t \<and> wire u = wire t \<and>
      sent u = sent t @ (if connected t then [wire t b] else [])"
begin

lemma publish_all_sent:
  "good t \<Longrightarrow> \<exists>u. run_res (\<lambda>b t. settle (publish b t)) bs t = ok u \<and> good u \<and>
     connected u = connected t \<and> sent u = sent t @ (if connected t then map (wire t) bs else [])"
proof (induction bs arbitrary: t)
  case (Cons b bs)
  from settle_publish [OF Cons.prems, of b] obtain u where u: "settle (publish b t) = ok u" "good u"
    "connected u = connected t" "wire u = wire t"
    "sent u = sent t @ (if connected t then [wire t b] else [])" by blast
  from Cons.IH [OF u(2)] obtain v where
    "run_res (\<lambda>b t. settle (publish b t)) bs u = ok v" "good v" "connected v = connected u"
    "sent v = sent u @ (if connected u then map (wire u) bs else [])" by blast
  then show ?case using u by (auto split: if_splits)
qed simp

lemma silent_after_disconnect:
  assumes "good t"
  shows "\<exists>u v. settle (disconnect t) = ok u \<and>
    run_res (\<lambda>b t. settle (publish b t)) bs u = ok v \<and> sent v = sent t"
proof -
  from settle_disconnect [OF assms] obtain u where u: "settle (disconnect t) = ok u" "good u"
    "\<not> connected u" "sent u = sent t" by blast
  from publish_all_sent [OF u(2), of bs] u show ?thesis by auto
qed

end

section \<open>The transport as a state machine\<close>

text \<open>Everything that can happen to a transport, one event at a time; \<open>'st\<close> evolves in its callbacks.\<close>

inductive transport_step ::
  "bool \<Rightarrow> (connection \<Rightarrow> bool) \<Rightarrow> 'st tcp_transport \<times> 'st \<Rightarrow> 'st tcp_transport \<times> 'st \<Rightarrow> bool"
  for strict :: bool and resolves :: "connection \<Rightarrow> bool" where
  ts_connect: "fst (transport_connect strict resolves t) = u \<Longrightarrow>
    transport_step strict resolves (t, st) (u, st)"
| ts_subscribe: "fst (transport_subscribe strict resolves m s t) = u \<Longrightarrow>
    transport_step strict resolves (t, st) (u, st)"
| ts_disconnect: "transport_step strict resolves (t, st) (transport_disconnect t, st)"
| ts_publish: "transport_step strict resolves (t, st) (transport_publish b t, st)"
| ts_task: "tt_strand t = task # tasks \<Longrightarrow> run_task task (t\<lparr>tt_strand := tasks\<rparr>) = ok u \<Longrightarrow>
    transport_step strict resolves (t, st) (u, st)"
| ts_done: "transport_connect_done i ec t = ok u \<Longrightarrow> transport_step strict resolves (t, st) (u, st)"
| ts_bytes: "transport_bytes seg (t, st) = (u, st') \<Longrightarrow>
    transport_step strict resolves (t, st) (u, st')"
| ts_lost: "transport_step strict resolves (t, st) (transport_lost ec t, st)"

definition keys_below :: "nat \<Rightarrow> (nat \<times> 'a) list \<Rightarrow> bool" where
  "keys_below n kvs \<longleftrightarrow> (\<forall>k\<in>set (map fst kvs). k < n)"

lemma keys_below_simps [simp]:
  "keys_below n []"
  "keys_below n (kvs @ [(k, v)]) \<longleftrightarrow> keys_below n kvs \<and> k < n"
  by (auto simp: keys_below_def)

lemma keys_below_mono [intro]: "keys_below n kvs \<Longrightarrow> keys_below (Suc n) kvs"
  by (auto simp: keys_below_def)

lemma keys_below_filter [intro]: "keys_below n kvs \<Longrightarrow> keys_below n (filter P kvs)"
  by (auto simp: keys_below_def)

definition transport_init :: "'st tcp_transport \<times> 'st \<Rightarrow> bool" where
  "transport_init c \<longleftrightarrow> (\<exists>conn topic. fst c = transport_new conn topic)"

definition transport_inv :: "'st tcp_transport \<times> 'st \<Rightarrow> bool" where
  "transport_inv c \<longleftrightarrow>
     (tt_connected (fst c) \<longrightarrow> tt_socket (fst c) \<noteq> None) \<and>
     (tt_receiver (fst c) \<noteq> None \<longrightarrow> tt_connected (fst c)) \<and>
     (\<forall>i s. tt_socket (fst c) = Some (i, s) \<longrightarrow> i < tt_next (fst c)) \<and>
     keys_below (tt_next (fst c)) (tt_connecting (fst c))"

lemma transport_open_inv:
  "transport_inv (t, st) \<Longrightarrow> transport_inv (fst (transport_open strict resolves h t), st)"
  by (auto simp: transport_inv_def transport_open_def Let_def less_SucI)

lemma run_task_inv: "transport_inv (t, st) \<Longrightarrow> run_task task t = ok u \<Longrightarrow> transport_inv (u, st)"
  by (cases task) (auto simp: transport_inv_def split: if_splits option.splits)

lemma transport_done_inv:
  "transport_inv (t, st) \<Longrightarrow> transport_connect_done i ec t = ok u \<Longrightarrow> transport_inv (u, st)"
  by (auto simp: transport_inv_def transport_connect_done_def Let_def
      split: if_splits option.splits prod.splits on_connect.splits)

lemma transport_bytes_inv:
  "transport_inv (t, st) \<Longrightarrow> transport_bytes seg (t, st) = (u, st') \<Longrightarrow> transport_inv (u, st')"
  by (auto simp: transport_inv_def transport_bytes_def split: option.splits prod.splits)

lemma transport_lost_inv: "transport_inv (t, st) \<Longrightarrow> transport_inv (transport_lost ec t, st)"
  by (auto simp: transport_inv_def transport_lost_def split: option.splits prod.splits)

lemma transport_step_inv:
  assumes "transport_inv c" and "transport_step strict resolves c d"
  shows "transport_inv d"
  using assms(2,1)
proof cases
  case (ts_task t task tasks u st)
  from assms(1) ts_task(1) have "transport_inv (t\<lparr>tt_strand := tasks\<rparr>, st)"
    by (simp add: transport_inv_def)
  from run_task_inv [OF this ts_task(4)] show ?thesis by (simp only: ts_task(2))
next
  case (ts_connect t u st)
  then have "d = (fst (transport_open strict resolves ForPublish t), st)"
    by (simp only: transport_connect_def)
  with assms(1) show ?thesis by (simp only: ts_connect(1) transport_open_inv)
next
  case (ts_subscribe m s t u st)
  then have "d = (fst (transport_open strict resolves (ForSubscribe m s) t), st)"
    by (simp only: transport_subscribe_def)
  with assms(1) show ?thesis by (simp only: ts_subscribe(1) transport_open_inv)
next
  case (ts_disconnect t st)
  then show ?thesis using assms(1) by (simp add: transport_inv_def transport_disconnect_def)
next
  case (ts_publish t st b)
  then show ?thesis using assms(1) by (simp add: transport_inv_def transport_publish_def)
next
  case (ts_done i ec t u st)
  from transport_done_inv [OF _ ts_done(3)] assms(1) show ?thesis by (simp only: ts_done(1,2))
next
  case (ts_bytes seg t st u st')
  from transport_bytes_inv [OF _ ts_bytes(3)] assms(1) show ?thesis by (simp only: ts_bytes(1,2))
next
  case (ts_lost t st ec)
  from transport_lost_inv assms(1) show ?thesis by (simp only: ts_lost)
qed

interpretation tt: stepping transport_init "transport_step strict resolves" transport_inv
  for strict resolves
proof unfold_locales
  show "transport_inv c" if "transport_init c" for c :: "'a tcp_transport \<times> 'a"
    using that by (cases c) (auto simp: transport_init_def transport_inv_def transport_new_def)
  show "transport_inv d" if "transport_inv c" "transport_step strict resolves c d"
    for c d :: "'a tcp_transport \<times> 'a"
    using that by (rule transport_step_inv)
qed

text \<open>A transport with no posted work outstanding.\<close>

definition transport_good :: "'st tcp_transport \<Rightarrow> bool" where
  "transport_good t \<longleftrightarrow> tt_strand t = [] \<and> (tt_connected t \<longrightarrow> tt_socket t \<noteq> None)"

definition transport_wire :: "'st tcp_transport \<Rightarrow> bytes \<Rightarrow> bytes" where
  "transport_wire t payload = frame_make (tt_topic t) DATA payload"

interpretation tr: transport transport_connected transport_disconnect transport_publish strand_settle
  tt_sent transport_wire transport_good
proof unfold_locales
  show "\<exists>u. strand_settle (transport_disconnect t) = ok u \<and> transport_good u \<and>
      \<not> transport_connected u \<and> tt_sent u = tt_sent t" if "transport_good t" for t :: "'a tcp_transport"
    using that by (auto simp: transport_good_def transport_defs)
  show "\<exists>u. strand_settle (transport_publish b t) = ok u \<and> transport_good u \<and>
      transport_connected u = transport_connected t \<and> transport_wire u = transport_wire t \<and>
      tt_sent u = tt_sent t @ (if transport_connected t then [transport_wire t b] else [])"
    if "transport_good t" for b and t :: "'a tcp_transport"
    using that by (auto simp: transport_good_def transport_defs transport_wire_def fun_eq_iff)
qed

section \<open>EventPublisher\<close>

text \<open>
  A publisher is its transport. \<open>enc\<close> is the data type's \<open>operator<<(Bytes&, const DataType&)\<close>
  applied to an empty buffer.
\<close>

definition publisher_create :: "connection \<Rightarrow> u16 \<Rightarrow> 'st tcp_transport res" where
  "publisher_create conn topic =
     (case cn_protocol conn of TCP \<Rightarrow> ok (transport_new conn topic) | UDP \<Rightarrow> Inl Aborted)"

definition publisher_regist ::
  "bool \<Rightarrow> (connection \<Rightarrow> bool) \<Rightarrow> 'st tcp_transport \<Rightarrow> 'st tcp_transport \<times> unit res" where
  "publisher_regist strict resolves t =
     (if transport_connected t then (t, if strict then Inl Aborted else ok ())
      else transport_connect strict resolves t)"

definition publisher_unregist :: "'st tcp_transport \<Rightarrow> 'st tcp_transport" where
  "publisher_unregist t = transport_disconnect t"

definition publisher_publish :: "('d \<Rightarrow> bytes) \<Rightarrow> 'd \<Rightarrow> 'st tcp_transport \<Rightarrow> 'st tcp_transport" where
  "publisher_publish enc data t = transport_publish (enc data) t"

section \<open>EventSubscriber\<close>

text \<open>\<open>dec\<close> is the data type's \<open>operator<<(DataType&, const Bytes&)\<close>, which may throw.\<close>

record ('d, 'st) subscriber =
  sb_handler :: "('d \<Rightarrow> 'st \<Rightarrow> 'st res) option"
  sb_transport :: "'st tcp_transport"

definition subscriber_create :: "connection \<Rightarrow> u16 \<Rightarrow> ('d, 'st) subscriber res" where
  "subscriber_create conn topic =
     (case cn_protocol conn of
        TCP \<Rightarrow> ok \<lparr>sb_handler = None, sb_transport = transport_new conn topic\<rparr>
      | UDP \<Rightarrow> Inl Aborted)"

definition event_message ::
  "(bytes \<Rightarrow> 'd res) \<Rightarrow> ('d \<Rightarrow> 'st \<Rightarrow> 'st res) \<Rightarrow> bytes \<Rightarrow> 'st \<Rightarrow> 'st res" where
  "event_message dec handler bs st = bind_res (dec bs) (\<lambda>data. handler data st)"

definition subscriber_subscribe ::
  "bool \<Rightarrow> (connection \<Rightarrow> bool) \<Rightarrow> (bytes \<Rightarrow> 'd res) \<Rightarrow> ('d \<Rightarrow> 'st \<Rightarrow> 'st res) \<Rightarrow>
   ('st \<Rightarrow> 'st res) option \<Rightarrow> ('d, 'st) subscriber \<Rightarrow> ('d, 'st) subscriber \<times> unit res" where
  "subscriber_subscribe strict resolves dec onEvent onSubscribed s =
     (if transport_connected (sb_transport s) then (s, if strict then Inl Aborted else ok ())
      else let (t, r) = transport_subscribe strict resolves (event_message dec onEvent) onSubscribed
                          (sb_transport s)
           in (s\<lparr>sb_handler := Some onEvent, sb_transport := t\<rparr>, r))"

definition subscriber_unsubscribe :: "('d, 'st) subscriber \<Rightarrow> ('d, 'st) subscriber" where
  "subscriber_unsubscribe s = s\<lparr>sb_transport := transport_disconnect (sb_transport s)\<rparr>"

text \<open>
  The destructors of both. The transport itself outlives them: the lambda posted by \<open>disconnect\<close> holds it.
\<close>

definition publisher_destroy :: "'st tcp_transport \<Rightarrow> 'st tcp_transport" where
  "publisher_destroy t = transport_disconnect t"

definition subscriber_destroy :: "('d, 'st) subscriber \<Rightarrow> 'st tcp_transport" where
  "subscriber_destroy s = transport_disconnect (sb_transport s)"

lemma destroyed_is_silent:
  assumes "transport_good t"
  shows "\<exists>u. strand_settle (publisher_destroy t) = ok u \<and> \<not> transport_connected u \<and> tt_sent u = tt_sent t"
  using tr.settle_disconnect [OF assms] by (auto simp: publisher_destroy_def)

section \<open>What arrives at a subscriber\<close>

lemma length_frame_make [simp]: "length (frame_make topic ty payload) = 3 + length payload"
  by (simp add: frame_make_def)

lemma on_raw_make:
  "transport_on_raw m f (frame_make topic ty payload) st =
   (if ty = ACK then (case f of None \<Rightarrow> Inl (StdException ''bad_function_call'') | Some g \<Rightarrow> g st)
    else if ty = DATA then m payload st else ok st)"
  by (simp add: transport_on_raw_def frame_parse_make)

lemma on_raw_data:
  "run_res m ps st = ok st' \<Longrightarrow>
   rx_messages (transport_on_raw m f) (map (frame_make topic DATA) ps) st = (RxHeader [], st')"
proof (induction ps arbitrary: st)
  case (Cons p ps)
  then show ?case by (cases "m p st") (simp_all add: on_raw_make)
qed simp

lemma event_messages:
  "\<forall>d\<in>set ds. dec (enc d) = ok d \<Longrightarrow>
   run_res (event_message dec h) (map enc ds) st = run_res h ds st"
proof (induction ds arbitrary: st)
  case (Cons d ds)
  then show ?case by (cases "h d st") (simp_all add: event_message_def)
qed simp

lemma transport_bytes_Nil [simp]: "transport_bytes [] c = c"
  by (cases c) (auto simp: transport_bytes_def split: option.splits)

lemma transport_bytes_append: "transport_bytes (xs @ ys) c = transport_bytes ys (transport_bytes xs c)"
  by (cases c) (auto simp: transport_bytes_def split: option.splits prod.splits)

lemma transport_bytes_segments:
  "transport_bytes (concat segs) c = foldl (\<lambda>c seg. transport_bytes seg c) c segs"
  by (induction segs arbitrary: c) (auto simp: transport_bytes_append)

lemma transport_bytes_frames:
  assumes "tt_socket t = Some (i, s)" "ts_rx s = RxHeader []" "tt_receiver t = Some (m, f)"
    and "\<forall>x\<in>set ms. length x < 2 ^ 32"
    and "rx_messages (transport_on_raw m f) ms st = (rx, st')"
  shows "transport_bytes (concat (map tcp_frame ms)) (t, st) =
    (t\<lparr>tt_socket := Some (i, s\<lparr>ts_rx := rx\<rparr>)\<rparr>, st')"
  using assms rx_feed_frames [OF assms(4), of "transport_on_raw m f" st]
  by (simp add: transport_bytes_def)

section \<open>Properties\<close>

text \<open>
  No sequence of calls, completions, received bytes and failures makes the strand use a null
  socket: in every reachable state of a transport, whatever is posted next runs to its end, and
  what it leaves is again a state in which a connected transport has a socket.
\<close>

theorem transport_strand_safe:
  assumes "reach transport_init (transport_step strict resolves) (t, st)"
  shows "\<exists>u. run_task task t = ok u \<and> (tt_connected u \<longrightarrow> tt_socket u \<noteq> None)"
proof -
  have "transport_inv (t, st)" using assms by (rule tt.reach_inv)
  then show ?thesis
    by (cases task) (auto simp: transport_inv_def split: option.splits)
qed

theorem transport_strand_safe_witness:
  "\<exists>u. run_task (TaskPublish [1])
     (transport_new \<lparr>cn_protocol = TCP, cn_address = ''h'', cn_port = 1\<rparr> 7 :: nat tcp_transport) = ok u \<and>
     (tt_connected u \<longrightarrow> tt_socket u \<noteq> None)"
proof (rule transport_strand_safe)
  show "reach transport_init (transport_step True (\<lambda>_. True))
    (transport_new \<lparr>cn_protocol = TCP, cn_address = ''h'', cn_port = 1\<rparr> 7 :: nat tcp_transport, 0)"
    by (rule reach_init) (auto simp: transport_init_def)
qed

text \<open>
  A publisher sends what it was given while it is registered and nothing otherwise: over a
  connected transport the published values reach the socket as DATA frames of its topic, all of them,
  in order; over a transport that is not connected, and after \<open>unregist\<close>, they are dropped and no
  call fails.
\<close>

theorem publisher_sends_in_order:
  fixes ds :: "'d list" and t :: "'st tcp_transport"
  assumes "transport_good t"
  shows "(\<exists>u. run_res (\<lambda>d t. strand_settle (publisher_publish enc d t)) ds t = ok u \<and>
      tt_sent u = tt_sent t @
        (if transport_connected t then map (\<lambda>d. frame_make (tt_topic t) DATA (enc d)) ds else [])) \<and>
    (\<exists>u v. strand_settle (publisher_unregist t) = ok u \<and> \<not> transport_connected u \<and>
      run_res (\<lambda>d t. strand_settle (publisher_publish enc d t)) ds u = ok v \<and> tt_sent v = tt_sent t)"
proof -
  have m: "run_res (\<lambda>d t. strand_settle (publisher_publish enc d t)) ds v =
      run_res (\<lambda>b t. strand_settle (transport_publish b t)) (map enc ds) v" for v :: "'st tcp_transport"
  proof (induction ds arbitrary: v)
    case (Cons d ds)
    then show ?case
      by (cases "strand_settle (transport_publish (enc d) v)") (simp_all add: publisher_publish_def)
  qed simp
  from tr.settle_disconnect [OF assms] obtain u where
    u: "strand_settle (transport_disconnect t) = ok u" "transport_good u" "\<not> transport_connected u"
      "tt_sent u = tt_sent t" by blast
  from tr.publish_all_sent [OF u(2), of "map enc ds"] u(3,4) obtain v where
    "run_res (\<lambda>b t. strand_settle (transport_publish b t)) (map enc ds) u = ok v" "tt_sent v = tt_sent t"
    by auto
  moreover from tr.publish_all_sent [OF assms, of "map enc ds"]
  have "\<exists>u. run_res (\<lambda>b t. strand_settle (transport_publish b t)) (map enc ds) t = ok u \<and>
      tt_sent u = tt_sent t @
        (if transport_connected t then map (\<lambda>d. frame_make (tt_topic t) DATA (enc d)) ds else [])"
    by (auto simp: transport_wire_def comp_def)
  ultimately show ?thesis using u unfolding m publisher_unregist_def by blast
qed

theorem publisher_sends_in_order_witness:
  "\<exists>u v. strand_settle (publisher_unregist (transport_new \<lparr>cn_protocol = TCP, cn_address = ''h'', cn_port = 1\<rparr> 7 :: nat tcp_transport)) = ok u \<and>
     \<not> transport_connected u \<and>
     run_res (\<lambda>d t. strand_settle (publisher_publish (\<lambda>n. [n]) d t)) [1, 2] u = ok v \<and> tt_sent v = []"
proof -
  have "transport_good (transport_new \<lparr>cn_protocol = TCP, cn_address = ''h'', cn_port = 1\<rparr> 7 :: nat tcp_transport)"
    by (simp add: transport_good_def transport_new_def)
  from publisher_sends_in_order [OF this, of "\<lambda>n. [n]" "[1, 2]"] show ?thesis
    by (simp add: transport_new_def)
qed

text \<open>
  A subscriber with a subscription handler gets the events: once its connection is up, the
  acknowledgement runs that handler and every DATA frame hands the decoded value to the event
  handler, in the order sent, each exactly once and however the stream is cut; afterwards the
  receive loop is ready for the next frame. The data type's decoder is assumed to read back what
  its encoder wrote for the values sent.
\<close>

theorem subscriber_receives_events:
  assumes "tt_socket t = Some (i, s)" "ts_rx s = RxHeader []"
    and "tt_receiver t = Some (event_message dec h, Some f)" and "f st = ok st1"
    and codec: "\<forall>d\<in>set ds. dec (enc d) = ok d \<and> length (enc d) < 2 ^ 32 - 3"
    and "run_res h ds st1 = ok st2"
    and "concat segs = concat (map tcp_frame
      (frame_make topic ACK [] # map (\<lambda>d. frame_make topic DATA (enc d)) ds))"
  shows "foldl (\<lambda>c seg. transport_bytes seg c) (t, st) segs = (t, st2)"
proof -
  let ?ms = "frame_make topic ACK [] # map (\<lambda>d. frame_make topic DATA (enc d)) ds"
  have small: "\<forall>x\<in>set ?ms. length x < 2 ^ 32" using codec by auto
  have "run_res (event_message dec h) (map enc ds) st1 = ok st2"
    using event_messages [of ds dec enc h st1] codec assms(6) by simp
  from on_raw_data [OF this, of "Some f" topic]
  have "rx_messages (transport_on_raw (event_message dec h) (Some f)) ?ms st = (RxHeader [], st2)"
    using assms(4) by (simp add: on_raw_make comp_def)
  from transport_bytes_frames [OF assms(1-3) small this]
  have "transport_bytes (concat segs) (t, st) = (t\<lparr>tt_socket := Some (i, s\<lparr>ts_rx := RxHeader []\<rparr>)\<rparr>, st2)"
    using assms(7) by simp
  moreover have "t\<lparr>tt_socket := Some (i, s\<lparr>ts_rx := RxHeader []\<rparr>)\<rparr> = t" using assms(1,2) by simp
  ultimately show ?thesis by (simp add: transport_bytes_segments)
qed

definition demo_socket :: tcp_socket where
  "demo_socket = \<lparr>ts_conn = \<lparr>cn_protocol = TCP, cn_address = ''h'', cn_port = 1\<rparr>,
     ts_connected = True, ts_open = True, ts_rx = RxHeader []\<rparr>"

definition demo_subscriber :: "(u8 list \<Rightarrow> u8 list res) option \<Rightarrow> u8 list tcp_transport" where
  "demo_subscriber f =
     (transport_new (ts_conn demo_socket) 7)\<lparr>tt_socket := Some (0, demo_socket), tt_connected := True,
        tt_receiver := Some (event_message (\<lambda>bs. ok (hd bs)) (\<lambda>d st. ok (st @ [d])), f)\<rparr>"

theorem subscriber_receives_events_witness:
  "foldl (\<lambda>c seg. transport_bytes seg c) (demo_subscriber (Some ok), [])
     [tcp_frame (frame_make 7 ACK []), tcp_frame (frame_make 7 DATA [5])] =
   (demo_subscriber (Some ok), [5])"
  by (rule subscriber_receives_events [where i = 0 and s = demo_socket and dec = "\<lambda>bs. ok (hd bs)"
        and h = "\<lambda>d st. ok (st @ [d])" and f = ok and enc = "\<lambda>d. [d]" and ds = "[5]" and topic = 7
        and ?st1.0 = "[]"])
    (simp_all add: demo_subscriber_def demo_socket_def)

text \<open>
  A subscriber without a subscription handler, the default of \<open>subscribe\<close>, never gets an event:
  the acknowledgement calls the empty function object, \<open>std::bad_function_call\<close> leaves the receive
  callback before the next read is started, and nothing that arrives later reaches the application.
\<close>

theorem default_subscriber_goes_deaf:
  assumes "tt_socket t = Some (i, s)" "ts_rx s = RxHeader []" "tt_receiver t = Some (m, None)"
    and "concat segs = tcp_frame (frame_make topic ACK []) @ later"
  shows "foldl (\<lambda>c seg. transport_bytes seg c) (t, st) segs =
    (t\<lparr>tt_socket := Some (i, s\<lparr>ts_rx := RxDead (StdException ''bad_function_call'')\<rparr>)\<rparr>, st)"
proof -
  have "transport_bytes (concat segs) (t, st) =
      (t\<lparr>tt_socket := Some (i, s\<lparr>ts_rx := RxDead (StdException ''bad_function_call'')\<rparr>)\<rparr>, st)"
    using assms rx_feed_frame [of "frame_make topic ACK []" "transport_on_raw m None" st]
    by (simp add: transport_bytes_def on_raw_make rx_deliver_def)
  then show ?thesis by (simp only: transport_bytes_segments)
qed

theorem default_subscriber_goes_deaf_witness:
  "snd (foldl (\<lambda>c seg. transport_bytes seg c) (demo_subscriber None, [])
     [tcp_frame (frame_make 7 ACK []), tcp_frame (frame_make 7 DATA [5])]) = []"
  using default_subscriber_goes_deaf [of "demo_subscriber None" 0 demo_socket _
      "[tcp_frame (frame_make 7 ACK []), tcp_frame (frame_make 7 DATA [5])]" 7
      "tcp_frame (frame_make 7 DATA [5])" "[]"]
  by (simp add: demo_subscriber_def demo_socket_def)

text \<open>
  The end of the connection is not reported to the transport: it still says it is connected, a
  publisher cannot register again and a subscriber cannot subscribe again until someone calls
  \<open>disconnect\<close>.
\<close>

lemma stale_connection:
  assumes "transport_connected t"
  shows "transport_connected (transport_lost ec t)"
    and "publisher_regist strict resolves (transport_lost ec t) =
      (transport_lost ec t, if strict then Inl Aborted else ok ())"
  using assms by (auto simp: transport_connected_def transport_lost_def publisher_regist_def
      split: option.splits)

end
