(* ===== verification/PubSub.thy ===== *)
theory PubSub
  imports EventTransport
begin

text \<open>
  Publisher, broker and subscriber put together, over connections that carry the bytes one side sent
  to the other: what an application publishes is what the handlers of the subscribers see. Nothing
  new is modelled here; the theory composes \<open>EventTransport\<close> and \<open>EventBroker\<close>.
\<close>

text \<open>The frames among \<open>out\<close> that the broker sends to session \<open>s\<close>.\<close>

definition frames_for :: "sid \<Rightarrow> (sid \<times> bytes) list \<Rightarrow> bytes list" where
  "frames_for s out = map snd (filter (\<lambda>m. fst m = s) out)"

lemma frames_for_simps [simp]:
  "frames_for s [] = []"
  "frames_for s (xs @ ys) = frames_for s xs @ frames_for s ys"
  by (simp_all add: frames_for_def)

lemma frames_for_route:
  "alive s \<Longrightarrow> frames_for s (registry_route alive t p r) =
   replicate (count_list (registry_members r t) s) (frame_make t DATA p)"
proof -
  assume "alive s"
  then have "map snd (filter (\<lambda>m. fst m = s) (map (\<lambda>x. (x, b)) (filter alive xs))) =
      replicate (count_list xs s) b" for xs and b :: bytes
    by (induction xs) auto
  then show ?thesis by (simp add: frames_for_def registry_route_members)
qed

lemma session_data_messages:
  "rx_messages (on_receive s) (map (frame_make t DATA) ps) b =
   (RxHeader [], b\<lparr>bk_sent := bk_sent b @
      concat (map (\<lambda>p. registry_route (bk_alive b) t p (bk_registry b)) ps)\<rparr>)"
proof (induction ps arbitrary: b)
  case (Cons p ps)
  show ?case using Cons.IH [of "on_event t p b"] by (simp add: on_receive_make on_event_def)
qed simp

lemma session_data_bytes:
  assumes "bk_rx b s = RxHeader []" and "\<forall>p\<in>set ps. length p < 2 ^ 32 - 3"
  shows "bk_sent (session_bytes s (concat (map tcp_frame (map (frame_make t DATA) ps))) b) = bk_sent b @
    concat (map (\<lambda>p. registry_route (bk_alive b) t p (bk_registry b)) ps)"
proof -
  have "\<forall>m\<in>set (map (frame_make t DATA) ps). length m < 2 ^ 32" using assms(2) by auto
  from rx_feed_frames [OF this, of "on_receive s" b] session_data_messages [of s t ps b] assms(1)
  show ?thesis by (simp add: session_bytes_def)
qed

lemma frames_for_all:
  "alive s \<Longrightarrow> count_list (registry_members r t) s = 1 \<Longrightarrow>
   frames_for s (concat (map (\<lambda>p. registry_route alive t p r) ps)) = map (frame_make t DATA) ps"
  by (induction ps) (simp_all add: frames_for_route)

lemma published_frames:
  fixes t :: "'st tcp_transport"
  assumes "transport_good t" "transport_connected t"
  shows "\<exists>u. run_res (\<lambda>d t. strand_settle (publisher_publish enc d t)) ds t = ok u \<and>
    tt_sent u = tt_sent t @ map (frame_make (tt_topic t) DATA) (map enc ds)"
proof -
  have m: "run_res (\<lambda>d t. strand_settle (publisher_publish enc d t)) ds v =
      run_res (\<lambda>b t. strand_settle (transport_publish b t)) (map enc ds) v" for v :: "'st tcp_transport"
  proof (induction ds arbitrary: v)
    case (Cons d ds)
    then show ?case
      by (cases "strand_settle (transport_publish (enc d) v)") (simp_all add: publisher_publish_def)
  qed simp
  show ?thesis
    using tr.publish_all_sent [OF assms(1), of "map enc ds"] assms(2)
    unfolding m by (auto simp: transport_wire_def)
qed

lemma subscriber_gets_data:
  assumes "tt_socket t = Some (i, s)" "ts_rx s = RxHeader []" "tt_receiver t = Some (event_message dec h, f)"
    and codec: "\<forall>d\<in>set ds. dec (enc d) = ok d \<and> length (enc d) < 2 ^ 32 - 3"
    and "run_res h ds st = ok st'"
  shows "transport_bytes (concat (map tcp_frame (map (frame_make topic DATA) (map enc ds)))) (t, st) = (t, st')"
proof -
  have small: "\<forall>x\<in>set (map (frame_make topic DATA) (map enc ds)). length x < 2 ^ 32" using codec by auto
  have "run_res (event_message dec h) (map enc ds) st = ok st'"
    using event_messages [of ds dec enc h st] codec assms(5) by simp
  from transport_bytes_frames [OF assms(1-3) small on_raw_data [OF this]]
  have "transport_bytes (concat (map tcp_frame (map (frame_make topic DATA) (map enc ds)))) (t, st) =
      (t\<lparr>tt_socket := Some (i, s\<lparr>ts_rx := RxHeader []\<rparr>)\<rparr>, st')" .
  moreover have "t\<lparr>tt_socket := Some (i, s\<lparr>ts_rx := RxHeader []\<rparr>)\<rparr> = t" using assms(1,2) by simp
  ultimately show ?thesis by simp
qed

text \<open>
  End to end: the values a registered publisher publishes arrive at the event handler of a
  subscriber of the topic, all of them, decoded, in order and exactly once, when the subscriber is
  alive and has registered once for the topic. The bytes go from the publisher's socket through the
  broker's session for it and from the broker's sends through the subscriber's receive loop.
\<close>

theorem publish_subscribe_end_to_end:
  fixes tp :: "'sp tcp_transport" and ts :: "'st tcp_transport"
  assumes "transport_good tp" "transport_connected tp"
    and "bk_rx b p = RxHeader []" "bk_alive b s"
    and "count_list (registry_members (bk_registry b) (tt_topic tp)) s = 1"
    and "tt_socket ts = Some (i, sk)" "ts_rx sk = RxHeader []"
    and "tt_receiver ts = Some (event_message dec h, f)"
    and "\<forall>d\<in>set ds. dec (enc d) = ok d \<and> length (enc d) < 2 ^ 32 - 3"
    and "run_res h ds st = ok st'"
  shows "\<exists>tp'. run_res (\<lambda>d t. strand_settle (publisher_publish enc d t)) ds tp = ok tp' \<and>
    (let published = drop (length (tt_sent tp)) (tt_sent tp');
         b' = session_bytes p (concat (map tcp_frame published)) b;
         received = frames_for s (drop (length (bk_sent b)) (bk_sent b'))
     in transport_bytes (concat (map tcp_frame received)) (ts, st) = (ts, st'))"
proof -
  from published_frames [OF assms(1,2), of enc ds] obtain tp' where
    tp': "run_res (\<lambda>d t. strand_settle (publisher_publish enc d t)) ds tp = ok tp'"
      "tt_sent tp' = tt_sent tp @ map (frame_make (tt_topic tp) DATA) (map enc ds)" by blast
  have "\<forall>x\<in>set (map enc ds). length x < 2 ^ 32 - 3" using assms(9) by auto
  from session_data_bytes [OF assms(3) this, of "tt_topic tp"]
  have "frames_for s (drop (length (bk_sent b)) (bk_sent (session_bytes p
      (concat (map tcp_frame (map (frame_make (tt_topic tp) DATA) (map enc ds)))) b))) =
      map (frame_make (tt_topic tp) DATA) (map enc ds)"
    using frames_for_all [where alive = "bk_alive b" and s = s and r = "bk_registry b"
        and t = "tt_topic tp" and ps = "map enc ds", OF assms(4,5)] by simp
  with subscriber_gets_data [OF assms(6-10), of "tt_topic tp"] tp' show ?thesis
    unfolding Let_def by (intro exI [of _ tp']) simp
qed

definition demo_publisher :: "u8 list tcp_transport" where
  "demo_publisher = (transport_new (ts_conn demo_socket) 7)\<lparr>tt_socket := Some (0, demo_socket), tt_connected := True\<rparr>"

definition demo_broker :: broker where
  "demo_broker = broker_new\<lparr>bk_alive := (\<lambda>_. True), bk_rx := (\<lambda>_. RxHeader []),
     bk_registry := registry_regist 7 1 registry_new\<rparr>"

theorem publish_subscribe_end_to_end_witness:
  "\<exists>tp'. run_res (\<lambda>d t. strand_settle (publisher_publish (\<lambda>d. [d]) d t)) [5, 6] demo_publisher = ok tp' \<and>
    (let published = drop (length (tt_sent demo_publisher)) (tt_sent tp');
         b' = session_bytes 0 (concat (map tcp_frame published)) demo_broker;
         received = frames_for 1 (drop (length (bk_sent demo_broker)) (bk_sent b'))
     in transport_bytes (concat (map tcp_frame received)) (demo_subscriber (Some ok), []) =
        (demo_subscriber (Some ok), [5, 6]))"
  by (rule publish_subscribe_end_to_end [where i = 0 and sk = demo_socket and f = "Some ok"
        and dec = "\<lambda>bs. ok (hd bs)" and h = "\<lambda>d st. ok (st @ [d])"])
    (simp_all add: demo_publisher_def demo_broker_def demo_subscriber_def demo_socket_def transport_new_def
      transport_good_def transport_connected_def registry_members_def registry_regist_def registry_new_def
      broker_new_def)

end
