(* ===== verification/ConnectionLoss.thy ===== *)
theory ConnectionLoss
  imports PubSub
begin

text \<open>
  Publisher, broker and subscriber over connections that break. A connection that is lost carries a prefix of the
  bytes sent on it; the frame it cuts, and everything after it, is gone, and everything before it has arrived.
  Nothing new is modelled here; the theory is about the receive loop of \<open>AsyncTcp\<close> and the composition of \<open>PubSub\<close>.
\<close>

section \<open>A stream that ends anywhere\<close>

lemma rx_feed_header_part:
  "length acc + length bs < 4 \<Longrightarrow> rx_feed h bs (RxHeader acc, st) = (RxHeader (acc @ bs), st)"
  by (induction bs arbitrary: acc) (auto simp: Let_def)

lemma rx_feed_payload_part:
  "length acc + length bs < n \<Longrightarrow> rx_feed h bs (RxPayload n acc, st) = (RxPayload n (acc @ bs), st)"
  by (induction bs arbitrary: acc) (auto simp: Let_def)

text \<open>An incomplete frame is not delivered, and nothing of it is.\<close>

lemma rx_feed_cut_frame:
  assumes "length data < 2 ^ 32" "n < length (tcp_frame data)"
  shows "\<exists>rx. rx_feed h (take n (tcp_frame data)) (RxHeader [], st) = (rx, st) \<and> rx \<noteq> RxStopped"
proof (cases "n < 4")
  case True
  let ?hdr = "u32_bytes (of_nat (length data))"
  have "take n (tcp_frame data) = take n ?hdr" using True by (simp add: tcp_frame_def)
  then have "rx_feed h (take n (tcp_frame data)) (RxHeader [], st) = (RxHeader (take n ?hdr), st)"
    using rx_feed_header_part [of "[]" "take n ?hdr" h st] True by simp
  then show ?thesis by simp
next
  case False
  let ?len = "unat (of_nat (length data) :: u32)"
  have len: "?len = length data" using assms(1) by (intro unat_of_nat_small) simp
  have "take n (tcp_frame data) = u32_bytes (of_nat (length data)) @ take (n - 4) data"
    using False by (simp add: tcp_frame_def)
  moreover have "n - 4 < length data" using assms(2) False by (simp add: tcp_frame_def)
  ultimately have "rx_feed h (take n (tcp_frame data)) (RxHeader [], st) = (RxPayload (length data) (take (n - 4) data), st)"
    using rx_feed_payload_part [of "[]" "take (n - 4) data" "length data" h st] len by (auto simp: rx_feed_header)
  then show ?thesis by simp
qed

text \<open>How many frames the first \<open>n\<close> bytes of a stream hold.\<close>

fun whole_frames :: "nat \<Rightarrow> bytes list \<Rightarrow> nat" where
  "whole_frames n [] = 0"
| "whole_frames n (m # ms) =
     (if length (tcp_frame m) \<le> n then Suc (whole_frames (n - length (tcp_frame m)) ms) else 0)"

lemma whole_frames_le: "whole_frames n ms \<le> length ms"
  by (induction n ms rule: whole_frames.induct) auto

lemma whole_frames_all: "length (concat (map tcp_frame ms)) \<le> n \<Longrightarrow> whole_frames n ms = length ms"
  by (induction n ms rule: whole_frames.induct) auto

lemma rx_feed_cut_stream:
  assumes "\<forall>m\<in>set ms. length m < 2 ^ 32"
    and "rx_messages h (take (whole_frames n ms) ms) st = (RxHeader [], st')"
  shows "\<exists>rx. rx_feed h (take n (concat (map tcp_frame ms))) (RxHeader [], st) = (rx, st') \<and> rx \<noteq> RxStopped"
  using assms
proof (induction n ms arbitrary: st rule: whole_frames.induct)
  case (2 n m ms)
  show ?case
  proof (cases "length (tcp_frame m) \<le> n")
    case True
    then have t: "take n (concat (map tcp_frame (m # ms))) =
        tcp_frame m @ take (n - length (tcp_frame m)) (concat (map tcp_frame ms))" by simp
    from "2.prems"(2) True obtain st1 where st1: "h m st = ok st1"
      "rx_messages h (take (whole_frames (n - length (tcp_frame m)) ms) ms) st1 = (RxHeader [], st')"
      by (auto split: sum.splits)
    have "rx_feed h (tcp_frame m) (RxHeader [], st) = (RxHeader [], st1)"
      using rx_feed_frame [of m h st] "2.prems"(1) st1(1) by (simp add: rx_deliver_def)
    then have "rx_feed h (take n (concat (map tcp_frame (m # ms)))) (RxHeader [], st) =
        rx_feed h (take (n - length (tcp_frame m)) (concat (map tcp_frame ms))) (RxHeader [], st1)"
      by (simp only: t rx_feed_append)
    with "2.IH" [OF True _ st1(2)] "2.prems"(1) show ?thesis by simp
  next
    case False
    then have "take n (concat (map tcp_frame (m # ms))) = take n (tcp_frame m)" by simp
    with rx_feed_cut_frame [of m n h st] "2.prems" False show ?thesis by simp
  qed
qed simp

section \<open>Through the broker\<close>

lemma session_data_cut:
  assumes "bk_rx b s = RxHeader []" "\<forall>p\<in>set ps. length p < 2 ^ 32 - 3"
  shows "bk_sent (session_bytes s (take n (concat (map tcp_frame (map (frame_make t DATA) ps)))) b) = bk_sent b @
    concat (map (\<lambda>p. registry_route (bk_alive b) t p (bk_registry b))
      (take (whole_frames n (map (frame_make t DATA) ps)) ps))"
proof -
  let ?ms = "map (frame_make t DATA) ps"
  have small: "\<forall>m\<in>set ?ms. length m < 2 ^ 32" using assms(2) by auto
  let ?b = "b\<lparr>bk_sent := bk_sent b @ concat (map (\<lambda>p. registry_route (bk_alive b) t p (bk_registry b))
    (take (whole_frames n ?ms) ps))\<rparr>"
  have "rx_messages (on_receive s) (take (whole_frames n ?ms) ?ms) b = (RxHeader [], ?b)"
    by (simp add: take_map session_data_messages)
  from rx_feed_cut_stream [OF small this] assms(1) obtain rx where
    "rx_feed (on_receive s) (take n (concat (map tcp_frame ?ms))) (bk_rx b s, b) = (rx, ?b)" by auto
  then show ?thesis by (simp add: session_bytes_def)
qed

lemma rx_feed_ended: "rx = RxStopped \<or> (\<exists>e. rx = RxDead e) \<Longrightarrow> rx_feed g xs (rx, st) = (rx, st)"
  by (induction xs) auto

text \<open>A subscriber whose stream of DATA frames is cut, and what the loss does to it.\<close>

lemma subscriber_gets_prefix:
  assumes "tt_socket t = Some (i, s)" "ts_rx s = RxHeader []" "tt_receiver t = Some (event_message dec h, f)"
    and "\<forall>d\<in>set ds. dec (enc d) = ok d \<and> length (enc d) < 2 ^ 32 - 3"
    and "run_res h (take (whole_frames m (map (\<lambda>d. frame_make topic DATA (enc d)) ds)) ds) st = ok st'"
  shows "\<exists>u. transport_bytes (take m (concat (map tcp_frame (map (\<lambda>d. frame_make topic DATA (enc d)) ds)))) (t, st) = (u, st') \<and>
    snd (transport_bytes later (transport_lost ec u, st')) = st'"
proof -
  let ?ms = "map (\<lambda>d. frame_make topic DATA (enc d)) ds"
  let ?h = "transport_on_raw (event_message dec h) f"
  let ?k = "whole_frames m ?ms"
  have small: "\<forall>x\<in>set ?ms. length x < 2 ^ 32" using assms(4) by auto
  have "\<forall>d\<in>set (take ?k ds). dec (enc d) = ok d" using assms(4) by (meson in_set_takeD)
  from event_messages [OF this, of h st] assms(5)
  have "run_res (event_message dec h) (map enc (take ?k ds)) st = ok st'" by simp
  from on_raw_data [OF this, of f topic]
  have "rx_messages ?h (take ?k ?ms) st = (RxHeader [], st')" by (simp add: take_map comp_def)
  from rx_feed_cut_stream [OF small this] assms(2) obtain rx where
    rx: "rx_feed ?h (take m (concat (map tcp_frame ?ms))) (ts_rx s, st) = (rx, st')" "rx \<noteq> RxStopped" by auto
  let ?u = "t\<lparr>tt_socket := Some (i, s\<lparr>ts_rx := rx\<rparr>)\<rparr>"
  have u: "transport_bytes (take m (concat (map tcp_frame ?ms))) (t, st) = (?u, st')"
    using assms(1,3) rx(1) by (simp add: transport_bytes_def)
  define s' where "s' = fst (tcp_receive_error True ec (s\<lparr>ts_rx := rx\<rparr>))"
  have "ts_rx s' = RxStopped \<or> (\<exists>e. ts_rx s' = RxDead e)"
    using rx(2) by (cases rx) (auto simp: s'_def tcp_receive_error_def tcp_disconnect_def Let_def)
  from rx_feed_ended [OF this, of _ later st'] have "snd (transport_bytes later (transport_lost ec ?u, st')) = st'"
    using assms(3) by (simp add: transport_bytes_def transport_lost_def flip: s'_def)
  with u show ?thesis by blast
qed

section \<open>Property\<close>



end
