(* ===== verification/BrokerWire.thy ===== *)
theory BrokerWire
  imports EventBroker
begin

text \<open>
  The broker as the network sees it: connections, segments of bytes in any size and interleaving, and
  losses, in place of the whole frames of \<open>EventBroker\<close>. The operations are those of \<open>EventBroker\<close> and
  \<open>AsyncTcp\<close>; a failed assertion in a receive callback ends the process. The theory shows that the
  broker on bytes does what the broker on frames does for the frames its peers completed.
\<close>

section \<open>Steps on bytes\<close>

datatype wire_call = WAccept | WBytes sid bytes | WLost sid

definition wire_step :: "wire_call \<Rightarrow> broker \<Rightarrow> broker res" where
  "wire_step c b =
     (case c of
        WAccept \<Rightarrow> ok (on_accept b)
      | WBytes s seg \<Rightarrow>
          (if \<not> bk_alive b s then ok b
           else let b' = session_bytes s seg b
                in case bk_rx b' s of RxDead f \<Rightarrow> Inl f | _ \<Rightarrow> ok b')
      | WLost s \<Rightarrow> ok (if bk_alive b s then session_error s b else b))"

text \<open>What arrived on a session's connection since it was accepted; the history has the latest call first.\<close>

fun wire_accepts :: "wire_call list \<Rightarrow> nat" where
  "wire_accepts [] = 0"
| "wire_accepts (WAccept # h) = Suc (wire_accepts h)"
| "wire_accepts (_ # h) = wire_accepts h"

fun received :: "wire_call list \<Rightarrow> sid \<Rightarrow> bytes" where
  "received [] s = []"
| "received (WAccept # h) s = (if s = wire_accepts h then [] else received h s)"
| "received (WBytes x seg # h) s = received h s @ (if x = s then seg else [])"
| "received (WLost x # h) s = received h s"

text \<open>The frames of a session in a history of frames, oldest first.\<close>

fun session_frames :: "broker_call list \<Rightarrow> sid \<Rightarrow> bytes list" where
  "session_frames [] s = []"
| "session_frames (Frame x topic ty payload # h) s =
     session_frames h s @ (if x = s then [frame_make topic ty payload] else [])"
| "session_frames (_ # h) s = session_frames h s"

section \<open>The receive loop between two bytes\<close>

text \<open>The bytes the loop has taken that belong to a message not yet complete.\<close>

fun rx_pending :: "rx_state \<Rightarrow> bytes" where
  "rx_pending (RxHeader acc) = acc"
| "rx_pending (RxPayload n acc) = u32_bytes (of_nat n) @ acc"
| "rx_pending _ = []"

fun rx_running :: "rx_state \<Rightarrow> bool" where
  "rx_running (RxHeader acc) = (length acc < 4)"
| "rx_running (RxPayload n acc) = (length acc < n \<and> n < 2 ^ 32)"
| "rx_running _ = False"

lemma u32_bytes_bytes_u32:
  assumes "length hdr = 4"
  shows "u32_bytes (bytes_u32 hdr) = hdr"
proof -
  from assms obtain a b c d where hdr: "hdr = [a, b, c, d]"
    by (auto simp: length_Suc_conv eval_nat_numeral)
  have "ucast (bytes_u32 hdr) = a" "ucast (drop_bit 8 (bytes_u32 hdr)) = b"
    "ucast (drop_bit 16 (bytes_u32 hdr)) = c" "ucast (drop_bit 24 (bytes_u32 hdr)) = d"
    by (rule bit_word_eqI;
        simp add: hdr bytes_u32_def bit_or_iff bit_push_bit_iff bit_drop_bit_eq bit_ucast_iff;
        auto dest: bit_imp_le_length)+
  then show ?thesis by (simp add: u32_bytes_def hdr)
qed

text \<open>Each byte either is kept or completes a message, which is delivered.\<close>

lemma rx_byte_cases:
  assumes "rx_running rx"
  shows "(\<exists>rx'. rx_byte h x (rx, st) = (rx', st) \<and> rx_running rx' \<and> rx_pending rx' = rx_pending rx @ [x]) \<or>
    (\<exists>m. rx_byte h x (rx, st) = rx_deliver h m st \<and> tcp_frame m = rx_pending rx @ [x])"
proof (cases rx)
  case (RxHeader acc)
  show ?thesis
  proof (cases "length acc = 3")
    case True
    let ?n = "unat (bytes_u32 (acc @ [x]))"
    have u: "u32_bytes (bytes_u32 (acc @ [x])) = acc @ [x]" using True by (intro u32_bytes_bytes_u32) simp
    have n: "(of_nat ?n :: u32) = bytes_u32 (acc @ [x])" "?n < 2 ^ 32"
      using unsigned_less [of "bytes_u32 (acc @ [x])"] by simp_all
    show ?thesis
    proof (cases "?n = 0")
      case z: True
      then have "tcp_frame [] = acc @ [x]" using u n(1) by (simp add: tcp_frame_def)
      then show ?thesis using True z RxHeader by (intro disjI2 exI [of _ "[]"]) (simp add: Let_def)
    next
      case False
      then show ?thesis using True RxHeader u n
        by (intro disjI1 exI [of _ "RxPayload ?n []"]) (simp add: Let_def)
    qed
  next
    case False
    then show ?thesis using assms RxHeader by auto
  qed
next
  case (RxPayload n acc)
  show ?thesis
  proof (cases "Suc (length acc) = n")
    case True
    then show ?thesis using RxPayload
      by (intro disjI2 exI [of _ "acc @ [x]"]) (auto simp: tcp_frame_def Let_def)
  next
    case False
    then show ?thesis using assms RxPayload by auto
  qed
qed (use assms in auto)

section \<open>Simulation\<close>

text \<open>The broker but for the receive loops, which the broker on frames does not use.\<close>

definition no_rx :: "broker \<Rightarrow> broker" where
  "no_rx b = b\<lparr>bk_rx := (\<lambda>_. RxStopped)\<rparr>"

lemma no_rx_eqD:
  assumes "no_rx b = no_rx c"
  shows "bk_registry b = bk_registry c" "bk_alive b = bk_alive c" "bk_sent b = bk_sent c" "bk_next b = bk_next c"
    "bk_listening b = bk_listening c"
  using assms by (cases b; cases c; simp add: no_rx_def)+

lemma no_rx_eqI:
  "bk_registry b = bk_registry c \<Longrightarrow> bk_alive b = bk_alive c \<Longrightarrow> bk_sent b = bk_sent c \<Longrightarrow> bk_next b = bk_next c \<Longrightarrow>
   bk_listening b = bk_listening c \<Longrightarrow> no_rx b = no_rx c"
  by (cases b; cases c; simp add: no_rx_def)

lemma on_receive_no_rx:
  assumes "no_rx b = no_rx c" "on_receive s m b = ok b'"
  obtains c' where "on_receive s m c = ok c'" "no_rx b' = no_rx c'" "bk_rx b' = bk_rx b" "bk_alive b' = bk_alive b"
    "bk_next b' = bk_next b"
proof -
  obtain f where f: "frame_parse m = ok f" using assms(2) by (cases "frame_parse m") (auto simp: on_receive_def)
  note eq = no_rx_eqD [OF assms(1)]
  obtain c' where c': "on_receive s m c = ok c'" using f by (simp add: on_receive_def)
  have "no_rx b' = no_rx c'"
    using assms(2) c' f eq by (intro no_rx_eqI) (auto simp: on_receive_def broker_defs split: if_splits)
  moreover have "bk_rx b' = bk_rx b" "bk_alive b' = bk_alive b" "bk_next b' = bk_next b"
    using assms(2) f by (auto simp: on_receive_def broker_defs split: if_splits)
  ultimately show ?thesis using c' that by blast
qed

text \<open>One delivered message is one frame of the history.\<close>

lemma receive_is_frame:
  assumes "no_rx b = no_rx (broker_after h)" "bk_alive b s" "on_receive s m b = ok b'"
  obtains t ty p where "m = frame_make t ty p" "no_rx b' = no_rx (broker_after (Frame s t ty p # h))"
    "bk_rx b' = bk_rx b" "bk_alive b' = bk_alive b"
    "bk_next b' = bk_next b"
proof -
  from assms(3) obtain f where f: "frame_parse m = ok f" by (cases "frame_parse m") (auto simp: on_receive_def)
  from on_receive_no_rx [OF assms(1,3)] obtain c' where c': "on_receive s m (broker_after h) = ok c'"
    "no_rx b' = no_rx c'" "bk_rx b' = bk_rx b" "bk_alive b' = bk_alive b" "bk_next b' = bk_next b" by blast
  have "bk_alive (broker_after h) s" using assms(1,2) no_rx_eqD(2) by metis
  then show ?thesis
    using that [of "fr_topic f" "fr_type f" "fr_payload f"] frame_make_parse [OF f] c' by auto
qed

text \<open>A segment: the frames it completes are appended to the history, the rest is kept.\<close>

lemma feed_is_frames:
  assumes "no_rx b = no_rx (broker_after h)" "bk_alive b s" "rx_running rx"
    and "rx_feed (on_receive s) seg (rx, b) = (rx', b')" "\<And>f. rx' \<noteq> RxDead f"
  shows "\<exists>g. no_rx b' = no_rx (broker_after g) \<and> bk_rx b' = bk_rx b \<and> bk_alive b' = bk_alive b \<and> bk_next b' = bk_next b \<and>
    rx_running rx' \<and>
    concat (map tcp_frame (session_frames g s)) @ rx_pending rx' =
      concat (map tcp_frame (session_frames h s)) @ rx_pending rx @ seg \<and>
    (\<forall>x. x \<noteq> s \<longrightarrow> session_frames g x = session_frames h x)"
  using assms
proof (induction seg arbitrary: rx b h)
  case Nil
  then show ?case by (intro exI [of _ h]) auto
next
  case (Cons x seg)
  from rx_byte_cases [OF Cons.prems(3), of "on_receive s" x b]
  show ?case
  proof (elim disjE exE conjE)
    fix rx1 assume r: "rx_byte (on_receive s) x (rx, b) = (rx1, b)" "rx_running rx1"
      "rx_pending rx1 = rx_pending rx @ [x]"
    then show ?thesis using Cons.IH [OF Cons.prems(1,2) r(2) _ Cons.prems(5)] Cons.prems(4) by auto
  next
    fix m assume d: "rx_byte (on_receive s) x (rx, b) = rx_deliver (on_receive s) m b"
      "tcp_frame m = rx_pending rx @ [x]"
    show ?thesis
    proof (cases "on_receive s m b")
      case (Inl f)
      then have "rx' = RxDead f" using d(1) Cons.prems(4) by (simp add: rx_deliver_def)
      then show ?thesis using Cons.prems(5) by simp
    next
      case (Inr b1)
      from receive_is_frame [OF Cons.prems(1,2) Inr] obtain t ty p where f: "m = frame_make t ty p"
        "no_rx b1 = no_rx (broker_after (Frame s t ty p # h))" "bk_rx b1 = bk_rx b" "bk_alive b1 = bk_alive b"
        "bk_next b1 = bk_next b" .
      have "rx_feed (on_receive s) seg (RxHeader [], b1) = (rx', b')"
        using d(1) Cons.prems(4) Inr by (simp add: rx_deliver_def)
      from Cons.IH [OF f(2) _ _ this Cons.prems(5)] f(3-5) Cons.prems(2)
      obtain g where "no_rx b' = no_rx (broker_after g)" "bk_rx b' = bk_rx b" "bk_alive b' = bk_alive b"
        "bk_next b' = bk_next b" "rx_running rx'" "concat (map tcp_frame (session_frames g s)) @ rx_pending rx' =
          concat (map tcp_frame (session_frames (Frame s t ty p # h) s)) @ seg"
        "\<forall>x. x \<noteq> s \<longrightarrow> session_frames g x = session_frames (Frame s t ty p # h) x"
        by auto
      then show ?thesis using d(2) f(1) by (intro exI [of _ g]) auto
    qed
  qed
qed

text \<open>What relates the broker after the calls \<open>w\<close> (latest first) to a history \<open>h\<close> of frames.\<close>

definition wire_sim :: "wire_call list \<Rightarrow> broker \<Rightarrow> broker_call list \<Rightarrow> bool" where
  "wire_sim w b h \<longleftrightarrow> no_rx b = no_rx (broker_after h) \<and> wire_accepts w = bk_next b \<and>
     (\<forall>s. bk_alive b s \<longrightarrow> s < bk_next b \<and> rx_running (bk_rx b s) \<and>
        concat (map tcp_frame (session_frames h s)) @ rx_pending (bk_rx b s) = received w s) \<and>
     (\<forall>s. bk_next b \<le> s \<longrightarrow> session_frames h s = [])"

lemma wire_sim_start: "wire_sim [] broker_new []"
  by (simp add: wire_sim_def broker_new_def)

lemma wire_sim_accept: "wire_sim w b h \<Longrightarrow> wire_sim (WAccept # w) (on_accept b) (Accept # h)"
  using no_rx_eqD [of b "broker_after h"]
  by (auto simp: wire_sim_def on_accept_def intro!: no_rx_eqI)

lemma wire_sim_lost:
  assumes "wire_sim w b h" "bk_alive b s"
  shows "wire_sim (WLost s # w) (session_error s b) (Lost s # h)"
proof -
  note eq = no_rx_eqD [of b "broker_after h"]
  have "bk_alive (broker_after h) s" using assms eq(2) by (auto simp: wire_sim_def)
  then have "no_rx (session_error s b) = no_rx (broker_after (Lost s # h))"
    using assms(1) eq by (intro no_rx_eqI) (auto simp: wire_sim_def broker_defs Let_def)
  then show ?thesis using assms(1) by (auto simp: wire_sim_def broker_defs Let_def)
qed

lemma wire_sim_bytes:
  assumes "wire_sim w b h" "bk_alive b s" "wire_step (WBytes s seg) b = ok b'"
  shows "\<exists>g. wire_sim (WBytes s seg # w) b' g"
proof -
  obtain rx' b1 where r: "rx_feed (on_receive s) seg (bk_rx b s, b) = (rx', b1)" by fastforce
  have b': "b' = b1\<lparr>bk_rx := (bk_rx b1)(s := rx')\<rparr>" and nd: "\<And>f. rx' \<noteq> RxDead f"
    using assms(2,3) r by (auto simp: wire_step_def session_bytes_def Let_def split: rx_state.splits)
  have sim: "no_rx b = no_rx (broker_after h)" "rx_running (bk_rx b s)"
    "concat (map tcp_frame (session_frames h s)) @ rx_pending (bk_rx b s) = received w s"
    using assms(1,2) by (auto simp: wire_sim_def)
  from feed_is_frames [OF sim(1) assms(2) sim(2) r nd] obtain g where
    g: "no_rx b1 = no_rx (broker_after g)" "bk_rx b1 = bk_rx b" "bk_alive b1 = bk_alive b" "bk_next b1 = bk_next b" "rx_running rx'"
      "concat (map tcp_frame (session_frames g s)) @ rx_pending rx' =
        concat (map tcp_frame (session_frames h s)) @ rx_pending (bk_rx b s) @ seg"
      "\<And>x. x \<noteq> s \<Longrightarrow> session_frames g x = session_frames h x" by blast
  have "no_rx b' = no_rx (broker_after g)" using g(1) by (simp add: b' no_rx_def)
  moreover have "s < bk_next b" using assms(1,2) by (simp add: wire_sim_def)
  ultimately have "wire_sim (WBytes s seg # w) b' g"
    using assms(1) g(2-7) sim(3) by (auto simp: wire_sim_def b')
  then show ?thesis ..
qed

lemma wire_run_sim: "run_res wire_step cs broker_new = ok b \<Longrightarrow> \<exists>h. wire_sim (rev cs) b h"
proof (induction cs arbitrary: b rule: rev_induct)
  case Nil
  then show ?case using wire_sim_start by auto
next
  case (snoc c cs)
  from snoc.prems obtain a where a: "run_res wire_step cs broker_new = ok a" "wire_step c a = ok b"
    by (auto simp: run_res_append bind_res_ok_iff)
  from snoc.IH [OF a(1)] obtain h where h: "wire_sim (rev cs) a h" ..
  have quiet: "wire_sim (c # rev cs) a h" if "c = WBytes s seg \<or> c = WLost s" "\<not> bk_alive a s" for s seg
    using h that by (auto simp: wire_sim_def)
  show ?case
  proof (cases c)
    case WAccept
    then show ?thesis using wire_sim_accept [OF h] a(2) by (auto simp: wire_step_def)
  next
    case (WBytes s seg)
    then show ?thesis using wire_sim_bytes [OF h, of s seg b] quiet [of s seg] a(2)
      by (cases "bk_alive a s") (auto simp: wire_step_def)
  next
    case (WLost s)
    then show ?thesis using wire_sim_lost [OF h, of s] quiet [of s] a(2)
      by (cases "bk_alive a s") (auto simp: wire_step_def)
  qed
qed

section \<open>Property\<close>


text \<open>A session that registers for topic 9, its frame cut in two segments.\<close>

definition registering :: "wire_call list" where
  "registering = [WAccept, WBytes 0 [3, 0, 0], WBytes 0 [0, 0, 9, 0]]"

lemma registering_run:
  obtains b where "run_res wire_step registering broker_new = ok b" "bk_alive b 0" "bk_rx b 0 = RxHeader []"
    "bk_sent b = [(0, frame_make 9 ACK [])]"
  by (simp add: registering_def wire_step_def broker_new_def on_accept_def session_bytes_def Let_def
      bytes_u32_def rx_deliver_def on_receive_def frame_parse_def frame_type_defs on_subscribe_def session_send_def)


end
