(* ===== verification/BrokerOrder.thy ===== *)
theory BrokerOrder
  imports BrokerWire PubSub
begin

text \<open>
  The order in which the broker delivers. A history of calls determines, for every session and topic, the
  exact sequence of payloads the session is sent; sessions that stay subscribed to a topic see one common order
  of its publications, in which every publisher's own order is kept. Nothing new is modelled here: the theory
  is about \<open>EventBroker\<close> and \<open>BrokerWire\<close>.
\<close>

section \<open>What a history says a session is sent\<close>

text \<open>How many registrations of a session for a topic are in force; every one of them gets its own copy.\<close>

fun registrations :: "broker_call list \<Rightarrow> sid \<Rightarrow> u16 \<Rightarrow> nat" where
  "registrations [] x t = 0"
| "registrations (Accept # h) x t = registrations h x t"
| "registrations (Frame s topic ty payload # h) x t =
     (if x = s \<and> live h s \<and> ty = REGIST \<and> topic = t then Suc (registrations h x t)
      else if x = s \<and> ty = UNREGIST then 0
      else registrations h x t)"
| "registrations (Lost s # h) x t = (if x = s then 0 else registrations h x t)"

text \<open>What was published on a topic: publisher and payload, oldest first.\<close>

fun publications :: "broker_call list \<Rightarrow> broker_call list \<Rightarrow> u16 \<Rightarrow> (sid \<times> bytes) list" where
  "publications [] h t = []"
| "publications (Frame s topic ty payload # k) h t =
     publications k h t @ (if ty = DATA \<and> topic = t \<and> live (k @ h) s then [(s, payload)] else [])"
| "publications (_ # k) h t = publications k h t"

fun expected :: "broker_call list \<Rightarrow> sid \<Rightarrow> u16 \<Rightarrow> bytes list" where
  "expected [] x t = []"
| "expected (Frame s topic ty payload # h) x t =
     expected h x t @ (if ty = DATA \<and> topic = t \<and> live h s then replicate (registrations h x t) payload else [])"
| "expected (_ # h) x t = expected h x t"

text \<open>The payloads of the DATA frames of a topic among what was sent to a session.\<close>

fun data_payload :: "u16 \<Rightarrow> bytes \<Rightarrow> bytes list" where
  "data_payload t bs =
     (case frame_parse bs of
        Inl _ \<Rightarrow> []
      | Inr f \<Rightarrow> if fr_topic f = t \<and> fr_type f = DATA then [fr_payload f] else [])"

declare data_payload.simps [simp del]

definition topic_stream :: "u16 \<Rightarrow> sid \<Rightarrow> broker \<Rightarrow> bytes list" where
  "topic_stream t x b = concat (map (data_payload t) (frames_for x (bk_sent b)))"

section \<open>The broker follows the history\<close>

lemma data_payload_make [simp]:
  "data_payload t (frame_make u ty p) = (if u = t \<and> ty = DATA then [p] else [])"
  by (simp add: data_payload.simps frame_parse_make)

lemma concat_replicate_single [simp]: "concat (replicate n [x]) = replicate n x" "concat (replicate n []) = []"
  by (induction n) auto

lemma topic_stream_sends:
  "topic_stream t x (b\<lparr>bk_sent := bk_sent b @ out\<rparr>) =
   topic_stream t x b @ concat (map (data_payload t) (frames_for x out))"
  by (simp add: topic_stream_def)

lemma frames_for_single [simp]: "frames_for x [(s, bs)] = (if s = x then [bs] else [])"
  by (simp add: frames_for_def)

lemma frames_for_dead: "\<not> alive x \<Longrightarrow> frames_for x (registry_route alive t p r) = []"
  by (auto simp: frames_for_def registry_route_members filter_empty_conv)

lemma registrations_0: "\<not> live h x \<Longrightarrow> registrations h x t = 0"
  by (induction h x t rule: registrations.induct) auto

lemma registrations_registry:
  "count_list (registry_members (bk_registry (broker_after h)) t) x = registrations h x t"
proof (induction h)
  case Nil
  show ?case by (simp add: broker_new_def registry_new_def registry_members_def)
next
  case (Cons c h)
  have alive: "bk_alive (broker_after h) = live h" using broker_after_inv [of h] by auto
  show ?case
  proof (cases c)
    case Accept
    then show ?thesis using Cons by (simp add: on_accept_def)
  next
    case (Frame s topic ty payload)
    show ?thesis
    proof (cases "live h s")
      case True
      then show ?thesis using Cons Frame alive
        by (auto simp: on_receive_make broker_defs rg.members_add rg.members_remove count_filter_neq)
    next
      case False
      then show ?thesis using Cons Frame alive registrations_0 [of h s t] by auto
    qed
  next
    case (Lost s)
    show ?thesis
    proof (cases "live h s")
      case True
      then show ?thesis using Cons Lost alive
        by (auto simp: session_error_def on_unsubscribe_def Let_def rg.members_remove count_filter_neq)
    next
      case False
      then show ?thesis using Cons Lost alive registrations_0 [of h s t] by auto
    qed
  qed
qed

lemma topic_stream_expected: "topic_stream t x (broker_after h) = expected h x t"
proof (induction h)
  case Nil
  show ?case by (simp add: topic_stream_def broker_new_def)
next
  case (Cons c h)
  have alive: "bk_alive (broker_after h) = live h" using broker_after_inv [of h] by auto
  have route: "concat (map (data_payload t) (frames_for x
        (registry_route (live h) topic p (bk_registry (broker_after h))))) =
      (if topic = t then replicate (registrations h x t) p else [])" for topic p
  proof (cases "live h x")
    case True
    then show ?thesis by (simp add: frames_for_route map_replicate_const [symmetric] registrations_registry)
  qed (simp add: frames_for_dead registrations_0)
  show ?case
  proof (cases c)
    case (Frame s topic ty payload)
    then show ?thesis using Cons alive route
      by (cases "live h s"; cases ty)
        (simp_all add: on_receive_make broker_defs topic_stream_def)
  qed (use Cons alive in \<open>auto simp: topic_stream_def on_accept_def session_error_def on_unsubscribe_def Let_def\<close>)
qed

section \<open>One order for all subscribers\<close>

text \<open>Registered exactly once for the topic at every point of the calls \<open>k\<close> made after \<open>h\<close>.\<close>

fun steady :: "broker_call list \<Rightarrow> broker_call list \<Rightarrow> sid \<Rightarrow> u16 \<Rightarrow> bool" where
  "steady [] h x t = (registrations h x t = 1)"
| "steady (c # k) h x t = (registrations (c # k @ h) x t = 1 \<and> steady k h x t)"

lemma steady_now: "steady k h x t \<Longrightarrow> registrations (k @ h) x t = 1"
  by (cases k) auto

lemma steady_expected: "steady k h x t \<Longrightarrow> expected (k @ h) x t = expected h x t @ map snd (publications k h t)"
proof (induction k)
  case (Cons c k)
  then show ?case using steady_now [of k h x t] by (cases c) auto
qed simp

text \<open>The payloads a session published on the topic, from its own frames.\<close>

definition own_stream :: "u16 \<Rightarrow> sid \<Rightarrow> broker_call list \<Rightarrow> bytes list" where
  "own_stream t s k = concat (map (data_payload t) (session_frames k s))"

lemma live_accepts: "live h s \<Longrightarrow> s < accepts h"
  by (induction h s rule: live.induct) (auto intro: less_SucI)

lemma accepts_append: "accepts h \<le> accepts (k @ h)"
  by (induction k rule: accepts.induct) auto

lemma live_earlier: "live h s \<Longrightarrow> live (c # k @ h) s \<Longrightarrow> live (k @ h) s"
  using live_accepts [of h s] accepts_append [of h k] by (cases c) auto

lemma publications_of:
  "live h s \<Longrightarrow> live (k @ h) s \<Longrightarrow>
   map snd (filter (\<lambda>p. fst p = s) (publications k h t)) = own_stream t s k"
proof (induction k)
  case (Cons c k)
  then have "live (k @ h) s" using live_earlier by simp
  with Cons show ?case by (cases c) (auto simp: own_stream_def)
qed (simp add: own_stream_def)

section \<open>Properties\<close>


text \<open>Three connections; two of them register for topic 9, then they publish in turns.\<close>

definition two_registered :: "broker_call list" where
  "two_registered = [Frame 1 9 REGIST [], Frame 0 9 REGIST [], Accept, Accept, Accept]"

definition three_published :: "broker_call list" where
  "three_published = [Frame 2 9 DATA [7], Frame 1 9 DATA [6], Frame 2 9 DATA [5]]"




end
