(* ===== verification/TransportThreads.thy ===== *)
theory TransportThreads
  imports EventTransport
begin

text \<open>
  \<open>TcpTransport\<close> among its threads. \<open>EventTransport\<close> runs every call, task and handler at once; here they are cut at
  their accesses to \<open>_socket\<close> and \<open>_connected\<close>, and three parties interleave: the thread that calls \<open>connect\<close> or
  \<open>subscribe\<close>, the strand that runs the posted lambdas of \<open>disconnect\<close> and \<open>publish\<close>, and the io threads, which
  run the handler of \<open>async_connect\<close> and the receive loop outside the strand.
\<close>

section \<open>State\<close>

text \<open>The caller inside \<open>connect\<close> or \<open>subscribe\<close> (\<open>True\<close>): after the test of \<open>_socket\<close>, after the assignment.\<close>

datatype call_phase = CallIdle | CallTested bool | CallCreated bool

text \<open>The connect handler of a socket: outstanding, before \<open>_connected.store\<close>, before \<open>send\<close>, before \<open>receive\<close>.\<close>

datatype connect_phase = CpNone | CpPending bool | CpConnected bool | CpStored | CpSent

text \<open>The lambda on the strand: before \<open>_socket->disconnect()\<close>, \<open>reset()\<close>, the store; before \<open>_socket->send\<close>.\<close>

datatype strand_phase = StIdle | StClose | StReset | StClear | StSend bytes

text \<open>The receive loop of a socket: a read outstanding, or a message read and its handler not yet run.\<close>

datatype receive_phase = LpIdle | LpReading | LpReady bytes | LpEnded

text \<open>How far the user of the transport is; only \<open>orderly\<close>, below, looks at it.\<close>

datatype client_phase = ClDown | ClOpening bool | ClUp | ClClosing

text \<open>Sockets are numbered in order of creation; \<open>th_open\<close> says which have not been closed.\<close>

record transport_threads =
  th_topic :: u16
  th_socket :: "nat option"
  th_connected :: bool
  th_next :: nat
  th_open :: "nat \<Rightarrow> bool"
  th_connect :: "nat \<Rightarrow> connect_phase"
  th_loop :: "nat \<Rightarrow> receive_phase"
  th_call :: call_phase
  th_strand :: "strand_task list"
  th_phase :: strand_phase
  th_sent :: "(nat \<times> bytes) list"
  th_delivered :: "(nat \<times> bytes) list"
  th_late :: "nat \<Rightarrow> nat"
  th_client :: client_phase
  th_fault :: "fault option"

definition threads_new :: "u16 \<Rightarrow> transport_threads" where
  "threads_new topic = \<lparr>th_topic = topic, th_socket = None, th_connected = False, th_next = 0,
     th_open = (\<lambda>_. True), th_connect = (\<lambda>_. CpNone), th_loop = (\<lambda>_. LpIdle), th_call = CallIdle,
     th_strand = [], th_phase = StIdle, th_sent = [], th_delivered = [], th_late = (\<lambda>_. 0),
     th_client = ClDown, th_fault = None\<rparr>"

definition th_fails :: "fault \<Rightarrow> transport_threads \<Rightarrow> transport_threads" where
  "th_fails f s = s\<lparr>th_fault := Some f\<rparr>"

text \<open>\<open>_socket->\<close> on a null pointer, and otherwise the socket it points to.\<close>

definition with_socket :: "(nat \<Rightarrow> transport_threads \<Rightarrow> transport_threads) \<Rightarrow> transport_threads \<Rightarrow> transport_threads" where
  "with_socket f s =
     (case th_socket s of None \<Rightarrow> th_fails (UndefinedBehaviour ''_socket is null'') s | Some i \<Rightarrow> f i s)"

text \<open>A socket object lives as long as \<open>_socket\<close> or a running receive loop holds it; a connect does not.\<close>

definition th_alive :: "transport_threads \<Rightarrow> nat \<Rightarrow> bool" where
  "th_alive s i \<longleftrightarrow> th_socket s = Some i \<or> th_loop s i \<notin> {LpIdle, LpEnded}"

section \<open>Steps\<close>

text \<open>The caller: \<open>connect()\<close> and \<open>subscribe()\<close>. The host name may not resolve, which throws.\<close>

definition call_start :: "bool \<Rightarrow> bool \<Rightarrow> transport_threads \<Rightarrow> transport_threads" where
  "call_start strict sub s =
     (if th_socket s \<noteq> None then (if strict then th_fails Aborted s else s)
      else s\<lparr>th_call := CallTested sub, th_client := ClOpening sub\<rparr>)"

definition call_continue :: "bool \<Rightarrow> transport_threads \<Rightarrow> transport_threads option" where
  "call_continue resolves s =
     (case th_call s of
        CallIdle \<Rightarrow> None
      | CallTested sub \<Rightarrow>
          Some (s\<lparr>th_socket := Some (th_next s), th_next := Suc (th_next s), th_call := CallCreated sub\<rparr>)
      | CallCreated sub \<Rightarrow>
          Some (with_socket (\<lambda>i s. if resolves then s\<lparr>th_connect := (th_connect s)(i := CpPending sub), th_call := CallIdle\<rparr>
                             else s\<lparr>th_call := CallIdle\<rparr>) s))"

text \<open>The strand: a lambda starts when the one before it has ended.\<close>

definition strand_continue :: "transport_threads \<Rightarrow> transport_threads option" where
  "strand_continue s =
     (case th_phase s of
        StIdle \<Rightarrow>
          (case th_strand s of
             [] \<Rightarrow> None
           | TaskDisconnect # ts \<Rightarrow>
               Some (if th_socket s = None then s\<lparr>th_strand := ts\<rparr> else s\<lparr>th_strand := ts, th_phase := StClose\<rparr>)
           | TaskPublish payload # ts \<Rightarrow>
               Some (if \<not> th_connected s then s\<lparr>th_strand := ts\<rparr> else s\<lparr>th_strand := ts, th_phase := StSend payload\<rparr>))
      | StClose \<Rightarrow> Some (with_socket (\<lambda>i s. s\<lparr>th_open := (th_open s)(i := False), th_phase := StReset\<rparr>) s)
      | StReset \<Rightarrow> Some (s\<lparr>th_socket := None, th_phase := StClear\<rparr>)
      | StClear \<Rightarrow> Some (s\<lparr>th_connected := False, th_phase := StIdle\<rparr>)
      | StSend payload \<Rightarrow>
          Some (with_socket (\<lambda>i s. s\<lparr>th_sent := th_sent s @ [(i, frame_make (th_topic s) DATA payload)], th_phase := StIdle\<rparr>) s))"

text \<open>
  The handler of \<open>async_connect\<close>. \<open>AsyncSocketImpl\<close> first stores into its own \<open>_connected\<close>, through a bare
  \<open>this\<close>; then the transport's callback runs, which for \<open>subscribe\<close> goes through \<open>self->_socket\<close> twice.
\<close>

definition connect_succeeds :: "nat \<Rightarrow> transport_threads \<Rightarrow> transport_threads option" where
  "connect_succeeds i s =
     (case th_connect s i of
        CpPending sub \<Rightarrow>
          Some (if th_alive s i then s\<lparr>th_connect := (th_connect s)(i := CpConnected sub)\<rparr>
                else th_fails (UndefinedBehaviour ''socket used after destruction'') s)
      | _ \<Rightarrow> None)"

definition connect_fails :: "nat \<Rightarrow> transport_threads \<Rightarrow> transport_threads option" where
  "connect_fails i s =
     (case th_connect s i of
        CpPending sub \<Rightarrow> Some (s\<lparr>th_connect := (th_connect s)(i := CpNone)\<rparr>)
      | _ \<Rightarrow> None)"

definition connect_continue :: "nat \<Rightarrow> transport_threads \<Rightarrow> transport_threads option" where
  "connect_continue i s =
     (case th_connect s i of
        CpConnected sub \<Rightarrow>
          Some (s\<lparr>th_connected := True, th_connect := (th_connect s)(i := if sub then CpStored else CpNone)\<rparr>)
      | CpStored \<Rightarrow>
          Some (with_socket (\<lambda>j s. s\<lparr>th_sent := th_sent s @ [(j, frame_make (th_topic s) REGIST [])],
                                     th_connect := (th_connect s)(i := CpSent)\<rparr>) s)
      | CpSent \<Rightarrow>
          Some (with_socket (\<lambda>j s. s\<lparr>th_loop := (th_loop s)(j := LpReading), th_connect := (th_connect s)(i := CpNone)\<rparr>) s)
      | _ \<Rightarrow> None)"

text \<open>
  The receive loop. A read completes with a message while the socket is open; it fails when the socket has
  been closed or the peer has gone, in which case \<open>lost\<close> the loop closes the socket itself. A message that has been
  read is delivered even if the socket has been closed since.
\<close>

definition loop_reads :: "nat \<Rightarrow> bytes \<Rightarrow> transport_threads \<Rightarrow> transport_threads option" where
  "loop_reads i m s =
     (if th_loop s i = LpReading \<and> th_open s i then Some (s\<lparr>th_loop := (th_loop s)(i := LpReady m)\<rparr>) else None)"

definition loop_fails :: "nat \<Rightarrow> bool \<Rightarrow> transport_threads \<Rightarrow> transport_threads option" where
  "loop_fails i lost s =
     (if th_loop s i = LpReading
      then Some (s\<lparr>th_loop := (th_loop s)(i := LpEnded), th_open := (if lost then (th_open s)(i := False) else th_open s)\<rparr>)
      else None)"

definition loop_delivers :: "nat \<Rightarrow> transport_threads \<Rightarrow> transport_threads option" where
  "loop_delivers i s =
     (case th_loop s i of
        LpReady m \<Rightarrow>
          Some (s\<lparr>th_delivered := th_delivered s @ [(i, m)], th_loop := (th_loop s)(i := LpReading),
                  th_late := (if th_open s i then th_late s else (th_late s)(i := Suc (th_late s i)))\<rparr>)
      | _ \<Rightarrow> None)"

text \<open>
  The user moves on when \<open>connected()\<close> has returned what it waits for; one who subscribed waits for the
  subscription handler it passed, which an ACK frame on that connection runs.
\<close>

definition is_ack :: "bytes \<Rightarrow> bool" where
  "is_ack m = (case frame_parse m of Inl _ \<Rightarrow> False | Inr f \<Rightarrow> fr_type f = ACK)"

definition acknowledged :: "transport_threads \<Rightarrow> bool" where
  "acknowledged s =
     (case th_socket s of None \<Rightarrow> False | Some i \<Rightarrow> list_ex (\<lambda>(j, m). j = i \<and> is_ack m) (th_delivered s))"

definition client_polls :: "transport_threads \<Rightarrow> transport_threads" where
  "client_polls s =
     (case th_client s of
        ClOpening sub \<Rightarrow> if th_connected s \<and> (sub \<longrightarrow> acknowledged s) then s\<lparr>th_client := ClUp\<rparr> else s
      | ClClosing \<Rightarrow> if th_connected s then s else s\<lparr>th_client := ClDown\<rparr>
      | _ \<Rightarrow> s)"

datatype threads_event =
    EvCall bool | EvCallGoes bool | EvDisconnect | EvPublish bytes | EvPoll
  | EvStrand | EvConnectOk nat | EvConnectFail nat | EvConnectGoes nat
  | EvRead nat bytes | EvReadFail nat bool | EvDeliver nat

definition threads_event :: "bool \<Rightarrow> threads_event \<Rightarrow> transport_threads \<Rightarrow> transport_threads option" where
  "threads_event strict e s =
     (if th_fault s \<noteq> None then None
      else case e of
        EvCall sub \<Rightarrow> if th_call s = CallIdle then Some (call_start strict sub s) else None
      | EvCallGoes resolves \<Rightarrow> call_continue resolves s
      | EvDisconnect \<Rightarrow> Some (s\<lparr>th_strand := th_strand s @ [TaskDisconnect], th_client := ClClosing\<rparr>)
      | EvPublish payload \<Rightarrow> Some (s\<lparr>th_strand := th_strand s @ [TaskPublish payload]\<rparr>)
      | EvPoll \<Rightarrow> Some (client_polls s)
      | EvStrand \<Rightarrow> strand_continue s
      | EvConnectOk i \<Rightarrow> connect_succeeds i s
      | EvConnectFail i \<Rightarrow> connect_fails i s
      | EvConnectGoes i \<Rightarrow> connect_continue i s
      | EvRead i m \<Rightarrow> loop_reads i m s
      | EvReadFail i lost \<Rightarrow> loop_fails i lost s
      | EvDeliver i \<Rightarrow> loop_delivers i s)"

lemmas threads_defs [op_defs] = threads_event_def call_start_def call_continue_def strand_continue_def
  connect_succeeds_def connect_fails_def connect_continue_def loop_reads_def loop_fails_def loop_delivers_def
  with_socket_def th_fails_def

section \<open>Orderly use\<close>

text \<open>
  \<open>connect\<close> or \<open>subscribe\<close> only on a transport that is down, \<open>disconnect\<close> only on one that is up: after \<open>connect\<close>
  and until \<open>connected()\<close> is true, after \<open>subscribe\<close> and until its handler has been called, the user waits, and
  after \<open>disconnect\<close> until \<open>connected()\<close> is false. Publishing is free.
\<close>

definition orderly :: "threads_event \<Rightarrow> transport_threads \<Rightarrow> bool" where
  "orderly e s =
     (case e of EvCall sub \<Rightarrow> th_client s = ClDown | EvDisconnect \<Rightarrow> th_client s = ClUp | _ \<Rightarrow> True)"

definition orderly_event :: "bool \<Rightarrow> threads_event \<Rightarrow> transport_threads \<Rightarrow> transport_threads option" where
  "orderly_event strict e s = (if orderly e s then threads_event strict e s else None)"

definition closing_phase :: "strand_phase \<Rightarrow> bool" where
  "closing_phase ph \<longleftrightarrow> ph = StClose \<or> ph = StReset \<or> ph = StClear"

definition strand_quiet :: "transport_threads \<Rightarrow> bool" where
  "strand_quiet s \<longleftrightarrow> TaskDisconnect \<notin> set (th_strand s) \<and> \<not> closing_phase (th_phase s)"

definition no_connects :: "transport_threads \<Rightarrow> bool" where
  "no_connects s \<longleftrightarrow> (\<forall>i. th_connect s i = CpNone)"

definition opening_inv :: "bool \<Rightarrow> nat \<Rightarrow> transport_threads \<Rightarrow> bool" where
  "opening_inv sub i s \<longleftrightarrow> (\<forall>j. j \<noteq> i \<longrightarrow> th_connect s j = CpNone) \<and>
     (case th_connect s i of
        CpNone \<Rightarrow> True
      | CpPending b \<Rightarrow> b = sub \<and> \<not> th_connected s \<and> th_loop s i = LpIdle
      | CpConnected b \<Rightarrow> b = sub \<and> \<not> th_connected s \<and> th_loop s i = LpIdle
      | _ \<Rightarrow> sub \<and> th_connected s \<and> th_loop s i = LpIdle)"

definition client_inv :: "transport_threads \<Rightarrow> bool" where
  "client_inv s =
     (case th_client s of
        ClDown \<Rightarrow> th_call s = CallIdle \<and> th_socket s = None \<and> \<not> th_connected s \<and> no_connects s \<and> strand_quiet s
      | ClOpening sub \<Rightarrow> strand_quiet s \<and>
          (case th_call s of
             CallTested b \<Rightarrow> b = sub \<and> th_socket s = None \<and> \<not> th_connected s \<and> no_connects s
           | CallCreated b \<Rightarrow> b = sub \<and> \<not> th_connected s \<and> no_connects s \<and>
               (\<exists>i. th_socket s = Some i \<and> th_loop s i = LpIdle)
           | CallIdle \<Rightarrow> (\<exists>i. th_socket s = Some i \<and> opening_inv sub i s))
      | ClUp \<Rightarrow> th_call s = CallIdle \<and> th_socket s \<noteq> None \<and> th_connected s \<and> no_connects s \<and> strand_quiet s
      | ClClosing \<Rightarrow> th_call s = CallIdle \<and> no_connects s \<and>
          (if \<not> th_connected s then th_socket s = None \<and> strand_quiet s
           else if closing_phase (th_phase s)
             then TaskDisconnect \<notin> set (th_strand s) \<and> (th_socket s = None \<longleftrightarrow> th_phase s = StClear)
             else count_list (th_strand s) TaskDisconnect = 1 \<and> th_socket s \<noteq> None))"

definition numbering_inv :: "transport_threads \<Rightarrow> bool" where
  "numbering_inv s \<longleftrightarrow> (\<forall>i. th_next s \<le> i \<longrightarrow> th_loop s i = LpIdle) \<and>
     (\<forall>i. th_socket s = Some i \<longrightarrow> i < th_next s) \<and>
     (\<forall>(i, m)\<in>set (th_delivered s). th_loop s i \<noteq> LpIdle)"

definition threads_inv :: "transport_threads \<Rightarrow> bool" where
  "threads_inv s \<longleftrightarrow> th_fault s = None \<and> client_inv s \<and> numbering_inv s \<and>
     (\<forall>b. th_phase s = StSend b \<longrightarrow> th_connected s \<and> th_socket s \<noteq> None)"

lemmas threads_inv_defs [inv_defs] = threads_inv_def client_inv_def numbering_inv_def opening_inv_def
  strand_quiet_def no_connects_def closing_phase_def

lemma threads_new_inv: "threads_inv (threads_new topic)"
  by (simp add: threads_inv_defs threads_new_def)

text \<open>What the client's part of the invariant depends on.\<close>

lemma opening_inv_cong:
  "th_connect u = th_connect s \<Longrightarrow> th_connected u = th_connected s \<Longrightarrow>
   (th_loop u i = LpIdle \<longleftrightarrow> th_loop s i = LpIdle) \<Longrightarrow> opening_inv sub i u = opening_inv sub i s"
  by (simp add: opening_inv_def split: connect_phase.split)

lemma client_inv_cong:
  assumes "th_client u = th_client s" "th_call u = th_call s" "th_socket u = th_socket s"
    "th_connected u = th_connected s" "th_connect u = th_connect s"
    and idle: "\<And>i. th_loop u i = LpIdle \<longleftrightarrow> th_loop s i = LpIdle"
    and "TaskDisconnect \<in> set (th_strand u) \<longleftrightarrow> TaskDisconnect \<in> set (th_strand s)"
    "count_list (th_strand u) TaskDisconnect = count_list (th_strand s) TaskDisconnect"
    "closing_phase (th_phase u) = closing_phase (th_phase s)" "th_phase u = StClear \<longleftrightarrow> th_phase s = StClear"
  shows "client_inv u = client_inv s"
proof -
  have "opening_inv sub i u = opening_inv sub i s" for sub i
    using assms(4,5) idle by (intro opening_inv_cong) simp_all
  then show ?thesis
    unfolding client_inv_def no_connects_def strand_quiet_def assms(1-5) using assms(6-10)
    by (simp split: client_phase.split call_phase.split)
qed

lemma orderly_event_go:
  assumes "orderly_event strict e s = Some u"
  shows "orderly e s" "threads_event strict e s = Some u" "th_fault s = None"
  using assms by (auto simp: orderly_event_def threads_event_def split: if_splits)

lemma call_start_inv:
  assumes "threads_inv s" "orderly_event strict (EvCall sub) s = Some u"
  shows "threads_inv u"
proof -
  note go = orderly_event_go [OF assms(2)]
  have d: "th_client s = ClDown" using go(1) by (simp add: orderly_def)
  have inv: "th_call s = CallIdle" "th_socket s = None" "\<not> th_connected s" "no_connects s" "strand_quiet s"
    "numbering_inv s" "\<And>b. th_phase s \<noteq> StSend b"
    using assms(1) d by (auto simp: threads_inv_def client_inv_def)
  have "u = s\<lparr>th_call := CallTested sub, th_client := ClOpening sub\<rparr>"
    using go(2,3) inv by (simp add: threads_event_def call_start_def)
  then show ?thesis using go(3) inv
    by (simp add: threads_inv_def client_inv_def no_connects_def strand_quiet_def numbering_inv_def)
qed

lemma call_phase_opening:
  assumes "threads_inv s" "th_call s \<noteq> CallIdle"
  obtains sub where "th_client s = ClOpening sub"
  using assms by (cases "th_client s") (auto simp: threads_inv_def client_inv_def)

lemma call_continue_inv:
  assumes "threads_inv s" "orderly_event strict (EvCallGoes resolves) s = Some u"
  shows "threads_inv u"
proof -
  have go: "call_continue resolves s = Some u" and f: "th_fault s = None"
    using orderly_event_go [OF assms(2)] by (simp_all add: threads_event_def)
  then have "th_call s \<noteq> CallIdle" by (auto simp: call_continue_def)
  from call_phase_opening [OF assms(1) this] obtain sub where d: "th_client s = ClOpening sub" .
  have inv: "client_inv s" "numbering_inv s" "\<And>b. th_phase s = StSend b \<Longrightarrow> th_connected s"
    using assms(1) by (auto simp: threads_inv_def)
  show ?thesis
  proof (cases "th_call s")
    case (CallTested b)
    then have "u = s\<lparr>th_socket := Some (th_next s), th_next := Suc (th_next s), th_call := CallCreated b\<rparr>"
      using go by (simp add: call_continue_def)
    then show ?thesis using inv f d CallTested
      by (auto simp: threads_inv_def client_inv_def no_connects_def strand_quiet_def numbering_inv_def less_SucI)
  next
    case (CallCreated b)
    with inv(1) d obtain i where i: "th_socket s = Some i" "th_loop s i = LpIdle" "b = sub" "no_connects s"
      "\<not> th_connected s" "strand_quiet s" by (auto simp: client_inv_def)
    then have "u = (if resolves then s\<lparr>th_connect := (th_connect s)(i := CpPending b), th_call := CallIdle\<rparr>
        else s\<lparr>th_call := CallIdle\<rparr>)"
      using go CallCreated by (auto simp: call_continue_def with_socket_def)
    then show ?thesis using inv f d i
      by (auto simp: threads_inv_def client_inv_def no_connects_def strand_quiet_def numbering_inv_def opening_inv_def)
  qed (use go in \<open>simp add: call_continue_def\<close>)
qed

lemma publish_inv:
  assumes "threads_inv s" "orderly_event strict (EvPublish b) s = Some u"
  shows "threads_inv u"
proof -
  have u: "u = s\<lparr>th_strand := th_strand s @ [TaskPublish b]\<rparr>"
    using orderly_event_go [OF assms(2)] by (simp add: threads_event_def)
  have "client_inv u = client_inv s" by (rule client_inv_cong) (simp_all add: u)
  then show ?thesis using assms(1) by (simp add: threads_inv_def numbering_inv_def u)
qed

lemma disconnect_inv:
  assumes "threads_inv s" "orderly_event strict EvDisconnect s = Some u"
  shows "threads_inv u"
proof -
  have u: "u = s\<lparr>th_strand := th_strand s @ [TaskDisconnect], th_client := ClClosing\<rparr>" and "th_client s = ClUp"
    using orderly_event_go [OF assms(2)] by (simp_all add: threads_event_def orderly_def)
  then have "client_inv s" "th_call s = CallIdle" "th_socket s \<noteq> None" "th_connected s" "no_connects s" "strand_quiet s"
    using assms(1) by (auto simp: threads_inv_def client_inv_def)
  then show ?thesis using assms(1)
    by (simp add: threads_inv_def numbering_inv_def u client_inv_def no_connects_def strand_quiet_def count_list_0_iff)
qed

lemma poll_inv:
  assumes "threads_inv s" "orderly_event strict EvPoll s = Some u"
  shows "threads_inv u"
proof (cases "\<exists>sub. th_client s = ClOpening sub \<and> th_connected s \<and> (sub \<longrightarrow> acknowledged s)")
  case False
  then have "u = s \<or> th_client s = ClClosing \<and> \<not> th_connected s \<and> u = s\<lparr>th_client := ClDown\<rparr>"
    using orderly_event_go [OF assms(2)] by (auto simp: threads_event_def client_polls_def
        split: if_splits client_phase.splits)
  then show ?thesis
  proof (elim disjE conjE)
    assume "th_client s = ClClosing" "\<not> th_connected s" "u = s\<lparr>th_client := ClDown\<rparr>"
    then show ?thesis using assms(1)
      by (auto simp: threads_inv_def numbering_inv_def client_inv_def no_connects_def strand_quiet_def)
  qed (use assms(1) in simp)
next
  case True
  then obtain sub where sub: "th_client s = ClOpening sub" "th_connected s" "sub \<longrightarrow> acknowledged s" by blast
  then have u: "u = s\<lparr>th_client := ClUp\<rparr>"
    using assms(2) by (auto simp: orderly_event_def orderly_def threads_event_def client_polls_def split: if_splits)
  have inv: "th_fault s = None" "client_inv s" "numbering_inv s" using assms(1) by (simp_all add: threads_inv_def)
  from inv(2) sub have idle: "th_call s = CallIdle" by (auto simp: client_inv_def split: call_phase.splits)
  with inv(2) sub obtain i where i: "th_socket s = Some i" "opening_inv sub i s" by (auto simp: client_inv_def)
  have "th_connect s i = CpNone"
  proof (rule ccontr)
    assume c: "th_connect s i \<noteq> CpNone"
    with i(2) sub have "sub" "th_loop s i = LpIdle" by (auto simp: opening_inv_def split: connect_phase.splits)
    with sub i(1) inv(3) show False by (auto simp: acknowledged_def numbering_inv_def list_ex_iff)
  qed
  with i(2) have "no_connects s" by (auto simp: opening_inv_def no_connects_def)
  then show ?thesis using assms(1) sub i idle
    by (simp add: u threads_inv_def client_inv_def numbering_inv_def strand_quiet_def no_connects_def)
qed

text \<open>While the strand is about to disconnect, or disconnecting, the user is waiting for it.\<close>

lemma disconnecting:
  assumes "threads_inv s" "TaskDisconnect \<in> set (th_strand s) \<or> closing_phase (th_phase s)"
  shows "th_client s = ClClosing" "th_connected s" "th_call s = CallIdle" "no_connects s"
    "closing_phase (th_phase s) \<Longrightarrow> TaskDisconnect \<notin> set (th_strand s) \<and> (th_socket s = None \<longleftrightarrow> th_phase s = StClear)"
    "\<not> closing_phase (th_phase s) \<Longrightarrow> count_list (th_strand s) TaskDisconnect = 1 \<and> th_socket s \<noteq> None"
proof -
  from assms have "\<not> strand_quiet s" "client_inv s" by (auto simp: strand_quiet_def threads_inv_def)
  then show "th_client s = ClClosing" "th_connected s" "th_call s = CallIdle" "no_connects s"
    "closing_phase (th_phase s) \<Longrightarrow> TaskDisconnect \<notin> set (th_strand s) \<and> (th_socket s = None \<longleftrightarrow> th_phase s = StClear)"
    "\<not> closing_phase (th_phase s) \<Longrightarrow> count_list (th_strand s) TaskDisconnect = 1 \<and> th_socket s \<noteq> None"
    by (cases "th_client s"; auto simp: client_inv_def split: if_splits)+
qed

lemma strand_inv:
  assumes "threads_inv s" "orderly_event strict EvStrand s = Some u"
  shows "threads_inv u"
proof -
  have go: "strand_continue s = Some u" and f: "th_fault s = None"
    using orderly_event_go [OF assms(2)] by (simp_all add: threads_event_def)
  have inv: "client_inv s" "numbering_inv s" "\<And>b. th_phase s = StSend b \<Longrightarrow> th_connected s \<and> th_socket s \<noteq> None"
    using assms(1) by (auto simp: threads_inv_def)
  have quiet: "th_client s \<noteq> ClOpening b" if "closing_phase (th_phase s)" for b
    using disconnecting(1) [OF assms(1)] that by simp
  show ?thesis
  proof (cases "th_phase s")
    case StIdle
    then have nc: "\<not> closing_phase (th_phase s)" by (simp add: closing_phase_def)
    from go StIdle obtain task ts where ts: "th_strand s = task # ts"
      by (cases "th_strand s") (auto simp: strand_continue_def)
    show ?thesis
    proof (cases task)
      case TaskDisconnect
      then have "TaskDisconnect \<in> set (th_strand s) \<or> closing_phase (th_phase s)" using ts by simp
      note d = disconnecting [OF assms(1) this]
      from d(6) [OF nc] ts TaskDisconnect have s: "TaskDisconnect \<notin> set ts" "th_socket s \<noteq> None"
        by (auto simp: count_list_0_iff)
      then have "u = s\<lparr>th_strand := ts, th_phase := StClose\<rparr>"
        using go StIdle ts TaskDisconnect by (auto simp: strand_continue_def)
      then show ?thesis using d(1-4) s inv(2) f
        by (simp add: threads_inv_def client_inv_def no_connects_def closing_phase_def numbering_inv_def)
    next
      case (TaskPublish b)
      define ph where "ph = (if th_connected s then StSend b else StIdle)"
      have u: "u = s\<lparr>th_strand := ts, th_phase := ph\<rparr>"
        using go StIdle ts TaskPublish by (cases s) (auto simp: strand_continue_def ph_def)
      have "client_inv u = client_inv s"
        by (rule client_inv_cong) (auto simp: u ts TaskPublish StIdle ph_def closing_phase_def)
      moreover have "th_connected s \<Longrightarrow> th_socket s \<noteq> None"
        using inv(1) nc by (cases "th_client s"; cases "th_call s") (auto simp: client_inv_def)
      ultimately show ?thesis using inv(1,2) f by (simp add: threads_inv_def u numbering_inv_def ph_def)
    qed
  next
    case StClose
    then have c: "closing_phase (th_phase s)" by (simp add: closing_phase_def)
    note d = disconnecting [OF assms(1) disjI2 [OF c]]
    from d(5) [OF c] StClose obtain i where s: "TaskDisconnect \<notin> set (th_strand s)" "th_socket s = Some i" by auto
    then have "u = s\<lparr>th_open := (th_open s)(i := False), th_phase := StReset\<rparr>"
      using go StClose by (simp add: strand_continue_def with_socket_def)
    then show ?thesis using d(1-4) s inv(2) f
      by (simp add: threads_inv_def client_inv_def no_connects_def closing_phase_def numbering_inv_def)
  next
    case StReset
    then have c: "closing_phase (th_phase s)" by (simp add: closing_phase_def)
    note d = disconnecting [OF assms(1) disjI2 [OF c]]
    have "u = s\<lparr>th_socket := None, th_phase := StClear\<rparr>"
      using go StReset by (simp add: strand_continue_def)
    then show ?thesis using d(1-4) d(5) [OF c] inv(2) f
      by (simp add: threads_inv_def client_inv_def no_connects_def closing_phase_def numbering_inv_def)
  next
    case StClear
    then have c: "closing_phase (th_phase s)" by (simp add: closing_phase_def)
    note d = disconnecting [OF assms(1) disjI2 [OF c]]
    have "u = s\<lparr>th_connected := False, th_phase := StIdle\<rparr>"
      using go StClear by (simp add: strand_continue_def)
    then show ?thesis using d(1-4) d(5) [OF c] StClear inv(2) f
      by (simp add: threads_inv_def client_inv_def no_connects_def closing_phase_def numbering_inv_def strand_quiet_def)
  next
    case (StSend b)
    with inv(3) obtain i where i: "th_socket s = Some i" by auto
    define out where "out = th_sent s @ [(i, frame_make (th_topic s) DATA b)]"
    have u: "u = s\<lparr>th_phase := StIdle, th_sent := out\<rparr>"
      using go StSend i by (auto simp: strand_continue_def with_socket_def out_def)
    have "client_inv u = client_inv s"
      by (rule client_inv_cong) (simp_all add: u StSend closing_phase_def)
    then show ?thesis using inv(1,2) f by (simp add: threads_inv_def u numbering_inv_def)
  qed
qed

lemma connect_inv:
  assumes "threads_inv s" "orderly_event strict e s = Some u"
    and "e = EvConnectOk i \<or> e = EvConnectFail i \<or> e = EvConnectGoes i"
  shows "threads_inv u"
proof -
  have go: "connect_succeeds i s = Some u \<or> connect_fails i s = Some u \<or> connect_continue i s = Some u"
    using orderly_event_go [OF assms(2)] assms(3) by (auto simp: threads_event_def)
  then have c: "th_connect s i \<noteq> CpNone"
    by (auto simp: connect_succeeds_def connect_fails_def connect_continue_def)
  have inv: "client_inv s" using assms(1) by (simp add: threads_inv_def)
  with c obtain sub where sub: "th_client s = ClOpening sub"
    by (auto simp: client_inv_def no_connects_def split: client_phase.splits if_splits)
  with inv c have idle: "th_call s = CallIdle" by (auto simp: client_inv_def no_connects_def split: call_phase.splits)
  with inv sub obtain j where j: "th_socket s = Some j" "opening_inv sub j s" "strand_quiet s"
    by (auto simp: client_inv_def)
  with c have "j = i" by (auto simp: opening_inv_def)
  note i = j [unfolded this]
  have "(\<exists>ph cn out lp. u = s\<lparr>th_connect := (th_connect s)(i := ph), th_connected := cn, th_sent := out,
      th_loop := lp\<rparr>) \<and> opening_inv sub i u \<and> (th_connected s \<longrightarrow> th_connected u) \<and>
      (\<forall>j. j \<noteq> i \<longrightarrow> th_loop u j = th_loop s j) \<and> (th_loop s i \<noteq> LpIdle \<longrightarrow> th_loop u i \<noteq> LpIdle)"
    using go i
    by (cases "th_connect s i"; cases s)
      (auto simp: connect_succeeds_def connect_fails_def connect_continue_def th_alive_def with_socket_def opening_inv_def)
  then obtain ph cn out lp where u: "u = s\<lparr>th_connect := (th_connect s)(i := ph), th_connected := cn, th_sent := out,
      th_loop := lp\<rparr>" and op: "opening_inv sub i u" "th_connected s \<longrightarrow> th_connected u"
    "\<And>j. j \<noteq> i \<Longrightarrow> th_loop u j = th_loop s j" "th_loop s i \<noteq> LpIdle \<Longrightarrow> th_loop u i \<noteq> LpIdle" by blast
  have "client_inv u"
    using op(1) i(1,3) sub idle by (simp add: client_inv_def u strand_quiet_def)
  moreover have n: "numbering_inv s" using assms(1) by (simp add: threads_inv_def)
  then have "i < th_next s" using i(1) by (simp add: numbering_inv_def)
  then have fresh: "th_loop u j = LpIdle" if "th_next s \<le> j" for j
    using n op(3) [of j] that by (auto simp: numbering_inv_def)
  have keep: "th_loop u j \<noteq> LpIdle" if "th_loop s j \<noteq> LpIdle" for j
    using op(3,4) that by (cases "j = i") auto
  have "numbering_inv u" using n fresh keep by (auto simp: numbering_inv_def u)
  ultimately show ?thesis using assms(1) op(2) i(1) by (auto simp: threads_inv_def u)
qed

lemma loop_inv:
  assumes "threads_inv s" "orderly_event strict e s = Some u"
    and "e = EvRead i m \<or> e = EvReadFail i lost \<or> e = EvDeliver i"
  shows "threads_inv u"
proof -
  have go: "loop_reads i m s = Some u \<or> loop_fails i lost s = Some u \<or> loop_delivers i s = Some u"
    using orderly_event_go [OF assms(2)] assms(3) by (auto simp: threads_event_def)
  then have l: "th_loop s i \<noteq> LpIdle" by (auto simp: loop_reads_def loop_fails_def loop_delivers_def split: if_splits)
  from go have rest: "th_fault u = th_fault s" "th_client u = th_client s" "th_call u = th_call s" "th_socket u = th_socket s"
    "th_connected u = th_connected s" "th_connect u = th_connect s" "th_strand u = th_strand s" "th_phase u = th_phase s"
    "th_next u = th_next s" "\<And>j. th_loop u j = LpIdle \<longleftrightarrow> th_loop s j = LpIdle"
    "\<forall>(j, k)\<in>set (th_delivered u). (j, k) \<in> set (th_delivered s) \<or> j = i"
    using l by (auto simp: loop_reads_def loop_fails_def loop_delivers_def split: if_splits receive_phase.splits)
  have "client_inv u = client_inv s" by (rule client_inv_cong) (simp_all add: rest)
  moreover have "numbering_inv s \<Longrightarrow> numbering_inv u"
    using rest l by (fastforce simp: numbering_inv_def)
  ultimately show ?thesis using assms(1) rest by (simp add: threads_inv_def)
qed

lemma orderly_event_inv:
  assumes "threads_inv s" "orderly_event strict e s = Some u"
  shows "threads_inv u"
proof (cases e)
  case EvCall
  with assms call_start_inv show ?thesis by blast
next
  case EvCallGoes
  with assms call_continue_inv show ?thesis by blast
next
  case EvDisconnect
  with assms disconnect_inv show ?thesis by blast
next
  case EvPublish
  with assms publish_inv show ?thesis by blast
next
  case EvPoll
  with assms poll_inv show ?thesis by blast
next
  case EvStrand
  with assms strand_inv show ?thesis by blast
qed (use connect_inv [OF assms] loop_inv [OF assms] in blast)+

section \<open>What an orderly user gets\<close>

lemma run_orderly_inv: "run_opt (orderly_event strict) es (threads_new topic) = Some s \<Longrightarrow> threads_inv s"
  by (rule run_opt_inv [of threads_inv "\<lambda>_. True"]) (auto intro: orderly_event_inv threads_new_inv)

text \<open>A publish takes the strand two accesses, the test of the flag and the send.\<close>

lemma strand_sends:
  assumes "th_fault s = None" "th_phase s = StIdle" "th_connected s" "th_socket s = Some i"
    and "th_strand s = map TaskPublish bs"
  shows "run_opt (threads_event strict) (replicate (2 * length bs) EvStrand) s =
    Some (s\<lparr>th_strand := [], th_sent := th_sent s @ map (\<lambda>b. (i, frame_make (th_topic s) DATA b)) bs\<rparr>)"
  using assms
proof (induction bs arbitrary: s)
  case (Cons b bs)
  let ?t = "s\<lparr>th_strand := map TaskPublish bs, th_sent := th_sent s @ [(i, frame_make (th_topic s) DATA b)]\<rparr>"
  have "run_opt (threads_event strict) [EvStrand, EvStrand] s = Some ?t"
    using Cons.prems by (cases s) (simp add: threads_event_def strand_continue_def with_socket_def)
  moreover have "replicate (2 * length (b # bs)) EvStrand = [EvStrand, EvStrand] @ replicate (2 * length bs) EvStrand"
    by simp
  ultimately have "run_opt (threads_event strict) (replicate (2 * length (b # bs)) EvStrand) s =
      run_opt (threads_event strict) (replicate (2 * length bs) EvStrand) ?t"
    by (simp only: run_opt_append option.case)
  then show ?case using Cons.IH [of ?t] Cons.prems by simp
qed (simp add: threads_event_def)

lemma publishes_only: "TaskDisconnect \<notin> set ts \<Longrightarrow> \<exists>bs. ts = map TaskPublish bs"
proof (induction ts)
  case (Cons t ts)
  then obtain b bs where "t = TaskPublish b" "ts = map TaskPublish bs" by (cases t) auto
  then show ?case by (intro exI [of _ "b # bs"]) simp
qed simp

section \<open>Late messages\<close>

definition late_inv :: "transport_threads \<Rightarrow> bool" where
  "late_inv s \<longleftrightarrow>
     (\<forall>i. th_late s i = 0 \<or> th_late s i = Suc 0 \<and> \<not> th_open s i \<and> (\<forall>m. th_loop s i \<noteq> LpReady m))"

text \<open>An event leaves the count of a socket alone, unless it delivers a message of that socket, closed before.\<close>

lemma late_event:
  assumes "threads_event strict e s = Some u"
  shows "th_late u i = th_late s i \<and> (th_open u i \<longrightarrow> th_open s i) \<and>
      (\<forall>m. th_loop u i = LpReady m \<longrightarrow> th_loop s i = LpReady m \<or> th_open s i) \<or>
    \<not> th_open s i \<and> \<not> th_open u i \<and> (\<exists>m. th_loop s i = LpReady m) \<and> th_loop u i = LpReading \<and>
      th_late u i = Suc (th_late s i)"
  using assms
  by (cases e)
    (auto simp: threads_event_def call_start_def call_continue_def strand_continue_def
      connect_succeeds_def connect_fails_def connect_continue_def loop_reads_def loop_fails_def loop_delivers_def
      client_polls_def with_socket_def th_fails_def
      split: if_splits option.splits call_phase.splits strand_phase.splits list.splits strand_task.splits
        connect_phase.splits receive_phase.splits client_phase.splits)

lemma late_inv_event:
  assumes "late_inv s" "threads_event strict e s = Some u"
  shows "late_inv u"
  unfolding late_inv_def
proof
  fix i
  from assms(1) have "th_late s i = 0 \<or> th_late s i = Suc 0 \<and> \<not> th_open s i \<and> (\<forall>m. th_loop s i \<noteq> LpReady m)"
    by (simp add: late_inv_def)
  with late_event [OF assms(2), of i]
  show "th_late u i = 0 \<or> th_late u i = Suc 0 \<and> \<not> th_open u i \<and> (\<forall>m. th_loop u i \<noteq> LpReady m)"
    by auto
qed

section \<open>Properties\<close>

text \<open>
  C9. Used in an orderly way a transport is safe under every interleaving of the calling thread, the strand and the
  io threads: no null or destroyed socket is used and nothing else fails. A user that is up has a connected transport,
  and as the strand goes on all payloads that wait on it reach the wire, in the order posted, on the current
  connection; a user that is down has a transport without a socket and without outstanding work on one.
\<close>

theorem transport_threads_orderly:
  assumes "run_opt (orderly_event strict) es (threads_new topic) = Some s"
  shows "th_fault s = None \<and>
    (th_client s = ClUp \<and> th_phase s = StIdle \<longrightarrow>
      (\<exists>i bs u. th_socket s = Some i \<and> th_connected s \<and> th_strand s = map TaskPublish bs \<and>
        run_opt (threads_event strict) (replicate (2 * length bs) EvStrand) s = Some u \<and> th_strand u = [] \<and>
        th_sent u = th_sent s @ map (\<lambda>b. (i, frame_make (th_topic s) DATA b)) bs)) \<and>
    (th_client s = ClDown \<longrightarrow>
      th_socket s = None \<and> \<not> th_connected s \<and> (\<forall>i. th_connect s i = CpNone) \<and> TaskDisconnect \<notin> set (th_strand s))"
proof -
  have inv: "th_fault s = None" "client_inv s"
    using run_orderly_inv [OF assms] by (simp_all add: threads_inv_def)
  have "\<exists>i bs u. th_socket s = Some i \<and> th_connected s \<and> th_strand s = map TaskPublish bs \<and>
      run_opt (threads_event strict) (replicate (2 * length bs) EvStrand) s = Some u \<and> th_strand u = [] \<and>
      th_sent u = th_sent s @ map (\<lambda>b. (i, frame_make (th_topic s) DATA b)) bs"
    if up: "th_client s = ClUp" "th_phase s = StIdle"
  proof -
    from inv(2) up obtain i where i: "th_socket s = Some i" "th_connected s" "TaskDisconnect \<notin> set (th_strand s)"
      by (auto simp: client_inv_def strand_quiet_def)
    from publishes_only [OF i(3)] obtain bs where "th_strand s = map TaskPublish bs" ..
    with strand_sends [OF inv(1) up(2) i(2,1) this] i show ?thesis by auto
  qed
  then show ?thesis using inv by (auto simp: client_inv_def no_connects_def strand_quiet_def)
qed

text \<open>A publisher connects, waits, publishes twice.\<close>

definition orderly_publisher :: "threads_event list" where
  "orderly_publisher = [EvCall False, EvCallGoes True, EvCallGoes True, EvConnectOk 0, EvConnectGoes 0, EvPoll,
     EvPublish [5], EvPublish [6]]"

lemmas threads_run_defs = threads_event_def orderly_event_def orderly_def threads_new_def call_start_def call_continue_def
  strand_continue_def connect_succeeds_def connect_fails_def connect_continue_def loop_reads_def loop_fails_def
  loop_delivers_def client_polls_def with_socket_def th_fails_def th_alive_def

theorem transport_threads_orderly_witness:
  "\<exists>s u. run_opt (orderly_event True) orderly_publisher (threads_new 9) = Some s \<and> th_fault s = None \<and>
     run_opt (threads_event True) [EvStrand, EvStrand, EvStrand, EvStrand] s = Some u \<and>
     th_sent u = [(0, frame_make 9 DATA [5]), (0, frame_make 9 DATA [6])]"
proof -
  obtain s where s: "run_opt (orderly_event True) orderly_publisher (threads_new 9) = Some s"
    and up: "th_client s = ClUp" "th_phase s = StIdle" "th_topic s = 9" "th_sent s = []" "th_socket s = Some 0"
      "th_strand s = map TaskPublish [[5], [6]]"
    by (simp add: orderly_publisher_def threads_run_defs)
  note t = transport_threads_orderly [OF s]
  from t up obtain i bs u where u: "th_socket s = Some i" "th_strand s = map TaskPublish bs"
    "run_opt (threads_event True) (replicate (2 * length bs) EvStrand) s = Some u"
    "th_sent u = th_sent s @ map (\<lambda>b. (i, frame_make (th_topic s) DATA b)) bs" by blast
  with up have "i = 0" "bs = [[5], [6]]" by auto
  with s u up t show ?thesis by (simp add: eval_nat_numeral)
qed


text \<open>A subscriber that disconnects while a message is on its way to the handler.\<close>

definition late_subscriber :: "threads_event list" where
  "late_subscriber = [EvCall True, EvCallGoes True, EvCallGoes True, EvConnectOk 0, EvConnectGoes 0, EvConnectGoes 0,
     EvConnectGoes 0, EvRead 0 [1, 2, 3], EvDisconnect, EvStrand, EvStrand, EvStrand, EvStrand, EvDeliver 0]"


text \<open>
  What happens to users that are not orderly. One who gives up on a connect has its handler write into a destroyed
  socket if the connect succeeds after all. A subscriber that disconnects as soon as \<open>connected()\<close> is true makes the
  handler go through a null pointer. A publisher that disconnects just before the handler stores its flag is left
  connected without a socket: its next publish goes through a null pointer, on the strand. And one that connects again
  before the strand has stored its flag ends with a live connection that counts as disconnected for good: every publish is
  dropped and \<open>connect\<close> does nothing.
\<close>

theorem transport_races:
  "map_option th_fault (run_opt (threads_event strict)
      [EvCall False, EvCallGoes True, EvCallGoes True, EvDisconnect, EvStrand, EvStrand, EvStrand, EvStrand, EvConnectOk 0]
      (threads_new topic)) = Some (Some (UndefinedBehaviour ''socket used after destruction'')) \<and>
   map_option th_fault (run_opt (threads_event strict)
      [EvCall True, EvCallGoes True, EvCallGoes True, EvConnectOk 0, EvConnectGoes 0, EvDisconnect, EvStrand, EvStrand,
       EvStrand, EvConnectGoes 0]
      (threads_new topic)) = Some (Some (UndefinedBehaviour ''_socket is null'')) \<and>
   map_option th_fault (run_opt (threads_event strict)
      [EvCall False, EvCallGoes True, EvCallGoes True, EvConnectOk 0, EvDisconnect, EvStrand, EvStrand, EvStrand, EvStrand,
       EvConnectGoes 0, EvPublish [], EvStrand, EvStrand]
      (threads_new topic)) = Some (Some (UndefinedBehaviour ''_socket is null'')) \<and>
   (\<exists>s. run_opt (threads_event strict)
      [EvCall False, EvCallGoes True, EvCallGoes True, EvConnectOk 0, EvConnectGoes 0, EvDisconnect, EvStrand, EvStrand,
       EvStrand, EvCall False, EvCallGoes True, EvCallGoes True, EvConnectOk 1, EvConnectGoes 1, EvStrand]
      (threads_new topic) = Some s \<and>
      th_socket s = Some 1 \<and> th_open s 1 \<and> \<not> th_connected s \<and> (\<forall>i. th_connect s i = CpNone) \<and>
      (\<forall>b. map_option th_sent (run_opt (threads_event strict) [EvPublish b, EvStrand] s) = Some (th_sent s)) \<and>
      threads_event False (EvCall False) s = Some s)"
proof (intro conjI)
  show "\<exists>s. run_opt (threads_event strict)
      [EvCall False, EvCallGoes True, EvCallGoes True, EvConnectOk 0, EvConnectGoes 0, EvDisconnect, EvStrand, EvStrand,
       EvStrand, EvCall False, EvCallGoes True, EvCallGoes True, EvConnectOk 1, EvConnectGoes 1, EvStrand]
      (threads_new topic) = Some s \<and>
      th_socket s = Some 1 \<and> th_open s 1 \<and> \<not> th_connected s \<and> (\<forall>i. th_connect s i = CpNone) \<and>
      (\<forall>b. map_option th_sent (run_opt (threads_event strict) [EvPublish b, EvStrand] s) = Some (th_sent s)) \<and>
      threads_event False (EvCall False) s = Some s"
    by (simp add: threads_run_defs)
qed (simp_all add: threads_run_defs)

end
