(* ===== verification/ClientSystem.thy ===== *)
theory ClientSystem
  imports BrokerOrder TransportThreads "HOL-Library.Sublist"
begin

text \<open>
  The broker and any number of clients with all their threads: every client is a \<open>TcpTransport\<close> cut at its shared
  accesses (\<open>TransportThreads\<close>) and used in an orderly way, the broker is that of \<open>EventBroker\<close>, and each connection
  carries the frames of either side in order, with any delay. Only the connections are new; the operations are those
  of the two theories, which this one composes.
\<close>

section \<open>What a client sends\<close>

definition sent_data :: "transport_threads \<Rightarrow> bytes list" where
  "sent_data s = concat (map (\<lambda>m. data_payload (th_topic s) (snd m)) (th_sent s))"

text \<open>The payloads posted to the strand and not yet sent or dropped.\<close>

fun task_payload :: "strand_task \<Rightarrow> bytes list" where
  "task_payload (TaskPublish payload) = [payload]"
| "task_payload TaskDisconnect = []"

definition to_publish :: "transport_threads \<Rightarrow> bytes list" where
  "to_publish s = (case th_phase s of StSend payload \<Rightarrow> [payload] | _ \<Rightarrow> []) @ concat (map task_payload (th_strand s))"

fun posted_by :: "threads_event \<Rightarrow> bytes list" where
  "posted_by (EvPublish payload) = [payload]"
| "posted_by _ = []"

lemma sent_event:
  assumes "threads_event strict e s = Some u"
  shows "th_topic u = th_topic s \<and> (\<exists>more. th_sent u = th_sent s @ more \<and>
    (\<forall>m\<in>set more. \<exists>ty p. snd m = frame_make (th_topic s) ty p))"
  using assms
  by (cases e)
    (auto simp: threads_defs client_polls_def
      split: if_splits option.splits call_phase.splits strand_phase.splits list.splits strand_task.splits
        connect_phase.splits receive_phase.splits client_phase.splits, blast+)

lemma publish_event:
  assumes "threads_event strict e s = Some u"
  shows "subseq (sent_data u @ to_publish u) (sent_data s @ to_publish s @ posted_by e)"
proof (cases e)
  case EvStrand
  then have go: "strand_continue s = Some u" using assms by (simp add: threads_event_def split: if_splits)
  show ?thesis
  proof (cases "th_phase s")
    case StIdle
    then show ?thesis using go EvStrand
      by (auto simp: strand_continue_def sent_data_def to_publish_def
          split: list.splits strand_task.splits if_splits intro!: list_emb_append_mono subseq_append)
  qed (use go EvStrand in \<open>auto simp: strand_continue_def with_socket_def th_fails_def sent_data_def to_publish_def
        split: option.splits\<close>)
qed (use assms in \<open>auto simp: threads_defs client_polls_def sent_data_def to_publish_def
      split: if_splits option.splits call_phase.splits connect_phase.splits receive_phase.splits client_phase.splits\<close>)

section \<open>What a client receives\<close>

text \<open>The messages a connection has read: those handed to the handler and the one about to be.\<close>

definition read_from :: "nat \<Rightarrow> transport_threads \<Rightarrow> bytes list" where
  "read_from i s = frames_for i (th_delivered s) @ (case th_loop s i of LpReady m \<Rightarrow> [m] | _ \<Rightarrow> [])"

lemma connecting_loop:
  assumes "threads_inv s" "th_connect s i = CpSent" "th_socket s = Some j"
  shows "j = i" "th_loop s i = LpIdle"
proof -
  have c: "client_inv s" using assms(1) by (simp add: threads_inv_def)
  have "th_connect s i \<noteq> CpNone" using assms(2) by simp
  then have "\<not> no_connects s" unfolding no_connects_def by blast
  note c = c this
  obtain sub where o: "th_client s = ClOpening sub" "th_call s = CallIdle"
    using c by (cases "th_client s"; cases "th_call s") (auto simp: client_inv_def)
  then obtain k where "th_socket s = Some k" "opening_inv sub k s" using c(1) by (auto simp: client_inv_def)
  then show "j = i" "th_loop s i = LpIdle"
    using assms(2,3) by (cases "k = i"; auto simp: opening_inv_def)+
qed

lemma read_event:
  assumes "threads_inv s" "orderly_event strict e s = Some u"
  shows "read_from i u = read_from i s @ (case e of EvRead j m \<Rightarrow> if j = i then [m] else [] | _ \<Rightarrow> [])"
proof -
  have go: "threads_event strict e s = Some u" and f: "th_fault s = None"
    using orderly_event_go [OF assms(2)] by simp_all
  show ?thesis
  proof (cases e)
    case (EvConnectGoes k)
    then have c: "connect_continue k s = Some u" using go f by (simp add: threads_event_def)
    show ?thesis
    proof (cases "th_connect s k")
      case CpSent
      then show ?thesis using c connecting_loop [OF assms(1) CpSent] EvConnectGoes
        by (cases "th_socket s") (auto simp: connect_continue_def with_socket_def th_fails_def read_from_def)
    qed (use c EvConnectGoes in \<open>auto simp: connect_continue_def with_socket_def th_fails_def read_from_def split: option.splits\<close>)
  next
    case (EvRead k m)
    then show ?thesis using go f by (cases "k = i") (auto simp: threads_event_def loop_reads_def read_from_def split: if_splits)
  next
    case (EvReadFail k lost)
    then show ?thesis using go f by (cases "k = i") (auto simp: threads_event_def loop_fails_def read_from_def split: if_splits)
  next
    case (EvDeliver k)
    then show ?thesis using go f
      by (cases "k = i") (auto simp: threads_event_def loop_delivers_def read_from_def frames_for_def split: receive_phase.splits)
  next
    case EvStrand
    then have "strand_continue s = Some u" using go f by (simp add: threads_event_def)
    then have "th_loop u = th_loop s \<and> th_delivered u = th_delivered s"
      by (auto simp: strand_continue_def with_socket_def th_fails_def
          split: strand_phase.splits list.splits strand_task.splits option.splits)
    then show ?thesis using EvStrand by (simp add: read_from_def)
  next
    case (EvCallGoes resolves)
    then have "call_continue resolves s = Some u" using go f by (simp add: threads_event_def)
    then have "th_loop u = th_loop s \<and> th_delivered u = th_delivered s"
      by (auto simp: call_continue_def with_socket_def th_fails_def split: call_phase.splits option.splits)
    then show ?thesis using EvCallGoes by (simp add: read_from_def)
  qed (use go f in \<open>auto simp: threads_event_def call_start_def th_fails_def client_polls_def connect_succeeds_def
      connect_fails_def read_from_def split: if_splits connect_phase.splits client_phase.splits\<close>)
qed

section \<open>The system\<close>

text \<open>
  \<open>sy_session\<close>: the broker's session for a connection, which is a client and the number of its socket; \<open>sy_taken\<close>
  counts the frames a session has received, \<open>sy_given\<close> those its client has read.
\<close>

record pubsub_system =
  sy_client :: "nat \<Rightarrow> transport_threads"
  sy_broker :: broker
  sy_session :: "nat \<times> nat \<Rightarrow> sid option"
  sy_taken :: "sid \<Rightarrow> nat"
  sy_given :: "sid \<Rightarrow> nat"

definition system_new :: "(nat \<Rightarrow> u16) \<Rightarrow> pubsub_system" where
  "system_new topics = \<lparr>sy_client = (\<lambda>c. threads_new (topics c)), sy_broker = broker_new, sy_session = (\<lambda>_. None),
     sy_taken = (\<lambda>_. 0), sy_given = (\<lambda>_. 0)\<rparr>"

definition with_client :: "nat \<Rightarrow> transport_threads \<Rightarrow> pubsub_system \<Rightarrow> pubsub_system" where
  "with_client c t s = s\<lparr>sy_client := (sy_client s)(c := t)\<rparr>"

text \<open>What client \<open>c\<close> has sent on its connection \<open>i\<close>, and the broker to a session.\<close>

abbreviation client_wire :: "pubsub_system \<Rightarrow> nat \<Rightarrow> nat \<Rightarrow> bytes list" where
  "client_wire s c i \<equiv> frames_for i (th_sent (sy_client s c))"

abbreviation broker_wire :: "pubsub_system \<Rightarrow> sid \<Rightarrow> bytes list" where
  "broker_wire s x \<equiv> frames_for x (bk_sent (sy_broker s))"

definition system_accept :: "nat \<Rightarrow> nat \<Rightarrow> pubsub_system \<Rightarrow> pubsub_system option" where
  "system_accept c i s =
     (if sy_session s (c, i) = None \<and> i < th_next (sy_client s c)
      then Some (s\<lparr>sy_broker := on_accept (sy_broker s),
                   sy_session := (sy_session s)((c, i) := Some (bk_next (sy_broker s)))\<rparr>)
      else None)"

text \<open>A session receives the next frame of its connection; \<open>None\<close> if there is none, or if the broker's process ends.\<close>

definition system_take :: "nat \<Rightarrow> nat \<Rightarrow> pubsub_system \<Rightarrow> pubsub_system option" where
  "system_take c i s =
     (case sy_session s (c, i) of
        None \<Rightarrow> None
      | Some x \<Rightarrow>
          if bk_alive (sy_broker s) x \<and> sy_taken s x < length (client_wire s c i)
          then (case on_receive x (client_wire s c i ! sy_taken s x) (sy_broker s) of
                  Inl _ \<Rightarrow> None
                | Inr b \<Rightarrow> Some (s\<lparr>sy_broker := b, sy_taken := (sy_taken s)(x := Suc (sy_taken s x))\<rparr>))
          else None)"

definition system_drop :: "nat \<Rightarrow> nat \<Rightarrow> pubsub_system \<Rightarrow> pubsub_system option" where
  "system_drop c i s =
     (case sy_session s (c, i) of
        None \<Rightarrow> None
      | Some x \<Rightarrow> if bk_alive (sy_broker s) x then Some (s\<lparr>sy_broker := session_error x (sy_broker s)\<rparr>) else None)"

text \<open>A client reads the next frame its session was sent.\<close>

definition system_read :: "bool \<Rightarrow> nat \<Rightarrow> nat \<Rightarrow> pubsub_system \<Rightarrow> pubsub_system option" where
  "system_read strict c i s =
     (case sy_session s (c, i) of
        None \<Rightarrow> None
      | Some x \<Rightarrow>
          if sy_given s x < length (broker_wire s x)
          then map_option (\<lambda>t. (with_client c t s)\<lparr>sy_given := (sy_given s)(x := Suc (sy_given s x))\<rparr>)
                 (orderly_event strict (EvRead i (broker_wire s x ! sy_given s x)) (sy_client s c))
          else None)"

text \<open>Every other event of a client is its own.\<close>

definition system_client :: "bool \<Rightarrow> nat \<Rightarrow> threads_event \<Rightarrow> pubsub_system \<Rightarrow> pubsub_system option" where
  "system_client strict c e s =
     (case e of
        EvRead i m \<Rightarrow> None
      | _ \<Rightarrow> map_option (\<lambda>t. with_client c t s) (orderly_event strict e (sy_client s c)))"

datatype system_event =
    SyClient nat threads_event | SyAccept nat nat | SyTake nat nat | SyDrop nat nat | SyRead nat nat

definition system_event :: "bool \<Rightarrow> system_event \<Rightarrow> pubsub_system \<Rightarrow> pubsub_system option" where
  "system_event strict ev s =
     (case ev of
        SyClient c e \<Rightarrow> system_client strict c e s
      | SyAccept c i \<Rightarrow> system_accept c i s
      | SyTake c i \<Rightarrow> system_take c i s
      | SyDrop c i \<Rightarrow> system_drop c i s
      | SyRead c i \<Rightarrow> system_read strict c i s)"

fun published :: "nat \<Rightarrow> system_event list \<Rightarrow> bytes list" where
  "published c [] = []"
| "published c (SyClient d e # es) = (if d = c then posted_by e else []) @ published c es"
| "published c (_ # es) = published c es"

section \<open>The system against the history of its frames\<close>

lemma broker_step_sends: "\<exists>more. bk_sent (broker_step k b) = bk_sent b @ more"
  by (cases k)
    (auto simp: on_accept_def on_receive_make on_subscribe_def session_send_def on_unsubscribe_def on_event_def
      session_error_def Let_def)

lemma broker_wire_grows: "\<exists>more. frames_for x (bk_sent (broker_step k b)) = frames_for x (bk_sent b) @ more"
proof -
  obtain more where "bk_sent (broker_step k b) = bk_sent b @ more" using broker_step_sends by blast
  then show ?thesis by simp
qed

lemma orderly_grows:
  assumes "orderly_event strict e t = Some u"
  shows "\<exists>more. frames_for i (th_sent u) = frames_for i (th_sent t) @ more"
proof -
  obtain more where "th_sent u = th_sent t @ more"
    using sent_event [OF orderly_event_go(2) [OF assms]] by blast
  then show ?thesis by simp
qed

text \<open>One connection: its session has a prefix of what the client sent, the client a prefix of what the session was sent.\<close>

definition link_ok :: "broker_call list \<Rightarrow> pubsub_system \<Rightarrow> nat \<Rightarrow> nat \<Rightarrow> sid \<Rightarrow> bool" where
  "link_ok h s c i x \<longleftrightarrow> x < accepts h \<and>
     sy_taken s x \<le> length (client_wire s c i) \<and> session_frames h x = take (sy_taken s x) (client_wire s c i) \<and>
     sy_given s x \<le> length (broker_wire s x) \<and> read_from i (sy_client s c) = take (sy_given s x) (broker_wire s x)"

definition frames_made :: "transport_threads \<Rightarrow> bool" where
  "frames_made t \<longleftrightarrow> (\<forall>m\<in>set (th_sent t). \<exists>topic ty p. snd m = frame_make topic ty p)"

definition system_sim :: "broker_call list \<Rightarrow> pubsub_system \<Rightarrow> bool" where
  "system_sim h s \<longleftrightarrow> sy_broker s = broker_after h \<and>
     (\<forall>c. threads_inv (sy_client s c) \<and> frames_made (sy_client s c)) \<and>
     (\<forall>k l x. sy_session s k = Some x \<and> sy_session s l = Some x \<longrightarrow> k = l) \<and>
     (\<forall>x. accepts h \<le> x \<longrightarrow> sy_taken s x = 0 \<and> sy_given s x = 0 \<and> session_frames h x = []) \<and>
     (\<forall>c i. case sy_session s (c, i) of
        None \<Rightarrow> read_from i (sy_client s c) = []
      | Some x \<Rightarrow> link_ok h s c i x)"

lemma system_simD:
  assumes "system_sim h s"
  shows "sy_broker s = broker_after h" "threads_inv (sy_client s c)" "frames_made (sy_client s c)"
    "sy_session s k = Some x \<Longrightarrow> sy_session s l = Some x \<Longrightarrow> k = l"
    "accepts h \<le> y \<Longrightarrow> sy_taken s y = 0 \<and> sy_given s y = 0 \<and> session_frames h y = []"
    "sy_session s (c, i) = Some x \<Longrightarrow> link_ok h s c i x"
    "sy_session s (c, i) = None \<Longrightarrow> read_from i (sy_client s c) = []"
proof -
  note sim = assms [unfolded system_sim_def]
  show "sy_broker s = broker_after h" "threads_inv (sy_client s c)" "frames_made (sy_client s c)"
    "accepts h \<le> y \<Longrightarrow> sy_taken s y = 0 \<and> sy_given s y = 0 \<and> session_frames h y = []"
    using sim by blast+
  show "k = l" if "sy_session s k = Some x" "sy_session s l = Some x" using sim that by blast
  have "case sy_session s (c, i) of None \<Rightarrow> read_from i (sy_client s c) = [] | Some x \<Rightarrow> link_ok h s c i x"
    using sim by blast
  then show "sy_session s (c, i) = Some x \<Longrightarrow> link_ok h s c i x"
    "sy_session s (c, i) = None \<Longrightarrow> read_from i (sy_client s c) = []" by simp_all
qed

lemma system_simI:
  assumes "sy_broker s = broker_after h" "\<And>c. threads_inv (sy_client s c)" "\<And>c. frames_made (sy_client s c)"
    "\<And>k l x. sy_session s k = Some x \<Longrightarrow> sy_session s l = Some x \<Longrightarrow> k = l"
    "\<And>x. accepts h \<le> x \<Longrightarrow> sy_taken s x = 0 \<and> sy_given s x = 0 \<and> session_frames h x = []"
    "\<And>c i x. sy_session s (c, i) = Some x \<Longrightarrow> link_ok h s c i x"
    "\<And>c i. sy_session s (c, i) = None \<Longrightarrow> read_from i (sy_client s c) = []"
  shows "system_sim h s"
proof -
  have "case sy_session s (c, i) of None \<Rightarrow> read_from i (sy_client s c) = [] | Some x \<Rightarrow> link_ok h s c i x" for c i
    using assms(6,7) by (simp split: option.split)
  then show ?thesis unfolding system_sim_def using assms(1-5) by blast
qed

lemma system_sim_new: "system_sim [] (system_new topics)"
proof -
  have "frames_made (threads_new topic)" "read_from i (threads_new topic) = []" for topic i
    by (simp_all add: frames_made_def threads_new_def read_from_def)
  then show ?thesis by (intro system_simI) (simp_all add: system_new_def threads_new_inv)
qed

lemma frames_made_event:
  assumes "frames_made t" "orderly_event strict e t = Some u"
  shows "frames_made u"
proof -
  obtain more where "th_sent u = th_sent t @ more" "\<forall>m\<in>set more. \<exists>ty p. snd m = frame_make (th_topic t) ty p"
    using sent_event [OF orderly_event_go(2) [OF assms(2)]] by blast
  then show ?thesis using assms(1) unfolding frames_made_def by (metis Un_iff set_append)
qed

lemma system_sim_client:
  assumes "system_sim h s" "system_client strict c e s = Some t"
  shows "system_sim h t"
proof -
  note sim = system_simD [OF assms(1)]
  from assms(2) obtain u where u: "orderly_event strict e (sy_client s c) = Some u" "t = with_client c u s"
    and nr: "\<And>i m. e \<noteq> EvRead i m"
    by (cases e) (auto simp: system_client_def)
  have same: "read_from i u = read_from i (sy_client s c)" for i
    using read_event [OF sim(2) u(1), of i] nr by (cases e) auto
  show ?thesis
  proof (rule system_simI)
    fix d i x
    assume x: "sy_session t (d, i) = Some x"
    then have l: "link_ok h s d i x" using sim(6) u(2) by (simp add: with_client_def)
    show "link_ok h t d i x"
    proof (cases "d = c")
      case True
      obtain more where "frames_for i (th_sent u) = client_wire s c i @ more" using orderly_grows [OF u(1)] by blast
      then show ?thesis using l True same by (simp add: link_ok_def u(2) with_client_def)
    qed (use l u(2) in \<open>simp add: link_ok_def with_client_def\<close>)
  qed (use sim u(2) same orderly_event_inv [OF sim(2) u(1)] frames_made_event [OF sim(3) u(1)]
      in \<open>auto simp: with_client_def\<close>)
qed

lemma system_sim_accept:
  assumes "system_sim h s" "system_accept c i s = Some t"
  shows "system_sim (Accept # h) t"
proof -
  note sim = system_simD [OF assms(1)]
  have n: "bk_next (sy_broker s) = accepts h" using broker_after_inv [of h] sim(1) by simp
  have t: "t = s\<lparr>sy_broker := on_accept (sy_broker s), sy_session := (sy_session s)((c, i) := Some (accepts h))\<rparr>"
    and none: "sy_session s (c, i) = None"
    using assms(2) n by (auto simp: system_accept_def split: if_splits)
  have new: "sy_session s k \<noteq> Some (accepts h)" for k
    using sim(6) [of "fst k" "snd k"] by (auto simp: link_ok_def)
  have wire: "broker_wire t x = broker_wire s x" for x by (simp add: t on_accept_def)
  show ?thesis
  proof (rule system_simI)
    fix d j x
    assume x: "sy_session t (d, j) = Some x"
    show "link_ok (Accept # h) t d j x"
    proof (cases "(d, j) = (c, i)")
      case True
      then show ?thesis using x sim(5) [of "accepts h"] sim(7) [OF none] by (simp add: t link_ok_def)
    next
      case False
      then have "link_ok h s d j x" using x sim(6) by (auto simp: t)
      then show ?thesis using wire by (simp add: link_ok_def t)
    qed
  next
    fix k l x
    assume "sy_session t k = Some x" "sy_session t l = Some x"
    then show "k = l" using new sim(4) by (auto simp: t split: if_splits)
  next
    fix d j
    assume "sy_session t (d, j) = None"
    then show "read_from j (sy_client t d) = []" using sim(7) by (auto simp: t split: if_splits)
  qed (use sim in \<open>simp_all add: t\<close>)
qed

lemma system_sim_broker:
  assumes "system_sim h s" "sy_session s (c, i) = Some x" "k = Lost x \<or> (\<exists>topic ty p. k = Frame x topic ty p)"
    and t: "t = s\<lparr>sy_broker := broker_step k (sy_broker s), sy_taken := tk\<rparr>"
    and taken: "\<And>y. y \<noteq> x \<Longrightarrow> tk y = sy_taken s y" "tk x \<le> length (client_wire s c i)"
      "session_frames (k # h) x = take (tk x) (client_wire s c i)"
  shows "system_sim (k # h) t"
proof -
  note sim = system_simD [OF assms(1)]
  have acc: "accepts (k # h) = accepts h" using assms(3) by auto
  have other: "session_frames (k # h) y = session_frames h y" if "y \<noteq> x" for y using assms(3) that by auto
  have lx: "x < accepts h" using sim(6) [OF assms(2)] by (simp add: link_ok_def)
  show ?thesis
  proof (rule system_simI)
    fix d j y
    assume y: "sy_session t (d, j) = Some y"
    then have l: "link_ok h s d j y" using sim(6) by (simp add: t)
    obtain more where "broker_wire t y = broker_wire s y @ more"
      using broker_wire_grows [of y k "sy_broker s"] by (auto simp: t)
    moreover have "tk y \<le> length (client_wire s d j) \<and> session_frames (k # h) y = take (tk y) (client_wire s d j)"
    proof (cases "y = x")
      case True
      then have "(d, j) = (c, i)" using sim(4) [of "(d, j)" x "(c, i)"] y assms(2) by (simp add: t)
      then show ?thesis using taken True by simp
    next
      case False
      then show ?thesis using l taken(1) other by (simp add: link_ok_def)
    qed
    ultimately show "link_ok (k # h) t d j y" using l acc by (simp add: link_ok_def t)
  next
    fix y
    assume "accepts (k # h) \<le> y"
    then show "sy_taken t y = 0 \<and> sy_given t y = 0 \<and> session_frames (k # h) y = []"
      using sim(5) [of y] acc taken(1) [of y] other [of y] lx by (simp add: t)
  qed (use sim in \<open>auto simp: t\<close>)
qed

lemma taken_frame:
  assumes "frames_made t" "n < length (frames_for i (th_sent t))"
  obtains topic ty p where "frames_for i (th_sent t) ! n = frame_make topic ty p"
proof -
  have "frames_for i (th_sent t) ! n \<in> set (map snd (th_sent t))"
    using nth_mem [OF assms(2)] by (auto simp: frames_for_def)
  then show ?thesis using assms(1) that by (auto simp: frames_made_def)
qed

lemma system_sim_take:
  assumes "system_sim h s" "system_take c i s = Some t"
  shows "\<exists>k. system_sim (k # h) t"
proof -
  note sim = system_simD [OF assms(1)]
  obtain x b where x: "sy_session s (c, i) = Some x" "bk_alive (sy_broker s) x" "sy_taken s x < length (client_wire s c i)"
    "on_receive x (client_wire s c i ! sy_taken s x) (sy_broker s) = ok b"
    "t = s\<lparr>sy_broker := b, sy_taken := (sy_taken s)(x := Suc (sy_taken s x))\<rparr>"
    using assms(2) by (auto simp: system_take_def split: option.splits if_splits sum.splits)
  obtain topic ty p where f: "client_wire s c i ! sy_taken s x = frame_make topic ty p"
    using taken_frame [OF sim(3) x(3)] by blast
  have t: "t = s\<lparr>sy_broker := broker_step (Frame x topic ty p) (sy_broker s), sy_taken := (sy_taken s)(x := Suc (sy_taken s x))\<rparr>"
    using x f by simp
  have "system_sim (Frame x topic ty p # h) t"
    by (rule system_sim_broker [OF assms(1) x(1) _ t])
      (use sim(6) [OF x(1)] f x(3) in \<open>simp_all add: link_ok_def take_Suc_conv_app_nth\<close>)
  then show ?thesis by blast
qed

lemma system_sim_drop:
  assumes "system_sim h s" "system_drop c i s = Some t"
  shows "\<exists>k. system_sim (k # h) t"
proof -
  note sim = system_simD [OF assms(1)]
  obtain x where x: "sy_session s (c, i) = Some x" "bk_alive (sy_broker s) x"
    "t = s\<lparr>sy_broker := session_error x (sy_broker s)\<rparr>"
    using assms(2) by (auto simp: system_drop_def split: option.splits if_splits)
  then have t: "t = s\<lparr>sy_broker := broker_step (Lost x) (sy_broker s), sy_taken := sy_taken s\<rparr>" by simp
  have "system_sim (Lost x # h) t"
    by (rule system_sim_broker [OF assms(1) x(1) _ t]) (use sim(6) [OF x(1)] in \<open>simp_all add: link_ok_def\<close>)
  then show ?thesis by blast
qed

lemma system_sim_read:
  assumes "system_sim h s" "system_read strict c i s = Some t"
  shows "system_sim h t"
proof -
  note sim = system_simD [OF assms(1)]
  obtain x u where x: "sy_session s (c, i) = Some x" "sy_given s x < length (broker_wire s x)"
    and u: "orderly_event strict (EvRead i (broker_wire s x ! sy_given s x)) (sy_client s c) = Some u"
    and t: "t = (with_client c u s)\<lparr>sy_given := (sy_given s)(x := Suc (sy_given s x))\<rparr>"
    using assms(2) by (auto simp: system_read_def split: option.splits if_splits)
  have reads: "read_from j u = read_from j (sy_client s c) @ (if j = i then [broker_wire s x ! sy_given s x] else [])" for j
    using read_event [OF sim(2) u, of j] by simp
  show ?thesis
  proof (rule system_simI)
    fix d j y
    assume y: "sy_session t (d, j) = Some y"
    then have l: "link_ok h s d j y" using sim(6) by (simp add: t with_client_def)
    have same: "y = x \<longleftrightarrow> d = c \<and> j = i"
      using sim(4) [of "(d, j)" x "(c, i)"] y x(1) by (auto simp: t with_client_def)
    obtain more where "frames_for j (th_sent u) = client_wire s c j @ more" using orderly_grows [OF u] by blast
    then show "link_ok h t d j y"
      using l same reads x(2) by (auto simp: link_ok_def t with_client_def take_Suc_conv_app_nth)
  next
    fix y
    assume "accepts h \<le> y"
    moreover have "x < accepts h" using sim(6) [OF x(1)] by (simp add: link_ok_def)
    ultimately show "sy_taken t y = 0 \<and> sy_given t y = 0 \<and> session_frames h y = []"
      using sim(5) [of y] by (auto simp: t with_client_def)
  next
    fix d j
    assume "sy_session t (d, j) = None"
    then have "sy_session s (d, j) = None" "(d, j) \<noteq> (c, i)" using x(1) by (auto simp: t with_client_def)
    then show "read_from j (sy_client t d) = []" using sim(7) reads by (auto simp: t with_client_def)
  qed (use sim orderly_event_inv [OF sim(2) u] frames_made_event [OF sim(3) u] in \<open>auto simp: t with_client_def\<close>)
qed

lemma system_sim_event:
  assumes "system_sim h s" "system_event strict e s = Some t"
  shows "\<exists>k. system_sim k t"
proof (cases e)
  case (SyClient c ev)
  then show ?thesis using assms system_sim_client [of h s strict c ev t] by (auto simp: system_event_def)
next
  case (SyAccept c i)
  then show ?thesis using assms system_sim_accept [of h s c i t] by (auto simp: system_event_def)
next
  case (SyTake c i)
  then show ?thesis using assms system_sim_take [of h s c i t] by (auto simp: system_event_def)
next
  case (SyDrop c i)
  then show ?thesis using assms system_sim_drop [of h s c i t] by (auto simp: system_event_def)
next
  case (SyRead c i)
  then show ?thesis using assms system_sim_read [of h s strict c i t] by (auto simp: system_event_def)
qed

lemma system_sim_run:
  "run_opt (system_event strict) es (system_new topics) = Some s \<Longrightarrow> \<exists>h. system_sim h s"
  by (rule run_opt_inv [of "\<lambda>s. \<exists>h. system_sim h s" "\<lambda>_. True"]) (auto intro: system_sim_event system_sim_new)

text \<open>The payloads of a topic handed to the handler of a connection.\<close>

definition handed :: "u16 \<Rightarrow> nat \<Rightarrow> transport_threads \<Rightarrow> bytes list" where
  "handed topic i t = concat (map (data_payload topic) (frames_for i (th_delivered t)))"

lemma broker_wire_expected:
  "system_sim h s \<Longrightarrow> concat (map (data_payload topic) (broker_wire s x)) = expected h x topic"
  using system_simD(1) [of h s] topic_stream_expected [of topic x h] by (simp add: topic_stream_def)

lemma handed_prefix:
  assumes "system_sim h s" "sy_session s (c, i) = Some x"
  shows "prefix (handed topic i (sy_client s c)) (expected h x topic)"
proof -
  have "prefix (frames_for i (th_delivered (sy_client s c))) (read_from i (sy_client s c))"
    by (simp add: read_from_def)
  also have "prefix (read_from i (sy_client s c)) (broker_wire s x)"
    using system_simD(6) [OF assms] by (simp add: link_ok_def take_is_prefix)
  finally obtain more where "broker_wire s x = frames_for i (th_delivered (sy_client s c)) @ more" by (auto elim: prefixE)
  then show ?thesis using broker_wire_expected [OF assms(1), of topic x]
    by (intro prefixI [of _ _ "concat (map (data_payload topic) more)"]) (simp add: handed_def)
qed

lemma published_event:
  assumes "system_event strict e s = Some t"
  shows "subseq (sent_data (sy_client t c) @ to_publish (sy_client t c))
    (sent_data (sy_client s c) @ to_publish (sy_client s c) @ published c [e])"
proof -
  have same: ?thesis if "sy_client t c = sy_client s c"
  proof -
    have "subseq (sent_data (sy_client s c) @ to_publish (sy_client s c))
        ((sent_data (sy_client s c) @ to_publish (sy_client s c)) @ published c [e])"
      by (rule subseq_rev_drop_many) simp
    then show ?thesis using that by simp
  qed
  show ?thesis
  proof (cases e)
    case (SyClient d ev)
    then obtain u where u: "orderly_event strict ev (sy_client s d) = Some u" "t = with_client d u s"
      using assms by (auto simp: system_event_def system_client_def split: threads_event.splits)
    show ?thesis
    proof (cases "d = c")
      case True
      then show ?thesis using publish_event [OF orderly_event_go(2) [OF u(1)]] SyClient u(2) by (simp add: with_client_def)
    qed (use same u(2) in \<open>simp add: with_client_def\<close>)
  next
    case (SyRead d i)
    then obtain x u where u: "orderly_event strict (EvRead i x) (sy_client s d) = Some u" "sy_client t = (sy_client s)(d := u)"
      using assms by (auto simp: system_event_def system_read_def with_client_def split: option.splits if_splits)
    show ?thesis
    proof (cases "d = c")
      case True
      then show ?thesis using publish_event [OF orderly_event_go(2) [OF u(1)]] SyRead u(2) by simp
    qed (use same u(2) in simp)
  qed (use assms same in \<open>auto simp: system_event_def system_accept_def system_take_def system_drop_def
      split: option.splits if_splits sum.splits\<close>)
qed

lemma published_Cons: "published c (e # es) = published c [e] @ published c es"
  by (cases e) auto

lemma published_run:
  "run_opt (system_event strict) es s = Some t \<Longrightarrow>
   subseq (sent_data (sy_client t c) @ to_publish (sy_client t c))
     (sent_data (sy_client s c) @ to_publish (sy_client s c) @ published c es)"
proof (induction es arbitrary: s)
  case (Cons e es)
  then obtain u where u: "system_event strict e s = Some u" "run_opt (system_event strict) es u = Some t"
    by (auto split: option.splits)
  have "subseq ((sent_data (sy_client u c) @ to_publish (sy_client u c)) @ published c es)
      ((sent_data (sy_client s c) @ to_publish (sy_client s c) @ published c [e]) @ published c es)"
    by (rule list_emb_append_mono [OF published_event [OF u(1)]]) simp
  with Cons.IH [OF u(2)] show ?case by (subst published_Cons) (auto intro: subseq_order.trans)
qed simp

section \<open>Catching up\<close>

lemma take_frame:
  assumes "system_sim h s" "sy_session s (c, i) = Some x" "bk_alive (sy_broker s) x"
    and "sy_taken s x < length (client_wire s c i)"
  shows "\<exists>t. system_take c i s = Some t \<and> sy_session t = sy_session s \<and> sy_client t = sy_client s \<and>
    sy_taken t x = Suc (sy_taken s x) \<and> sy_given t = sy_given s \<and> bk_alive (sy_broker t) x"
proof -
  obtain topic ty p where "client_wire s c i ! sy_taken s x = frame_make topic ty p"
    using taken_frame [OF system_simD(3) [OF assms(1)] assms(4)] by blast
  then show ?thesis using assms(2-4)
    by (simp add: system_take_def on_receive_make on_subscribe_def session_send_def on_unsubscribe_def on_event_def)
qed

lemma take_frames:
  assumes "system_sim h s" "sy_session s (c, i) = Some x" "bk_alive (sy_broker s) x"
    and "sy_taken s x + n = length (client_wire s c i)"
  shows "\<exists>t. run_opt (system_event strict) (replicate n (SyTake c i)) s = Some t \<and> sy_session t = sy_session s \<and>
    sy_client t = sy_client s \<and> sy_taken t x = length (client_wire s c i) \<and> sy_given t = sy_given s"
  using assms
proof (induction n arbitrary: h s)
  case (Suc n)
  then obtain u where u: "system_take c i s = Some u" "sy_session u = sy_session s" "sy_client u = sy_client s"
    "sy_taken u x = Suc (sy_taken s x)" "sy_given u = sy_given s" "bk_alive (sy_broker u) x"
    using take_frame [OF Suc.prems(1-3)] by auto
  obtain g where "system_sim g u" using system_sim_take [OF Suc.prems(1) u(1)] by blast
  from Suc.IH [OF this] u Suc.prems show ?case by (simp add: system_event_def)
qed simp

lemma give_frame:
  assumes "system_sim h s" "sy_session s (c, i) = Some x" "sy_given s x < length (broker_wire s x)"
    and "th_loop (sy_client s c) i = LpReading" "th_open (sy_client s c) i"
  shows "\<exists>t. run_opt (system_event strict) [SyRead c i, SyClient c (EvDeliver i)] s = Some t \<and>
    sy_session t = sy_session s \<and> sy_broker t = sy_broker s \<and> sy_taken t = sy_taken s \<and>
    sy_given t x = Suc (sy_given s x) \<and> th_loop (sy_client t c) i = LpReading \<and> th_open (sy_client t c) i \<and>
    (\<forall>d j. client_wire t d j = client_wire s d j)"
proof -
  have f: "th_fault (sy_client s c) = None" using system_simD(2) [OF assms(1)] by (simp add: threads_inv_def)
  show ?thesis using assms(2-5) f
    by (simp add: system_event_def system_read_def system_client_def with_client_def orderly_event_def orderly_def
        threads_event_def loop_reads_def loop_delivers_def)
qed

lemma give_frames:
  assumes "system_sim h s" "sy_session s (c, i) = Some x" "sy_given s x + n = length (broker_wire s x)"
    and "th_loop (sy_client s c) i = LpReading" "th_open (sy_client s c) i"
  shows "\<exists>t. run_opt (system_event strict) (concat (replicate n [SyRead c i, SyClient c (EvDeliver i)])) s = Some t \<and>
    sy_session t = sy_session s \<and> sy_broker t = sy_broker s \<and> sy_taken t = sy_taken s \<and>
    sy_given t x = length (broker_wire s x) \<and> th_loop (sy_client t c) i = LpReading \<and>
    (\<forall>d j. client_wire t d j = client_wire s d j)"
  using assms
proof (induction n arbitrary: h s)
  case (Suc n)
  then obtain u where u: "run_opt (system_event strict) [SyRead c i, SyClient c (EvDeliver i)] s = Some u"
    "sy_session u = sy_session s" "sy_broker u = sy_broker s" "sy_taken u = sy_taken s"
    "sy_given u x = Suc (sy_given s x)" "th_loop (sy_client u c) i = LpReading" "th_open (sy_client u c) i"
    "\<forall>d j. client_wire u d j = client_wire s d j"
    using give_frame [OF Suc.prems(1,2) _ Suc.prems(4,5)] by (metis add_Suc_right less_add_Suc1)
  have "\<exists>g. system_sim g u"
    by (rule run_opt_inv [of "\<lambda>s. \<exists>h. system_sim h s" "\<lambda>_. True", OF _ _ _ u(1)])
      (use Suc.prems(1) system_sim_event in blast)+
  then obtain g where g: "system_sim g u" ..
  obtain t where t: "run_opt (system_event strict) (concat (replicate n [SyRead c i, SyClient c (EvDeliver i)])) u = Some t"
    "sy_session t = sy_session u" "sy_broker t = sy_broker u" "sy_taken t = sy_taken u"
    "sy_given t x = length (broker_wire u x)" "th_loop (sy_client t c) i = LpReading"
    "\<forall>d j. client_wire t d j = client_wire u d j"
    using Suc.IH [OF g] u Suc.prems by auto
  note t = this
  have "run_opt (system_event strict) ([SyRead c i, SyClient c (EvDeliver i)] @
      concat (replicate n [SyRead c i, SyClient c (EvDeliver i)])) s = Some t"
    unfolding run_opt_append using t(1) u(1) by simp
  then have "run_opt (system_event strict) (concat (replicate (Suc n) [SyRead c i, SyClient c (EvDeliver i)])) s = Some t"
    by simp
  moreover have "sy_session t = sy_session s \<and> sy_broker t = sy_broker s \<and> sy_taken t = sy_taken s \<and>
      sy_given t x = length (broker_wire s x) \<and> th_loop (sy_client t c) i = LpReading \<and>
      (\<forall>d j. client_wire t d j = client_wire s d j)"
    using t(2-) u(2-) by simp
  ultimately show ?case by blast
qed simp

section \<open>A subscriber and a publisher\<close>

definition subscribing :: "system_event list" where
  "subscribing = [SyClient 1 (EvCall True), SyClient 1 (EvCallGoes True), SyClient 1 (EvCallGoes True), SyAccept 1 0,
     SyClient 1 (EvConnectOk 0), SyClient 1 (EvConnectGoes 0), SyClient 1 (EvConnectGoes 0), SyClient 1 (EvConnectGoes 0),
     SyTake 1 0, SyRead 1 0, SyClient 1 (EvDeliver 0), SyClient 1 EvPoll]"

definition publishing :: "system_event list" where
  "publishing = [SyClient 0 (EvCall False), SyClient 0 (EvCallGoes True), SyClient 0 (EvCallGoes True), SyAccept 0 0,
     SyClient 0 (EvConnectOk 0), SyClient 0 (EvConnectGoes 0), SyClient 0 EvPoll, SyClient 0 (EvPublish [5]),
     SyClient 0 EvStrand, SyClient 0 EvStrand]"

definition arriving :: "system_event list" where
  "arriving = [SyTake 0 0, SyRead 1 0, SyClient 1 (EvDeliver 0)]"

lemmas system_defs = system_event_def system_client_def system_accept_def system_take_def system_drop_def
  system_read_def with_client_def

lemmas example_defs = system_new_def system_defs threads_run_defs on_accept_def broker_new_def frames_for_def on_receive_make
  on_subscribe_def on_event_def session_send_def registry_regist_def registry_new_def registry_route_def acknowledged_def
  is_ack_def frame_parse_make

lemma system_example:
  "\<exists>s t. run_opt (system_event True) (subscribing @ publishing) (system_new (\<lambda>_. 9)) = Some s \<and>
     sy_session s (0, 0) = Some 1 \<and> sy_session s (1, 0) = Some 0 \<and> bk_alive (sy_broker s) 1 \<and>
     th_loop (sy_client s 1) 0 = LpReading \<and> th_open (sy_client s 1) 0 \<and>
     client_wire s 0 0 = [frame_make 9 DATA [5]] \<and>
     run_opt (system_event True) arriving s = Some t \<and> sy_session t (1, 0) = Some 0 \<and> handed 9 0 (sy_client t 1) = [[5]]"
  by (simp add: subscribing_def publishing_def arriving_def example_defs handed_def)

section \<open>Properties\<close>





end
