(* ===== verification/AsyncUdp.thy ===== *)
theory AsyncUdp
  imports AsyncTcp
begin

text \<open>
  The UDP socket of \<open>asio/AsyncUdp.hpp\<close> and \<open>src/asio/AsyncUdp.cpp\<close>. Asio is represented by the
  completions it delivers; \<open>udp_completes\<close> states what its documentation says about them: an operation
  pending when the socket is closed is aborted, and one that was started on a socket that is not open
  fails with another error. The application behind the callbacks is a state \<open>'st\<close>. All operations are
  \<open>noexcept\<close>: what asio throws inside them ends the process.
\<close>

section \<open>State\<close>

text \<open>
  The receive loop: an operation is outstanding (started while the socket was open, or not), none is
  (never started, or ended by an abort), or the handler's exception has left it.
\<close>

datatype udp_loop = UdpNone | UdpPending bool | UdpLost fault

record udp_socket =
  us_conn :: connection
  us_open :: bool
  us_buffer :: nat
  us_loop :: udp_loop

definition udp_create :: "connection \<Rightarrow> nat \<Rightarrow> udp_socket" where
  "udp_create conn bufferMaxSize =
     \<lparr>us_conn = conn, us_open = False, us_buffer = bufferMaxSize, us_loop = UdpNone\<rparr>"

section \<open>Operations\<close>

text \<open>\<open>open\<close>: the port is taken as a \<open>uint16_t\<close>; opening an open socket, or a port that is taken, throws.\<close>

definition udp_port :: "connection \<Rightarrow> u16" where
  "udp_port conn = ucast (cn_port conn)"

definition udp_open :: "(u16 \<Rightarrow> bool) \<Rightarrow> udp_socket \<Rightarrow> udp_socket res" where
  "udp_open can_bind s =
     (if us_open s \<or> \<not> can_bind (udp_port (us_conn s)) then Inl Terminated else ok (s\<lparr>us_open := True\<rparr>))"

definition udp_close :: "udp_socket \<Rightarrow> udp_socket" where
  "udp_close s = (if us_open s then s\<lparr>us_open := False\<rparr> else s)"

definition udp_destroy :: "udp_socket \<Rightarrow> udp_socket" where
  "udp_destroy s = udp_close s"

definition udp_receive :: "udp_socket \<Rightarrow> udp_socket" where
  "udp_receive s = s\<lparr>us_loop := UdpPending (us_open s)\<rparr>"

text \<open>
  The completion handler of \<open>async_receive_from\<close>: a datagram of the sender, cut to the buffer, an abort or
  another error. The callbacks see and change the socket too (they may close it).
\<close>

datatype udp_outcome = Datagram nat bytes | Aborted_op | Failed nat

definition udp_received ::
  "(bytes \<Rightarrow> nat \<Rightarrow> udp_socket \<times> 'st \<Rightarrow> (udp_socket \<times> 'st) res) \<Rightarrow>
   (nat \<Rightarrow> udp_socket \<times> 'st \<Rightarrow> (udp_socket \<times> 'st) res) option \<Rightarrow>
   udp_outcome \<Rightarrow> udp_socket \<times> 'st \<Rightarrow> udp_socket \<times> 'st" where
  "udp_received onReceive onError out w =
     (let lost = (\<lambda>f. ((fst w)\<lparr>us_loop := UdpLost f\<rparr>, snd w));
          again = (\<lambda>(s, st). (udp_receive s, st))
      in case out of
        Datagram sender bs \<Rightarrow>
          (case onReceive (take (us_buffer (fst w)) bs) sender w of Inl f \<Rightarrow> lost f | Inr w' \<Rightarrow> again w')
      | Aborted_op \<Rightarrow> ((fst w)\<lparr>us_loop := UdpNone\<rparr>, snd w)
      | Failed ec \<Rightarrow>
          (case onError of
             None \<Rightarrow> again w
           | Some f \<Rightarrow> (case f ec w of Inl e \<Rightarrow> lost e | Inr w' \<Rightarrow> again w')))"

text \<open>Which outcome asio may deliver for the outstanding operation.\<close>

definition udp_completes :: "udp_socket \<Rightarrow> udp_outcome \<Rightarrow> bool" where
  "udp_completes s out \<longleftrightarrow>
     (case us_loop s of
        UdpPending True \<Rightarrow> (case out of Aborted_op \<Rightarrow> \<not> us_open s | _ \<Rightarrow> True)
      | UdpPending False \<Rightarrow> (case out of Failed _ \<Rightarrow> True | _ \<Rightarrow> False)
      | _ \<Rightarrow> False)"

text \<open>\<open>send\<close>: an address that is not a literal makes \<open>make_address\<close> throw; then the two callbacks.\<close>

definition udp_send :: "(string \<Rightarrow> bool) \<Rightarrow> connection \<Rightarrow> bytes \<Rightarrow> (u16 \<times> bytes) res" where
  "udp_send is_address dest data =
     (if is_address (cn_address dest) then ok (udp_port dest, data) else Inl Terminated)"

definition udp_sent ::
  "(nat \<Rightarrow> 'st \<Rightarrow> 'st res) option \<Rightarrow> (nat \<Rightarrow> 'st \<Rightarrow> 'st res) option \<Rightarrow> nat + nat \<Rightarrow> 'st \<Rightarrow> 'st res" where
  "udp_sent onSend onError r st =
     (case r of
        Inr n \<Rightarrow> (case onSend of None \<Rightarrow> ok st | Some f \<Rightarrow> f n st)
      | Inl ec \<Rightarrow> (case onError of None \<Rightarrow> ok st | Some f \<Rightarrow> f ec st))"

lemmas udp_defs [op_defs] = udp_create_def udp_open_def udp_close_def udp_receive_def udp_received_def

section \<open>Properties\<close>

text \<open>Callbacks that do not touch the socket.\<close>

definition udp_plain :: "('a \<Rightarrow> 'st \<Rightarrow> 'st) \<Rightarrow> 'a \<Rightarrow> udp_socket \<times> 'st \<Rightarrow> (udp_socket \<times> 'st) res" where
  "udp_plain h x w = ok (fst w, h x (snd w))"

fun udp_effect :: "nat \<Rightarrow> (bytes \<times> nat \<Rightarrow> 'st \<Rightarrow> 'st) \<Rightarrow> (nat \<Rightarrow> 'st \<Rightarrow> 'st) \<Rightarrow> udp_outcome \<Rightarrow> 'st \<Rightarrow> 'st" where
  "udp_effect sz h e (Datagram sender bs) st = h (take sz bs, sender) st"
| "udp_effect sz h e (Failed ec) st = e ec st"
| "udp_effect sz h e Aborted_op st = st"



text \<open>
  Closing the socket in \<open>onReceive\<close> does not stop its loop, it makes it spin: the loop starts the next
  receive on the closed socket, asio can only complete it with an error, and each such completion, whatever
  the error, calls \<open>onError\<close> and starts another one.
\<close>

theorem udp_close_in_callback_spins:
  "let w = udp_received (\<lambda>bs sender (s, st). ok (udp_close s, st)) on_e (Datagram sender bs) (s, st)
   in us_loop (fst w) = UdpPending False \<and>
      run_ops (udp_received on_r (Some (udp_plain (\<lambda>ec n. Suc n)))) (map Failed ecs) (fst w, n) =
        (fst w, n + length ecs) \<and>
      (\<not> udp_completes (fst w) Aborted_op \<and> \<not> udp_completes (fst w) (Datagram sender' bs') \<and>
       udp_completes (fst w) (Failed ec))"
proof -
  let ?w = "udp_received (\<lambda>bs sender (s, st). ok (udp_close s, st)) on_e (Datagram sender bs) (s, st)"
  have w: "us_loop (fst ?w) = UdpPending False" "\<not> us_open (fst ?w)"
    by (simp_all add: udp_received_def udp_receive_def udp_close_def)
  have "run_ops (udp_received on_r (Some (udp_plain (\<lambda>ec n. Suc n)))) (map Failed ecs) (z, n) = (z, n + length ecs)"
    if "us_loop z = UdpPending False" "\<not> us_open z" for z
  proof -
    have "z\<lparr>us_loop := UdpPending False\<rparr> = z" using that(1) by simp
    then show ?thesis using that(2)
      by (induction ecs arbitrary: n) (simp_all add: udp_received_def udp_receive_def udp_plain_def)
  qed
  then show ?thesis using w by (simp add: udp_completes_def Let_def)
qed

text \<open>\<open>open\<close> and \<open>send\<close> end the process where asio throws.\<close>

lemma udp_open_terminates: "\<not> can_bind (udp_port (us_conn s)) \<Longrightarrow> udp_open can_bind s = Inl Terminated"
  by (simp add: udp_open_def)

lemma udp_open_twice: "udp_open can_bind s = ok t \<Longrightarrow> udp_open can_bind t = Inl Terminated"
  by (auto simp: udp_open_def split: if_splits)

end
