(* ===== verification/PosixSocket.thy ===== *)
theory PosixSocket
  imports AsyncTcp
begin

text \<open>
  The blocking socket of \<open>communication/Socket.hpp\<close> and \<open>src/communication/Socket.cpp\<close>, on both
  platforms (\<open>win\<close> is \<open>WIN32\<close>). The system calls are represented by what they return; the record
  \<open>net_os\<close> holds one answer per call. \<open>ds_opened\<close> are the descriptors the process has open on behalf
  of this object. A call returns its result together with the object, since a throwing call also
  leaves the object changed.
\<close>

section \<open>System calls\<close>

text \<open>
  \<open>bind\<close> and \<open>connect\<close> see the port after \<open>htons\<close>'s conversion to 16 bits; \<open>nw_error\<close> is
  \<open>strerror(errno)\<close>. A failing call returns a negative number, as POSIX documents.
\<close>

record net_os =
  nw_wsa :: bool
  nw_socket :: int
  nw_option :: int
  nw_bind :: "u16 \<Rightarrow> int"
  nw_listen :: int
  nw_accept :: int
  nw_pton :: "string \<Rightarrow> int"
  nw_connect :: "string \<Rightarrow> u16 \<Rightarrow> int"
  nw_error :: string

section \<open>DetailSocket\<close>

datatype socket_type = SERVER | CLIENT

record dsocket =
  ds_type :: socket_type
  ds_fd :: int
  ds_conn :: int
  ds_port :: int
  ds_address :: string
  ds_opened :: "int set"

type_synonym 'a socket_call = "dsocket \<Rightarrow> 'a res \<times> dsocket"

definition socket_create :: "socket_type \<Rightarrow> dsocket" where
  "socket_create ty = \<lparr>ds_type = ty, ds_fd = -1, ds_conn = -1, ds_port = -1, ds_address = [], ds_opened = {}\<rparr>"

text \<open>\<open>close\<close> closes \<open>_fd\<close>, whatever it is, and nothing else; both members keep their values.\<close>

definition socket_close :: "dsocket \<Rightarrow> dsocket" where
  "socket_close s = s\<lparr>ds_opened := ds_opened s - {ds_fd s}\<rparr>"

definition prepare :: "bool \<Rightarrow> net_os \<Rightarrow> string \<Rightarrow> int \<Rightarrow> unit socket_call" where
  "prepare win os address port s =
     (let s1 = s\<lparr>ds_address := address, ds_port := port\<rparr>
      in if win \<and> \<not> nw_wsa os then (Inl (Thrown (CommunicationException [])), s1)
         else let fd = nw_socket os;
                  s2 = s1\<lparr>ds_fd := fd, ds_opened := (if fd < 0 then ds_opened s1 else insert fd (ds_opened s1))\<rparr>
              in if fd = 0 then (Inl (Thrown (CommunicationException [])), socket_close s2)
                 else (ok (), s2))"

text \<open>The result of \<open>::read\<close> or \<open>recv\<close>, a signed number, is stored in a \<open>size_t\<close>.\<close>

definition socket_read :: "net_os \<Rightarrow> int \<Rightarrow> dsocket \<Rightarrow> u64 res" where
  "socket_read os n s =
     (let readSize = word_of_int n :: u64
      in if readSize = 0 then Inl (Thrown (CommunicationException (''Socket error:'' @ nw_error os)))
         else ok readSize)"

text \<open>\<open>val.tv_usec = millisecond * 1000\<close>, multiplied in \<open>uint32_t\<close>.\<close>

definition timeout_usec :: "u32 \<Rightarrow> u32" where
  "timeout_usec millisecond = millisecond * 1000"

text \<open>
  The timed read: \<open>ready\<close> is what \<open>FD_ISSET\<close> says after \<open>select\<close>, given the microseconds it may wait.
  \<open>FD_SET\<close> of a descriptor that is negative or not below \<open>FD_SETSIZE\<close> is undefined.
\<close>

definition socket_read_timed ::
  "bool \<Rightarrow> net_os \<Rightarrow> (u32 \<Rightarrow> bool) \<Rightarrow> int \<Rightarrow> u32 \<Rightarrow> dsocket \<Rightarrow> u64 res" where
  "socket_read_timed win os ready n millisecond s =
     (if win then ok 0
      else if ds_conn s < 0 \<or> 1024 \<le> ds_conn s then Inl (UndefinedBehaviour ''FD_SET'')
      else if ready (timeout_usec millisecond) then bind_res (socket_read os n s) (\<lambda>_. ok 0)
      else ok 0)"

text \<open>The overloads for \<open>char*\<close> forward to these.\<close>

definition socket_read_chars :: "net_os \<Rightarrow> int \<Rightarrow> dsocket \<Rightarrow> u64 res" where
  "socket_read_chars os n s = socket_read os n s"

definition socket_read_chars_timed ::
  "bool \<Rightarrow> net_os \<Rightarrow> (u32 \<Rightarrow> bool) \<Rightarrow> int \<Rightarrow> u32 \<Rightarrow> dsocket \<Rightarrow> u64 res" where
  "socket_read_chars_timed win os ready n millisecond s = socket_read_timed win os ready n millisecond s"

definition socket_send :: "net_os \<Rightarrow> int \<Rightarrow> dsocket \<Rightarrow> unit res" where
  "socket_send os n s =
     (if n < 0 then Inl (Thrown (CommunicationException (''Socket error:'' @ nw_error os))) else ok ())"

definition socket_send_chars :: "net_os \<Rightarrow> int \<Rightarrow> dsocket \<Rightarrow> unit res" where
  "socket_send_chars os n s = socket_send os n s"

section \<open>Server and Client\<close>

text \<open>\<open>htons(get_port())\<close> takes a \<open>uint16_t\<close>.\<close>

definition socket_port :: "dsocket \<Rightarrow> u16" where
  "socket_port s = word_of_int (ds_port s)"

definition socket_fails :: "string \<Rightarrow> net_os \<Rightarrow> unit socket_call" where
  "socket_fails what os s = (Inl (Thrown (CommunicationException (what @ nw_error os))), socket_close s)"

definition server_open :: "bool \<Rightarrow> net_os \<Rightarrow> unit socket_call" where
  "server_open win os s =
     (if \<not> win \<and> nw_option os < 0 then socket_fails ''Socket setsockopt error: '' os s
      else if nw_bind os (socket_port s) < 0 then socket_fails ''Server bind error: '' os s
      else if nw_listen os < 0 then socket_fails ''Server listen error: '' os s
      else let conn = nw_accept os;
               s1 = s\<lparr>ds_conn := conn,
                      ds_opened := (if conn < 0 then ds_opened s else insert conn (ds_opened s))\<rparr>
           in if conn < 0 then socket_fails ''Server accept error: '' os s1 else (ok (), s1))"

definition client_open :: "bool \<Rightarrow> net_os \<Rightarrow> unit socket_call" where
  "client_open win os s =
     (if \<not> win \<and> nw_pton os (ds_address s) \<le> 0
      then (Inl (Thrown (CommunicationException (''Client inet_pton error:'' @ nw_error os))), s)
      else if nw_connect os (ds_address s) (socket_port s) < 0
      then socket_fails ''Client connect error:'' os s
      else (ok (), s\<lparr>ds_conn := ds_fd s\<rparr>))"

definition socket_open :: "bool \<Rightarrow> net_os \<Rightarrow> unit socket_call" where
  "socket_open win os s =
     (case ds_type s of SERVER \<Rightarrow> server_open win os s | CLIENT \<Rightarrow> client_open win os s)"

text \<open>The deleter of \<open>__create\<close>'s pointer calls \<open>close\<close>, and does not delete the object.\<close>

definition socket_release :: "dsocket \<Rightarrow> dsocket" where
  "socket_release s = socket_close s"

lemmas socket_defs [op_defs] = socket_create_def socket_close_def prepare_def socket_fails_def
  server_open_def client_open_def socket_open_def socket_release_def

text \<open>Every system call of \<open>open\<close> succeeded.\<close>

definition open_calls_ok :: "bool \<Rightarrow> net_os \<Rightarrow> dsocket \<Rightarrow> bool" where
  "open_calls_ok win os s =
     (case ds_type s of
        SERVER \<Rightarrow> (win \<or> 0 \<le> nw_option os) \<and> 0 \<le> nw_bind os (socket_port s) \<and> 0 \<le> nw_listen os \<and> 0 \<le> nw_accept os
      | CLIENT \<Rightarrow> (win \<or> 0 < nw_pton os (ds_address s)) \<and> 0 \<le> nw_connect os (ds_address s) (socket_port s))"

section \<open>Properties\<close>

text \<open>
  \<open>prepare\<close> and \<open>open\<close> report the success of the system calls after \<open>socket()\<close>: on a fresh socket they
  both return exactly when every later call succeeded, and then data goes over an open descriptor;
  a failed \<open>open\<close> leaves nothing open, except that a client whose address does not parse keeps its
  descriptor.
\<close>

theorem socket_open_outcome:
  assumes "prepare win os address port (socket_create ty) = (ok (), s)"
    and "nw_socket os \<noteq> -1" and "-1 \<le> nw_socket os"
    and "socket_open win os s = (r, t)"
  shows "(r = ok () \<longleftrightarrow> open_calls_ok win os s) \<and>
    (r = ok () \<longrightarrow> ds_conn t \<in> ds_opened t \<and> ds_fd t \<in> ds_opened t) \<and>
    (r \<noteq> ok () \<longrightarrow> ds_opened t =
       (if ty = CLIENT \<and> \<not> win \<and> nw_pton os address \<le> 0 then {nw_socket os} else {}))"
proof -
  have s: "s = \<lparr>ds_type = ty, ds_fd = nw_socket os, ds_conn = -1, ds_port = port, ds_address = address,
      ds_opened = {nw_socket os}\<rparr>"
    using assms(1-3) by (auto simp: prepare_def socket_create_def Let_def split: if_splits)
  show ?thesis
  proof (cases ty)
    case SERVER
    then show ?thesis using assms(4)
      by (auto simp: s socket_open_def server_open_def socket_fails_def socket_close_def open_calls_ok_def
          Let_def socket_port_def split: if_splits)
  next
    case CLIENT
    then show ?thesis using assms(4)
      by (auto simp: s socket_open_def client_open_def socket_fails_def socket_close_def open_calls_ok_def
          socket_port_def split: if_splits)
  qed
qed

definition demo_os :: net_os where
  "demo_os = \<lparr>nw_wsa = True, nw_socket = 3, nw_option = 0, nw_bind = (\<lambda>p. if p = 80 then 0 else -1),
     nw_listen = 0, nw_accept = 4, nw_pton = (\<lambda>a. if a = ''127.0.0.1'' then 1 else 0),
     nw_connect = (\<lambda>_ _. 0), nw_error = ''e''\<rparr>"

definition demo_server :: dsocket where
  "demo_server = \<lparr>ds_type = SERVER, ds_fd = 3, ds_conn = -1, ds_port = 80, ds_address = ''a'', ds_opened = {3}\<rparr>"

theorem socket_open_outcome_witness:
  "fst (socket_open False demo_os demo_server) = ok () \<and>
   ds_conn (snd (socket_open False demo_os demo_server)) \<in> ds_opened (snd (socket_open False demo_os demo_server))"
proof -
  have p: "prepare False demo_os ''a'' 80 (socket_create SERVER) = (ok (), demo_server)"
    by (simp add: prepare_def socket_create_def demo_os_def demo_server_def)
  have ok: "open_calls_ok False demo_os demo_server"
    by (simp add: open_calls_ok_def demo_os_def demo_server_def socket_port_def)
  from socket_open_outcome [OF p _ _ prod.collapse [symmetric]] ok show ?thesis
    by (simp add: demo_os_def)
qed

text \<open>
  What a caller of the blocking socket is told about errors: a read that got data returns its size, a
  closed connection throws, but a read error comes back as the size \<open>2^64 - 1\<close>; the timed read never
  reports a size, even when it took bytes from the connection; a send that wrote only a part of the
  buffer returns normally; and a \<open>socket()\<close> that failed is not noticed by \<open>prepare\<close>.
\<close>

theorem socket_reports:
  assumes "0 < n" "n < 2 ^ 63"
  shows "socket_read os n s = ok (word_of_int n) \<and> uint (word_of_int n :: u64) = n \<and>
    socket_read os 0 s = Inl (Thrown (CommunicationException (''Socket error:'' @ nw_error os))) \<and>
    socket_read os (-1) s = ok (2 ^ 64 - 1) \<and>
    socket_read_timed win os ready n ms s \<in> {ok 0, Inl (UndefinedBehaviour ''FD_SET'')} \<and>
    socket_send os n s = ok () \<and>
    (nw_wsa os \<and> nw_socket os = -1 \<longrightarrow> fst (prepare win os address port s) = ok ())"
proof -
  have u: "uint (word_of_int n :: u64) = n" using assms by (simp add: uint_word_of_int)
  then have nz: "(word_of_int n :: u64) \<noteq> 0" using assms(1) by fastforce
  show ?thesis
    using assms u nz by (auto simp: socket_read_def socket_read_timed_def socket_send_def prepare_def Let_def)
qed

theorem socket_reports_witness:
  "socket_read demo_os 5 demo_server = ok 5 \<and> socket_read demo_os (-1) demo_server = ok (2 ^ 64 - 1)"
  using socket_reports [of 5 demo_os demo_server] by simp

text \<open>
  A server that accepted a connection and is closed, or released, keeps the connection's descriptor open:
  \<open>close\<close> looks at the listening descriptor only.
\<close>

lemma server_close_leaks:
  "ds_type s = SERVER \<Longrightarrow> socket_open win os s = (ok (), t) \<Longrightarrow> ds_conn t \<noteq> ds_fd t \<Longrightarrow>
   ds_conn t \<in> ds_opened (socket_release t)"
  by (auto simp: socket_defs Let_def split: if_splits)

text \<open>A client's connection is its own descriptor, which \<open>close\<close> does close.\<close>

lemma client_close_clean:
  "ds_type s = CLIENT \<Longrightarrow> socket_open win os s = (ok (), t) \<Longrightarrow> ds_opened s = {ds_fd s} \<Longrightarrow>
   ds_opened (socket_release t) = {}"
  by (auto simp: socket_defs split: if_splits)

text \<open>The port is taken modulo \<open>2^16\<close>, the timeout modulo \<open>2^32\<close> microseconds.\<close>

lemma socket_port_wraps: "socket_port (s\<lparr>ds_port := 65536 + 80\<rparr>) = 80"
  by (simp add: socket_port_def)

lemma timeout_wraps: "timeout_usec 4294968 = 704"
  by (simp add: timeout_usec_def)

end
