(* ===== verification/Message.thy ===== *)
theory Message
  imports Errors
begin

text \<open>
  The typed message queue of \<open>communication/Message.hpp\<close> over the System V calls, which are a record of
  functions over the state \<open>'q\<close> of the system's queues and an argument of the operations. Only what the
  header does with their results is modelled.
\<close>

section \<open>System calls\<close>

text \<open>
  \<open>ftok\<close> and \<open>msgget\<close> return -1 on failure. \<open>msgrcv\<close> gives the bytes it copied, as a value, when their
  number is the size of the data type, and nothing on an error or any other size.
\<close>

record ('d, 'q) mq_api =
  mq_ftok :: "string \<Rightarrow> int \<Rightarrow> int"
  mq_get :: "int \<Rightarrow> 'q \<Rightarrow> int \<times> 'q"
  mq_snd :: "int \<Rightarrow> nat \<Rightarrow> 'd \<Rightarrow> 'q \<Rightarrow> bool \<times> 'q"
  mq_rcv :: "int \<Rightarrow> nat \<Rightarrow> 'q \<Rightarrow> 'd option \<times> 'q"
  mq_rmid :: "int \<Rightarrow> 'q \<Rightarrow> bool \<times> 'q"

section \<open>Message\<close>

record message =
  ms_key :: int
  ms_id :: int

text \<open>\<open>__create\<close> does not look at what the two calls return.\<close>

definition message_create :: "('d, 'q) mq_api \<Rightarrow> string \<Rightarrow> int \<Rightarrow> 'q \<Rightarrow> message \<times> 'q" where
  "message_create api filePath projId q =
     (let key = mq_ftok api filePath projId; (mid, q1) = mq_get api key q in (\<lparr>ms_key = key, ms_id = mid\<rparr>, q1))"

text \<open>The public overloads copy or move the data into a \<open>MessageType\<close> with \<open>_type\<close> 1; the private one makes the call.\<close>

record 'd message_type =
  mt_type :: nat
  mt_data :: 'd

definition message_put :: "('d, 'q) mq_api \<Rightarrow> 'd message_type \<Rightarrow> message \<Rightarrow> 'q \<Rightarrow> bool \<times> 'q" where
  "message_put api msg m q = mq_snd api (ms_id m) (mt_type msg) (mt_data msg) q"

definition message_send :: "('d, 'q) mq_api \<Rightarrow> 'd \<Rightarrow> message \<Rightarrow> 'q \<Rightarrow> bool \<times> 'q" where
  "message_send api data m q = message_put api \<lparr>mt_type = 1, mt_data = data\<rparr> m q"

definition message_send_moved :: "('d, 'q) mq_api \<Rightarrow> 'd \<Rightarrow> message \<Rightarrow> 'q \<Rightarrow> bool \<times> 'q" where
  "message_send_moved api data m q = message_put api \<lparr>mt_type = 1, mt_data = data\<rparr> m q"

text \<open>When nothing, or the wrong size, was received, the caller gets \<open>DataType()\<close> (\<open>dflt\<close>).\<close>

definition message_recv :: "('d, 'q) mq_api \<Rightarrow> 'd \<Rightarrow> message \<Rightarrow> 'q \<Rightarrow> 'd \<times> 'q" where
  "message_recv api dflt m q =
     (let (r, q1) = mq_rcv api (ms_id m) 1 q in (case r of Some data \<Rightarrow> data | None \<Rightarrow> dflt, q1))"

definition message_close :: "('d, 'q) mq_api \<Rightarrow> message \<Rightarrow> 'q \<Rightarrow> bool \<times> 'q" where
  "message_close api m q = mq_rmid api (ms_id m) q"

lemmas message_defs [op_defs] = message_create_def message_put_def message_send_def
  message_send_moved_def message_recv_def message_close_def

section \<open>Properties\<close>

fun send_all :: "('d, 'q) mq_api \<Rightarrow> message \<Rightarrow> 'd list \<Rightarrow> 'q \<Rightarrow> 'q option" where
  "send_all api m [] q = Some q"
| "send_all api m (d # ds) q =
     (let (sent, q1) = message_send api d m q in if sent then send_all api m ds q1 else None)"

fun recv_all :: "('d, 'q) mq_api \<Rightarrow> 'd \<Rightarrow> message \<Rightarrow> nat \<Rightarrow> 'q \<Rightarrow> 'd list \<times> 'q" where
  "recv_all api dflt m 0 q = ([], q)"
| "recv_all api dflt m (Suc n) q =
     (let (d, q1) = message_recv api dflt m q; (ds, q2) = recv_all api dflt m n q1 in (d # ds, q2))"

text \<open>
  The documented contract of the system's queue, \<open>pending q\<close> being the messages of type 1 waiting in it:
  a successful \<open>msgsnd\<close> adds its message at the end, \<open>msgrcv\<close> takes the first one.
\<close>

definition fifo_queue :: "('d, 'q) mq_api \<Rightarrow> int \<Rightarrow> ('q \<Rightarrow> 'd list) \<Rightarrow> bool" where
  "fifo_queue api mid pending \<longleftrightarrow>
     (\<forall>d q q'. mq_snd api mid 1 d q = (True, q') \<longrightarrow> pending q' = pending q @ [d]) \<and>
     (\<forall>q d ds. pending q = d # ds \<longrightarrow> (\<exists>q'. mq_rcv api mid 1 q = (Some d, q') \<and> pending q' = ds))"

lemma send_all_pending:
  "fifo_queue api (ms_id m) pending \<Longrightarrow> send_all api m ds q = Some q' \<Longrightarrow> pending q' = pending q @ ds"
  by (induction ds arbitrary: q)
    (auto simp: message_send_def message_put_def fifo_queue_def split: prod.splits if_splits)

lemma recv_all_pending:
  assumes "fifo_queue api (ms_id m) pending" "n \<le> length (pending q)"
  shows "fst (recv_all api dflt m n q) = take n (pending q) \<and>
    pending (snd (recv_all api dflt m n q)) = drop n (pending q)"
  using assms(2)
proof (induction n arbitrary: q)
  case (Suc n)
  then obtain d ds where p: "pending q = d # ds" by (cases "pending q") auto
  with assms(1) obtain q' where q': "mq_rcv api (ms_id m) 1 q = (Some d, q')" "pending q' = ds"
    unfolding fifo_queue_def by blast
  then have "message_recv api dflt m q = (d, q')" by (simp add: message_recv_def)
  then show ?case using Suc.IH [of q'] Suc.prems p q'(2) by (simp add: Let_def split_beta)
qed simp

text \<open>
  What was sent is received, in order, once the sends reported success. A failed receive, though, looks
  like a message that holds the default value.
\<close>

theorem message_fifo:
  assumes "fifo_queue api (ms_id m) pending" "pending q = []" "send_all api m ds q = Some q'"
  shows "fst (recv_all api dflt m (length ds) q') = ds"
  using send_all_pending [OF assms(1,3)] recv_all_pending [OF assms(1), of "length ds" q' dflt] assms(2) by simp

lemma message_failure_hidden:
  "mq_rcv api (ms_id m) 1 q = (None, q1) \<Longrightarrow> mq_rcv api (ms_id m) 1 p = (Some dflt, p1) \<Longrightarrow>
   fst (message_recv api dflt m q) = fst (message_recv api dflt m p)"
  by (simp add: message_recv_def)

text \<open>The contract can hold: a queue that is a list.\<close>

definition list_mq :: "('d, 'd list) mq_api" where
  "list_mq = \<lparr>mq_ftok = (\<lambda>_ _. 1), mq_get = (\<lambda>_ q. (0, q)), mq_snd = (\<lambda>_ _ d q. (True, q @ [d])),
     mq_rcv = (\<lambda>_ _ q. case q of [] \<Rightarrow> (None, []) | d # ds \<Rightarrow> (Some d, ds)), mq_rmid = (\<lambda>_ q. (True, []))\<rparr>"

lemma fifo_list_mq: "fifo_queue list_mq mid (\<lambda>q. q)"
  by (simp add: fifo_queue_def list_mq_def)

theorem message_fifo_witness:
  "fst (recv_all list_mq 0 \<lparr>ms_key = 1, ms_id = 0\<rparr> 3 [4, 5, 6 :: nat]) = [4, 5, 6]"
proof -
  let ?m = "\<lparr>ms_key = 1, ms_id = 0\<rparr>"
  have "send_all list_mq ?m [4, 5, 6 :: nat] [] = Some [4, 5, 6]"
    by (simp add: message_send_def message_put_def list_mq_def)
  from message_fifo [OF fifo_list_mq _ this, of 0] show ?thesis by (simp add: eval_nat_numeral del: recv_all.simps)
qed

end
