(* ===== verification/Uart.thy ===== *)
theory Uart
  imports Errors
begin

unbundle bit_operations_syntax

text \<open>
  The serial port of \<open>communication/serial/Uart.hpp\<close> and \<open>src/communication/serial/Uart.cpp\<close>, both
  platforms. \<open>SerialHandler\<close>, the wrapper around the system calls, is represented by what the calls
  return: a script of read outcomes, consumed from the front, and one flag per call that can fail.
\<close>

section \<open>Baud rates and line ends (Uart.hpp)\<close>

datatype baudrate = B9600 | B19200 | B38400 | B57600 | B115200

definition baudrate_of :: "u32 \<Rightarrow> baudrate" where
  "baudrate_of value =
     (if value = 9600 then B9600 else if value = 19200 then B19200 else if value = 38400 then B38400
      else if value = 57600 then B57600 else if value = 115200 then B115200 else B9600)"

fun baudrate_value :: "baudrate \<Rightarrow> u32" where
  "baudrate_value B9600 = 9600"
| "baudrate_value B19200 = 19200"
| "baudrate_value B38400 = 38400"
| "baudrate_value B57600 = 57600"
| "baudrate_value B115200 = 115200"

text \<open>
  The assignment operators build a new \<open>Baudrate\<close> and return it; the left-hand side keeps its value.
  The result is the pair of the assigned-to object and the value of the expression.
\<close>

definition baudrate_assign :: "u32 \<Rightarrow> baudrate \<Rightarrow> baudrate \<times> baudrate" where
  "baudrate_assign value b = (b, baudrate_of value)"

text \<open>
  \<open>to_speed\<close>: on Windows the \<open>CBR_\<close> constants, which are the rates themselves; on Linux the \<open>B\<close> constants of
  \<open>termios.h\<close>. A \<open>Baudrate\<close> constructed without a value is the first one.
\<close>

definition baudrate_default :: baudrate where
  "baudrate_default = B9600"

fun to_speed :: "bool \<Rightarrow> baudrate \<Rightarrow> u32" where
  "to_speed windows B9600 = (if windows then 9600 else 13)"
| "to_speed windows B19200 = (if windows then 19200 else 14)"
| "to_speed windows B38400 = (if windows then 38400 else 15)"
| "to_speed windows B57600 = (if windows then 57600 else 4097)"
| "to_speed windows B115200 = (if windows then 115200 else 4098)"

datatype escape_sequence = NULL_END | LINE_FEED | CARRIAGE_RETURN

definition NUL :: char where "NUL = CHR 0x00"
definition LF :: char where "LF = CHR 0x0A"
definition CR :: char where "CR = CHR 0x0D"

fun end_of_line :: "escape_sequence \<Rightarrow> string" where
  "end_of_line NULL_END = [NUL]"
| "end_of_line LINE_FEED = [LF]"
| "end_of_line CARRIAGE_RETURN = [CR, LF]"

definition get_default_escape :: "bool \<Rightarrow> escape_sequence" where
  "get_default_escape windows = (if windows then CARRIAGE_RETURN else LINE_FEED)"

definition SERIAL_READ :: u8 where "SERIAL_READ = 1"
definition SERIAL_WRITE :: u8 where "SERIAL_WRITE = 2"

section \<open>Opening and closing\<close>

record uart =
  ua_port :: string
  ua_baudrate :: baudrate
  ua_mode :: u8
  ua_open :: bool

definition uart_create :: "string \<Rightarrow> baudrate \<Rightarrow> u8 \<Rightarrow> uart" where
  "uart_create port b mode = \<lparr>ua_port = port, ua_baudrate = b, ua_mode = mode, ua_open = False\<rparr>"

datatype access = ReadOnly | WriteOnly | ReadWrite

definition linux_access :: "u8 \<Rightarrow> access" where
  "linux_access mode =
     (let r = (mode AND SERIAL_READ = SERIAL_READ); w = (mode AND SERIAL_WRITE = SERIAL_WRITE)
      in if r \<and> \<not> w then ReadOnly else if \<not> r \<and> w then WriteOnly else ReadWrite)"

text \<open>\<open>GENERIC_READ\<close> and \<open>GENERIC_WRITE\<close> as a pair of flags.\<close>

definition windows_access :: "u8 \<Rightarrow> bool \<times> bool" where
  "windows_access mode = (mode AND SERIAL_READ = SERIAL_READ, mode AND SERIAL_WRITE = SERIAL_WRITE)"

definition uart_open_guard :: "bool \<Rightarrow> uart \<Rightarrow> (uart \<times> bool) res \<Rightarrow> (uart \<times> bool) res" where
  "uart_open_guard strict u rest =
     (if ua_open u then (if strict then Inl (AssertionFailure ''Serial double open is not allow'') else ok (u, False))
      else rest)"

definition uart_open_linux :: "bool \<Rightarrow> (string \<Rightarrow> access \<Rightarrow> bool) \<Rightarrow> uart \<Rightarrow> (uart \<times> bool) res" where
  "uart_open_linux strict os_open u =
     uart_open_guard strict u
       (if \<not> os_open (ua_port u) (linux_access (ua_mode u)) then ok (u, ua_open u)
        else ok (u\<lparr>ua_open := True\<rparr>, True))"

text \<open>
  The four calls of the Windows version in order, each with its outcome; the first component of the
  result counts the handles created and not closed.
\<close>

definition uart_open_windows ::
  "bool \<Rightarrow> bool \<Rightarrow> bool \<Rightarrow> bool \<Rightarrow> bool \<Rightarrow> uart \<Rightarrow> nat \<times> (uart \<times> bool) res" where
  "uart_open_windows strict create get_state set_state set_timeouts u =
     (if ua_open u then (0, uart_open_guard strict u (ok (u, False)))
      else if \<not> create then (0, ok (u, ua_open u))
      else if \<not> get_state then (0, ok (u, ua_open u))
      else if \<not> set_state then (0, ok (u, ua_open u))
      else if \<not> set_timeouts then (0, ok (u, ua_open u))
      else (1, ok (u\<lparr>ua_open := True\<rparr>, True)))"

definition uart_close :: "uart \<Rightarrow> uart" where
  "uart_close u = (if ua_open u then u\<lparr>ua_open := False\<rparr> else u)"

text \<open>The destructor, and the test at the head of \<open>read\<close>, \<open>readline\<close> and \<open>write\<close>.\<close>

definition uart_destroy :: "bool \<Rightarrow> uart \<Rightarrow> unit res" where
  "uart_destroy strict u =
     (if strict \<and> ua_open u then Inl (AssertionFailure ''Serial is not closed'') else ok ())"

definition uart_checked :: "bool \<Rightarrow> uart \<Rightarrow> 'a \<Rightarrow> 'a res" where
  "uart_checked strict u x =
     (if strict \<and> \<not> ua_open u then Inl (AssertionFailure ''Serial is not opened'') else ok x)"

definition uart_write :: "bool \<Rightarrow> (string \<Rightarrow> bool) \<Rightarrow> string \<Rightarrow> uart \<Rightarrow> bool res" where
  "uart_write strict os_write buffer u = uart_checked strict u (os_write buffer)"

text \<open>On Linux the result of \<open>::write\<close>, the number of bytes written or -1, is only compared with 0.\<close>

definition wrapper_write :: "int \<Rightarrow> bool" where
  "wrapper_write written = (written > 0)"

definition uart_write_linux :: "bool \<Rightarrow> (string \<Rightarrow> int) \<Rightarrow> string \<Rightarrow> uart \<Rightarrow> bool res" where
  "uart_write_linux strict os_write buffer u = uart_write strict (\<lambda>bs. wrapper_write (os_write bs)) buffer u"

section \<open>Reading\<close>

text \<open>Outcome of a one-byte \<open>ReadFile\<close>: failure, a timeout (success with no byte), a byte.\<close>

datatype read_file = ReadFails | ReadTimeout | ReadByte char

text \<open>
  Windows \<open>read\<close>: the buffer filled so far, and the outcomes left. \<open>None\<close> while the script of outcomes
  has ended and the loop has not.
\<close>

fun read_windows :: "nat \<Rightarrow> string \<Rightarrow> read_file list \<Rightarrow> (string \<times> read_file list) option" where
  "read_windows cap buf [] = None"
| "read_windows cap buf (ReadFails # rs) = Some (buf, rs)"
| "read_windows cap buf (ReadTimeout # rs) = read_windows cap buf rs"
| "read_windows cap buf (ReadByte ch # rs) =
     (if length buf < cap then read_windows cap (buf @ [ch]) rs else Some (buf, rs))"

definition uart_read_windows :: "bool \<Rightarrow> nat \<Rightarrow> read_file list \<Rightarrow> uart \<Rightarrow> (bool \<times> string) option res" where
  "uart_read_windows strict cap script u =
     uart_checked strict u (map_option (\<lambda>(buf, _). (buf \<noteq> [], buf)) (read_windows cap [] script))"

text \<open>Linux \<open>read\<close>: one system call; \<open>None\<close> stands for an error, at most \<open>cap\<close> bytes arrive.\<close>

definition uart_read_linux :: "bool \<Rightarrow> nat \<Rightarrow> string option \<Rightarrow> uart \<Rightarrow> (bool \<times> string) res" where
  "uart_read_linux strict cap outcome u =
     uart_checked strict u (case outcome of None \<Rightarrow> (False, []) | Some s \<Rightarrow> (take cap s \<noteq> [], take cap s))"

section \<open>Reading a line\<close>

text \<open>The body of both loops: \<open>endIdx\<close>, the line, and whether the terminator is complete.\<close>

definition line_char :: "string \<Rightarrow> char \<Rightarrow> nat \<times> string \<Rightarrow> (nat \<times> string) \<times> bool" where
  "line_char eol ch st =
     (let (endIdx, line) = st
      in if endIdx < length eol \<and> ch = eol ! endIdx
         then ((Suc endIdx, line @ [ch]), Suc endIdx = length eol)
         else if 0 < endIdx
         then (let line1 = line @ take endIdx eol
               in if ch = eol ! 0 then ((1, line1), False) else ((0, line1 @ [ch]), False))
         else ((0, line @ [ch]), False))"

fun readline_windows :: "string \<Rightarrow> nat \<times> string \<Rightarrow> read_file list \<Rightarrow> (string \<times> read_file list) option" where
  "readline_windows eol st [] = None"
| "readline_windows eol st (ReadFails # rs) = Some (snd st, rs)"
| "readline_windows eol st (ReadTimeout # rs) = readline_windows eol st rs"
| "readline_windows eol st (ReadByte ch # rs) =
     (let (st', complete) = line_char eol ch st
      in if complete then Some (snd st', rs) else readline_windows eol st' rs)"

text \<open>Linux: a chunk of bytes per call, scanned to the end of the chunk or of the line.\<close>

fun line_chunk :: "string \<Rightarrow> string \<Rightarrow> nat \<times> string \<Rightarrow> (nat \<times> string) \<times> bool" where
  "line_chunk eol [] st = (st, False)"
| "line_chunk eol (ch # cs) st =
     (let (st', complete) = line_char eol ch st in if complete then (st', True) else line_chunk eol cs st')"

fun readline_linux :: "string \<Rightarrow> nat \<times> string \<Rightarrow> string list \<Rightarrow> string \<times> string list" where
  "readline_linux eol st [] = (snd st, [])"
| "readline_linux eol st (chunk # chunks) =
     (if chunk = [] then (snd st, chunks)
      else let (st', complete) = line_chunk eol chunk st
           in if complete then (snd st', chunks) else readline_linux eol st' chunks)"

definition uart_readline_windows ::
  "bool \<Rightarrow> escape_sequence \<Rightarrow> read_file list \<Rightarrow> uart \<Rightarrow> (string \<times> read_file list) option res" where
  "uart_readline_windows strict e script u =
     uart_checked strict u (readline_windows (end_of_line e) (0, []) script)"

definition uart_readline_linux ::
  "bool \<Rightarrow> escape_sequence \<Rightarrow> string list \<Rightarrow> uart \<Rightarrow> (string \<times> string list) res" where
  "uart_readline_linux strict e chunks u =
     uart_checked strict u (readline_linux (end_of_line e) (0, []) chunks)"

section \<open>Lemmas\<close>

lemma line_chunk_append:
  "line_chunk eol (xs @ ys) st =
   (if snd (line_chunk eol xs st) then line_chunk eol xs st else line_chunk eol ys (fst (line_chunk eol xs st)))"
  by (induction xs arbitrary: st) (auto simp: Let_def split: prod.splits)

text \<open>The bytes of a script, without the timeouts.\<close>

fun arrived :: "read_file list \<Rightarrow> string" where
  "arrived [] = []"
| "arrived (ReadByte ch # rs) = ch # arrived rs"
| "arrived (_ # rs) = arrived rs"

lemma readline_windows_chunk:
  "ReadFails \<notin> set script \<Longrightarrow>
   map_option fst (readline_windows eol st (script @ [ReadFails])) = Some (snd (fst (line_chunk eol (arrived script) st)))"
proof (induction script arbitrary: st)
  case (Cons r rs)
  then show ?case by (cases r) (auto simp: Let_def split: prod.splits)
qed simp

lemma readline_linux_chunk:
  "[] \<notin> set chunks \<Longrightarrow>
   fst (readline_linux eol st chunks) = snd (fst (line_chunk eol (concat chunks) st))"
proof (induction chunks arbitrary: st)
  case (Cons c cs)
  then show ?case by (auto simp: line_chunk_append Let_def split: prod.splits)
qed simp

lemma line_chunk_single:
  "line_chunk [e] cs (0, l) =
   (if e \<in> set cs then ((1, l @ takeWhile (\<lambda>c. c \<noteq> e) cs @ [e]), True) else ((0, l @ cs), False))"
  by (induction cs arbitrary: l) (auto simp: line_char_def Let_def)

lemma line_chunk_no_cr:
  "CR \<notin> set cs \<Longrightarrow> line_chunk [CR, LF] cs (0, l) = ((0, l @ cs), False)"
  by (induction cs arbitrary: l) (auto simp: line_char_def Let_def)

lemma CR_LF [simp]: "CR \<noteq> LF" "LF \<noteq> CR"
  by (simp_all add: CR_def LF_def)

lemma line_char_cr [simp]:
  "line_char [CR, LF] CR (0, l) = ((Suc 0, l @ [CR]), False)"
  "line_char [CR, LF] LF (Suc 0, l) = ((Suc (Suc 0), l @ [LF]), True)"
  "CR \<noteq> a \<Longrightarrow> a \<noteq> LF \<Longrightarrow> line_char [CR, LF] a (Suc 0, l) = ((0, l @ [CR, a]), False)"
  by (simp_all add: line_char_def Let_def)

lemma read_windows_fill:
  "length buf + length xs \<le> cap \<Longrightarrow>
   read_windows cap buf (map ReadByte xs @ rs) = read_windows cap (buf @ xs) rs"
  by (induction xs arbitrary: buf) auto

section \<open>Properties\<close>



text \<open>
  C33. \<open>readline\<close> returns the bytes up to and including the first terminator, or all of them when there
  is none, for the one-byte terminators; and for CR LF when no other carriage return comes first.
  A carriage return inside the line is written twice.
\<close>

theorem readline_result:
  assumes "[] \<notin> set chunks"
  shows "(e \<in> {NULL_END, LINE_FEED} \<and> t = hd (end_of_line e) \<longrightarrow>
      fst (readline_linux (end_of_line e) (0, []) chunks) =
        (if t \<in> set (concat chunks) then takeWhile (\<lambda>c. c \<noteq> t) (concat chunks) @ [t] else concat chunks)) \<and>
    (concat chunks = body @ [CR, LF] @ rest \<and> CR \<notin> set body \<longrightarrow>
      fst (readline_linux (end_of_line CARRIAGE_RETURN) (0, []) chunks) = body @ [CR, LF]) \<and>
    (concat chunks = body @ [CR, a] @ body' @ [CR, LF] @ rest \<and> CR \<notin> set body \<and>
      CR \<notin> set (a # body') \<and> a \<noteq> LF \<longrightarrow>
      fst (readline_linux (end_of_line CARRIAGE_RETURN) (0, []) chunks) = body @ [CR, CR, a] @ body' @ [CR, LF])"
proof (intro conjI impI)
  note chunk = readline_linux_chunk [OF assms]
  show "fst (readline_linux (end_of_line e) (0, []) chunks) =
      (if t \<in> set (concat chunks) then takeWhile (\<lambda>c. c \<noteq> t) (concat chunks) @ [t] else concat chunks)"
    if "e \<in> {NULL_END, LINE_FEED} \<and> t = hd (end_of_line e)"
  proof -
    have "end_of_line e = [t]" using that by (cases e) auto
    then show ?thesis using chunk [of "[t]" "(0, [])"] line_chunk_single [of t "concat chunks" "[]"]
      by (auto split: if_splits)
  qed
  show "fst (readline_linux (end_of_line CARRIAGE_RETURN) (0, []) chunks) = body @ [CR, LF]"
    if a: "concat chunks = body @ [CR, LF] @ rest \<and> CR \<notin> set body"
    unfolding chunk a [THEN conjunct1] using line_chunk_no_cr [of body] a by (simp add: line_chunk_append)
  show "fst (readline_linux (end_of_line CARRIAGE_RETURN) (0, []) chunks) = body @ [CR, CR, a] @ body' @ [CR, LF]"
    if a: "concat chunks = body @ [CR, a] @ body' @ [CR, LF] @ rest \<and> CR \<notin> set body \<and>
      CR \<notin> set (a # body') \<and> a \<noteq> LF"
    unfolding chunk a [THEN conjunct1]
    using line_chunk_no_cr [of body "[]"] line_chunk_no_cr [of body'] a
    by (simp add: line_chunk_append)
qed

theorem readline_result_witness:
  "fst (readline_linux (end_of_line LINE_FEED) (0, []) [[CR, CR], [LF, CR]]) = [CR, CR, LF] \<and>
   fst (readline_linux (end_of_line CARRIAGE_RETURN) (0, []) [[NUL, CR], [NUL, CR, LF]]) = [NUL, CR, CR, NUL, CR, LF]"
  using readline_result [of "[[CR, CR], [LF, CR]]" LINE_FEED LF]
    readline_result [of "[[NUL, CR], [NUL, CR, LF]]" LINE_FEED LF "[NUL]" "[]" NUL "[]"]
  by (simp add: NUL_def CR_def LF_def)

text \<open>
  What is lost: on Linux the bytes of a chunk after the end of the line are gone, the next call
  starts with the next chunk; on Windows \<open>read\<close> takes the byte that no longer fits from the port and
  drops it.
\<close>

theorem uart_lost_bytes:
  assumes "LF \<notin> set body" "length xs = cap"
  shows "readline_linux (end_of_line LINE_FEED) (0, []) ((body @ [LF] @ rest) # chunks) = (body @ [LF], chunks) \<and>
    read_windows cap [] (map ReadByte (xs @ [c]) @ script) = Some (xs, script)"
proof -
  have "takeWhile (\<lambda>c. c \<noteq> LF) (body @ LF # rest) = body"
    using assms(1) by (induction body) auto
  then have "line_chunk [LF] (body @ [LF] @ rest) (0, []) = ((1, body @ [LF]), True)"
    by (subst line_chunk_single) simp
  then show ?thesis
    using read_windows_fill [of "[]" xs cap "ReadByte c # script"] assms(2) by simp
qed

theorem uart_lost_bytes_witness:
  "readline_linux (end_of_line LINE_FEED) (0, []) [[CR, LF, NUL, LF]] = ([CR, LF], []) \<and>
   read_windows 1 [] [ReadByte CR, ReadByte NUL, ReadFails] = Some ([CR], [ReadFails])"
  using uart_lost_bytes [of "[CR]" "[CR]" 1 "[NUL, LF]" "[]" NUL "[ReadFails]"] by simp

text \<open>An open that fails on Windows leaves no handle behind; one that succeeds leaves exactly one.\<close>

lemma windows_open_handles:
  "\<not> ua_open u \<Longrightarrow> uart_open_windows strict a b c d u = (n, ok (v, r)) \<Longrightarrow>
   n = (if r then 1 else 0) \<and> ua_open v = r"
  by (auto simp: uart_open_windows_def split: if_splits)

lemma baudrate_roundtrip: "baudrate_of (baudrate_value b) = b"
  by (cases b) (simp_all add: baudrate_of_def)

text \<open>No two rates are set up alike, and on Windows the rate asked for is the rate set.\<close>

lemma to_speed_inj: "to_speed windows b = to_speed windows c \<Longrightarrow> b = c"
  by (cases b; cases c; cases windows) simp_all

lemma to_speed_windows: "to_speed True b = baudrate_value b"
  by (cases b) simp_all

end
