(* ===== verification/Ch341.thy ===== *)
theory Ch341
  imports Errors
begin

text \<open>
  The I2C driver over the CH341 bridge, \<open>extension/ch341/CH341.hpp\<close> and \<open>src/CH341.cpp\<close>. The vendor's
  library is not part of the repository's own code: its five functions are a record of functions over a
  device state \<open>'d\<close>, an argument of the operations. \<open>DeviceInfo\<close> comes from a header that is not in the
  repository; only its type tag is used.
\<close>

section \<open>The device library\<close>

record 'd ch341_api =
  api_OpenDevice :: "u8 \<Rightarrow> 'd \<Rightarrow> bool \<times> 'd"
  api_CloseDevice :: "u8 \<Rightarrow> 'd \<Rightarrow> 'd"
  api_SetStream :: "u8 \<Rightarrow> u32 \<Rightarrow> 'd \<Rightarrow> bool \<times> 'd"
  api_WriteData :: "u8 \<Rightarrow> bytes \<Rightarrow> 'd \<Rightarrow> bool \<times> 'd"
  api_WriteRead :: "u8 \<Rightarrow> bytes \<Rightarrow> 'd \<Rightarrow> bytes option \<times> 'd"
  api_StreamI2C :: "u8 \<Rightarrow> bytes \<Rightarrow> nat \<Rightarrow> 'd \<Rightarrow> bytes option \<times> 'd"

text \<open>Command bytes of \<open>CH341DLL.H\<close>.\<close>

definition CMD_I2C_STREAM :: u8 where "CMD_I2C_STREAM = 0xAA"
definition CMD_I2C_STM_STA :: u8 where "CMD_I2C_STM_STA = 0x74"
definition CMD_I2C_STM_STO :: u8 where "CMD_I2C_STM_STO = 0x75"
definition CMD_I2C_STM_OUT :: u8 where "CMD_I2C_STM_OUT = 0x80"
definition CMD_I2C_STM_END :: u8 where "CMD_I2C_STM_END = 0x00"

section \<open>The driver\<close>

datatype i2c_speed = Low | Standard | Fast | High

fun speed_value :: "i2c_speed \<Rightarrow> u32" where
  "speed_value Low = 0"
| "speed_value Standard = 1"
| "speed_value Fast = 2"
| "speed_value High = 3"

text \<open>Speeds are ordered as the numbers they stand for.\<close>

instantiation i2c_speed :: linorder
begin

definition less_eq_i2c_speed :: "i2c_speed \<Rightarrow> i2c_speed \<Rightarrow> bool" where
  "less_eq_i2c_speed a b \<longleftrightarrow> speed_value a \<le> speed_value b"

definition less_i2c_speed :: "i2c_speed \<Rightarrow> i2c_speed \<Rightarrow> bool" where
  "less_i2c_speed a b \<longleftrightarrow> speed_value a < speed_value b"

instance
proof
  fix a b :: i2c_speed
  show "a \<le> b \<Longrightarrow> b \<le> a \<Longrightarrow> a = b" by (cases a; cases b; simp add: less_eq_i2c_speed_def word_le_nat_alt)
qed (auto simp: less_eq_i2c_speed_def less_i2c_speed_def)

end

record i2c_info =
  ii_speed :: i2c_speed
  ii_devIndex :: u8
  ii_devAddr :: u8
  ii_regAddr :: u8

text \<open>\<open>_handle\<close> is \<open>None\<close> for \<open>INVALID_HANDLE_VALUE\<close>; before \<open>open\<close> it is uninitialised (\<open>handle0\<close>).\<close>

record i2c =
  ic_isOpen :: bool
  ic_handle :: bool
  ic_info :: i2c_info

definition i2c_new :: "bool \<Rightarrow> bool \<Rightarrow> i2c_info \<Rightarrow> i2c res" where
  "i2c_new strict handle0 info =
     (if 0x80 \<le> ii_devAddr info \<and> strict then Inl (AssertionFailure ''Invalid I2C address'')
      else ok \<lparr>ic_isOpen = False, ic_handle = handle0, ic_info = info\<rparr>)"

datatype device_type = CH341_I2C | CH341_SPI | OtherDevice

definition ch341_create :: "bool \<Rightarrow> bool \<Rightarrow> device_type \<Rightarrow> i2c_info \<Rightarrow> (i2c option) res" where
  "ch341_create strict handle0 ty info =
     (case ty of
        CH341_I2C \<Rightarrow> bind_res (i2c_new strict handle0 info) (\<lambda>i. ok (Some i))
      | CH341_SPI \<Rightarrow> ok None
      | OtherDevice \<Rightarrow> if strict then Inl (AssertionFailure ''Invalid DeviceType'') else ok None)"

definition i2c_close :: "'d ch341_api \<Rightarrow> i2c \<times> 'd \<Rightarrow> i2c \<times> 'd" where
  "i2c_close api = (\<lambda>(i, d).
     if \<not> ic_handle i then (i, d)
     else (i\<lparr>ic_handle := False\<rparr>, api_CloseDevice api (ii_devIndex (ic_info i)) d))"

definition speed_mode :: "i2c_speed \<Rightarrow> u32" where
  "speed_mode speed = or (speed_value speed) 3"

definition i2c_open :: "'d ch341_api \<Rightarrow> i2c \<times> 'd \<Rightarrow> bool \<times> i2c \<times> 'd" where
  "i2c_open api = (\<lambda>(i, d).
     let idx = ii_devIndex (ic_info i); (opened, d1) = api_OpenDevice api idx d; i1 = i\<lparr>ic_handle := opened\<rparr>
     in if \<not> opened then (False, i1, d1)
        else let (streams, d2) = api_SetStream api idx (speed_mode (ii_speed (ic_info i))) d1
             in if streams then (True, i1, d2) else (False, i2c_close api (i1, d2)))"

definition issue_start :: "'d ch341_api \<Rightarrow> i2c \<Rightarrow> 'd \<Rightarrow> bool \<times> 'd" where
  "issue_start api i = api_WriteData api (ii_devIndex (ic_info i)) [CMD_I2C_STREAM, CMD_I2C_STM_STA, CMD_I2C_STM_END]"

definition issue_stop :: "'d ch341_api \<Rightarrow> i2c \<Rightarrow> 'd \<Rightarrow> bool \<times> 'd" where
  "issue_stop api i = api_WriteData api (ii_devIndex (ic_info i)) [CMD_I2C_STREAM, CMD_I2C_STM_STO, CMD_I2C_STM_END]"

text \<open>Bit 7 of the last byte that came back is the acknowledge bit; 0 is an acknowledge.\<close>

definition check_ack :: "'d ch341_api \<Rightarrow> i2c \<Rightarrow> u8 \<Rightarrow> 'd \<Rightarrow> bool \<times> 'd" where
  "check_ack api i outByte d =
     (let (answer, d1) = api_WriteRead api (ii_devIndex (ic_info i))
            [CMD_I2C_STREAM, CMD_I2C_STM_OUT, outByte, CMD_I2C_STM_END] d
      in case answer of
           None \<Rightarrow> (False, d1)
         | Some buffer \<Rightarrow> (buffer \<noteq> [] \<and> and (last buffer) 0x80 = 0, d1))"

definition check_dev :: "'d ch341_api \<Rightarrow> i2c \<Rightarrow> 'd \<Rightarrow> bool \<times> 'd" where
  "check_dev api i d =
     (let (started, d1) = issue_start api i d
      in if \<not> started then (False, d1)
         else let (acked, d2) = check_ack api i (push_bit 1 (ii_devAddr (ic_info i))) d1
              in (acked, snd (issue_stop api i d2)))"

definition i2c_read :: "bool \<Rightarrow> 'd ch341_api \<Rightarrow> nat \<Rightarrow> i2c \<Rightarrow> 'd \<Rightarrow> (bytes option \<times> 'd) res" where
  "i2c_read strict api n i d =
     (if strict \<and> \<not> ic_isOpen i then Inl (AssertionFailure ''Not opened'')
      else let (present, d1) = check_dev api i d
           in ok (if \<not> present then (None, d1)
                  else api_StreamI2C api (ii_devIndex (ic_info i))
                    [push_bit 1 (ii_devAddr (ic_info i)), ii_regAddr (ic_info i)] n d1))"

definition i2c_write :: "bytes \<Rightarrow> i2c \<Rightarrow> bool" where
  "i2c_write buffer i = False"

lemmas ch341_defs [op_defs] = i2c_close_def i2c_open_def issue_start_def issue_stop_def check_ack_def
  check_dev_def i2c_read_def

section \<open>Properties\<close>

text \<open>
  A device that records the bytes written to it: it answers a start or stop with success if \<open>wr\<close>, an
  address byte with \<open>ack\<close>, and a stream with \<open>data\<close>.
\<close>

definition bus :: "bool \<Rightarrow> bytes option \<Rightarrow> bytes option \<Rightarrow> bytes list ch341_api" where
  "bus wr ack data = \<lparr>api_OpenDevice = (\<lambda>_ d. (True, d)), api_CloseDevice = (\<lambda>_ d. d),
     api_SetStream = (\<lambda>_ _ d. (True, d)), api_WriteData = (\<lambda>_ bs d. (wr, d @ [bs])),
     api_WriteRead = (\<lambda>_ bs d. (ack, d @ [bs])), api_StreamI2C = (\<lambda>_ bs n d. (data, d @ [bs]))\<rparr>"

text \<open>
  Reading a register over I2C, on a device that logs what it is sent: the driver probes the address
  (start, address byte, stop) and transfers only if the device acknowledged; the stop condition is sent
  whenever the start was, also when there was no acknowledge; the addresses are the 7-bit device
  address shifted and the register address. In strict mode every read fails its assertion, open or not.
\<close>

theorem i2c_read_protocol:
  assumes "\<not> ic_isOpen i" "ic_info i = info"
  shows "i2c_read False (bus wr ack data) n i [] =
     (let start = [CMD_I2C_STREAM, CMD_I2C_STM_STA, CMD_I2C_STM_END];
          probe = [CMD_I2C_STREAM, CMD_I2C_STM_OUT, push_bit 1 (ii_devAddr info), CMD_I2C_STM_END];
          stop = [CMD_I2C_STREAM, CMD_I2C_STM_STO, CMD_I2C_STM_END];
          transfer = [push_bit 1 (ii_devAddr info), ii_regAddr info]
      in if \<not> wr then ok (None, [start])
         else if \<exists>bs. ack = Some bs \<and> bs \<noteq> [] \<and> \<not> bit (last bs) 7 then ok (data, [start, probe, stop, transfer])
         else ok (None, [start, probe, stop])) \<and>
   (\<forall>opened j d. i2c_open api (i, d0) = (opened, j, d) \<longrightarrow>
      i2c_read True api n j d = Inl (AssertionFailure ''Not opened''))"
proof -
  have ack_bit: "and w 0x80 = 0 \<longleftrightarrow> \<not> bit w 7" for w :: u8
    using and_exp_eq_0_iff_not_bit [of w 7] by simp
  have "i2c_read True api n j d = Inl (AssertionFailure ''Not opened'')" if "i2c_open api (i, d0) = (opened, j, d)"
    for opened j d
  proof -
    have "\<not> ic_isOpen j" using that assms(1)
      by (auto simp: i2c_open_def i2c_close_def Let_def split: prod.splits if_splits)
    then show ?thesis by (simp add: i2c_read_def)
  qed
  then show ?thesis
    by (cases ack) (auto simp: i2c_read_def check_dev_def check_ack_def issue_start_def issue_stop_def bus_def
        assms(2) ack_bit Let_def)
qed

text \<open>Every speed selects the fastest mode, so slower ones are exceeded.\<close>

lemma speed_always_high: "speed_mode speed = speed_value High \<and> speed \<le> High"
  by (cases speed) (simp_all add: speed_mode_def less_eq_i2c_speed_def word_le_nat_alt)

definition demo_i2c :: i2c where
  "demo_i2c = \<lparr>ic_isOpen = False, ic_handle = True,
     ic_info = \<lparr>ii_speed = Standard, ii_devIndex = 0, ii_devAddr = 0x68, ii_regAddr = 0x3B\<rparr>\<rparr>"

theorem i2c_read_protocol_witness:
  "i2c_read False (bus True (Some [0x7F]) (Some [7])) 1 demo_i2c [] =
     ok (Some [7], [[0xAA, 0x74, 0], [0xAA, 0x80, 0xD0, 0], [0xAA, 0x75, 0], [0xD0, 0x3B]])"
  using i2c_read_protocol [where i = demo_i2c and info = "ic_info demo_i2c" and wr = True and ack = "Some [0x7F]"
      and data = "Some [7]" and n = 1, THEN conjunct1]
  by (simp add: demo_i2c_def CMD_I2C_STREAM_def CMD_I2C_STM_STA_def CMD_I2C_STM_OUT_def CMD_I2C_STM_END_def
      CMD_I2C_STM_STO_def Let_def)

end
