(* ===== verification/PyImu.thy ===== *)
theory PyImu
  imports Errors
begin

text \<open>
  The Python binding, \<open>python/Binding.cpp\<close>: \<open>PY_IMU\<close> hands out \<open>uint8_t\<close> subscription numbers. The serial
  port and the IMU behind it are not in the repository; the IMU is represented by the list of observers
  subscribed to it, the serial port by the outcome of its \<open>open\<close>. Observers are numbered in the order of
  their creation.
\<close>

section \<open>PY_IMU\<close>

record py_imu =
  py_serial :: bool
  py_imu :: bool
  py_observers :: "u8 \<rightharpoonup> nat"
  py_sequence :: u8
  py_created :: nat
  py_subscribed :: "nat list"

definition imu_new :: py_imu where
  "imu_new = \<lparr>py_serial = False, py_imu = False, py_observers = Map.empty, py_sequence = 0, py_created = 0,
     py_subscribed = []\<rparr>"

definition imu_initialize :: "bool \<Rightarrow> py_imu \<Rightarrow> bool \<times> py_imu" where
  "imu_initialize opens p =
     (let p1 = p\<lparr>py_serial := True\<rparr>
      in if \<not> opens then (False, p1) else (True, p1\<lparr>py_imu := True\<rparr>))"

text \<open>\<open>finalize\<close>, \<open>subscribe\<close> and \<open>unsubscribe\<close> dereference \<open>_imu\<close> without a test.\<close>

definition imu_finalize :: "py_imu \<Rightarrow> py_imu res" where
  "imu_finalize p = (if \<not> py_imu p then Inl (UndefinedBehaviour ''_imu is null'') else ok p)"

definition imu_subscribe :: "py_imu \<Rightarrow> (u8 \<times> py_imu) res" where
  "imu_subscribe p =
     (if \<not> py_imu p then Inl (UndefinedBehaviour ''_imu is null'')
      else let n = py_sequence p + 1; obs = py_created p
           in ok (n, p\<lparr>py_sequence := n, py_created := Suc obs, py_observers := (py_observers p)(n \<mapsto> obs),
                       py_subscribed := py_subscribed p @ [obs]\<rparr>))"

definition imu_unsubscribe :: "u8 \<Rightarrow> py_imu \<Rightarrow> py_imu res" where
  "imu_unsubscribe sequence p =
     (case py_observers p sequence of
        None \<Rightarrow> ok p
      | Some obs \<Rightarrow>
          if \<not> py_imu p then Inl (UndefinedBehaviour ''_imu is null'')
          else ok (p\<lparr>py_subscribed := filter (\<lambda>o'. o' \<noteq> obs) (py_subscribed p),
                     py_observers := (py_observers p)(sequence := None)\<rparr>))"

datatype imu_call = Subscribe | Unsubscribe u8

fun imu_step :: "imu_call \<Rightarrow> py_imu \<Rightarrow> py_imu res" where
  "imu_step Subscribe p = bind_res (imu_subscribe p) (\<lambda>(n, q). ok q)"
| "imu_step (Unsubscribe n) p = imu_unsubscribe n p"

definition imu_start :: py_imu where
  "imu_start = snd (imu_initialize True imu_new)"

lemmas imu_defs [op_defs] = imu_new_def imu_initialize_def imu_subscribe_def imu_unsubscribe_def imu_start_def

section \<open>Invariant\<close>

text \<open>While no number has been given out twice, number \<open>k + 1\<close> belongs to observer \<open>k\<close>.\<close>

definition imu_inv :: "py_imu \<Rightarrow> bool" where
  "imu_inv p \<longleftrightarrow> py_imu p \<and> py_sequence p = of_nat (py_created p) \<and> distinct (py_subscribed p) \<and>
     (\<forall>obs\<in>set (py_subscribed p). obs < py_created p)"

definition imu_exact :: "py_imu \<Rightarrow> bool" where
  "imu_exact p \<longleftrightarrow> (\<forall>n obs. py_observers p n = Some obs \<longleftrightarrow> obs \<in> set (py_subscribed p) \<and> n = of_nat (Suc obs))"

lemma imu_step_inv:
  assumes "imu_inv p" "imu_step c p = ok q"
  shows "imu_inv q \<and> py_created q = py_created p + (if c = Subscribe then 1 else 0)"
  using assms by (cases c) (auto simp: imu_subscribe_def imu_unsubscribe_def imu_inv_def Let_def add.commute less_SucI
      split: if_splits option.splits)

lemma of_nat_u8_inj:
  assumes "i < 256" "j < 256" "(of_nat i :: u8) = of_nat j"
  shows "i = j"
proof -
  have "unat (of_nat i :: u8) = i" "unat (of_nat j :: u8) = j"
    by (rule unat_of_nat_small, use assms(1,2) in simp)+
  then show ?thesis using assms(3) by metis
qed

lemma imu_start_inv: "imu_inv imu_start" "imu_exact imu_start" "py_created imu_start = 0"
  by (simp_all add: imu_defs imu_inv_def imu_exact_def Let_def)

lemma imu_step_exact:
  assumes inv: "imu_inv p" and ex: "imu_exact p" and step: "imu_step c p = ok q" and few: "py_created q < 256"
  shows "imu_exact q"
proof (cases c)
  case Subscribe
  then have q: "q = p\<lparr>py_sequence := of_nat (Suc (py_created p)), py_created := Suc (py_created p),
      py_observers := (py_observers p)(of_nat (Suc (py_created p)) \<mapsto> py_created p),
      py_subscribed := py_subscribed p @ [py_created p]\<rparr>"
    using step inv by (auto simp: imu_subscribe_def imu_inv_def Let_def add.commute split: if_splits)
  have new: "(of_nat (Suc obs) :: u8) \<noteq> of_nat (Suc (py_created p))" if "obs < py_created p" for obs
    using of_nat_u8_inj [of "Suc obs" "Suc (py_created p)"] that few by (auto simp: q simp del: of_nat_Suc)
  show ?thesis
    unfolding imu_exact_def
  proof (intro allI)
    fix n obs
    show "py_observers q n = Some obs \<longleftrightarrow> obs \<in> set (py_subscribed q) \<and> n = of_nat (Suc obs)"
      using ex inv new [of obs] unfolding imu_exact_def imu_inv_def
      by (cases "n = of_nat (Suc (py_created p))") (auto simp: q simp del: of_nat_Suc)
  qed
next
  case (Unsubscribe n)
  show ?thesis
  proof (cases "py_observers p n")
    case None
    then show ?thesis using step ex Unsubscribe by (simp add: imu_unsubscribe_def)
  next
    case (Some obs)
    have q: "q = p\<lparr>py_subscribed := filter (\<lambda>o'. o' \<noteq> obs) (py_subscribed p),
        py_observers := (py_observers p)(n := None)\<rparr>"
      using step Some Unsubscribe inv by (simp add: imu_unsubscribe_def imu_inv_def)
    have obs: "obs \<in> set (py_subscribed p)" "n = of_nat (Suc obs)" using ex Some by (auto simp: imu_exact_def)
    have same: "o' = obs" if "o' \<in> set (py_subscribed p)" "(of_nat (Suc o') :: u8) = n" for o'
      using ex Some that unfolding imu_exact_def by (metis option.inject)
    show ?thesis
      unfolding imu_exact_def
    proof (intro allI)
      fix m o'
      show "py_observers q m = Some o' \<longleftrightarrow> o' \<in> set (py_subscribed q) \<and> m = of_nat (Suc o')"
        using ex obs same [of o'] unfolding imu_exact_def by (auto simp: q simp del: of_nat_Suc)
    qed
  qed
qed

lemma imu_run_inv:
  "imu_inv p \<Longrightarrow> run_res imu_step cs p = ok q \<Longrightarrow>
   imu_inv q \<and> py_created q = py_created p + count_list cs Subscribe \<and> (imu_exact p \<and> py_created q < 256 \<longrightarrow> imu_exact q)"
proof (induction cs arbitrary: p)
  case (Cons c cs)
  then obtain u where u: "imu_step c p = ok u" "run_res imu_step cs u = ok q" by (auto simp: bind_res_ok_iff)
  from imu_step_inv [OF Cons.prems(1) u(1)] Cons.IH [OF _ u(2)] imu_step_exact [OF Cons.prems(1) _ u(1)]
  show ?case by auto
qed simp

text \<open>Observer 0, once its number has been given to someone else.\<close>

definition first_number :: "py_imu \<Rightarrow> bool" where
  "first_number p \<longleftrightarrow> (\<forall>n. py_observers p n = Some 0 \<longrightarrow> n = 1)"

definition stranded :: "py_imu \<Rightarrow> bool" where
  "stranded p \<longleftrightarrow> 0 \<in> set (py_subscribed p) \<and> (\<forall>n. py_observers p n \<noteq> Some 0) \<and> 0 < py_created p"

lemma imu_step_first:
  "imu_inv p \<Longrightarrow> first_number p \<Longrightarrow> imu_step c p = ok q \<Longrightarrow> first_number q"
  by (cases c) (auto simp: imu_subscribe_def imu_unsubscribe_def first_number_def imu_inv_def Let_def
      split: if_splits option.splits)

lemma imu_step_stranded:
  "stranded p \<Longrightarrow> imu_step c p = ok q \<Longrightarrow> stranded q"
  by (cases c) (auto simp: imu_subscribe_def imu_unsubscribe_def stranded_def Let_def intro!: gr0I
      split: if_splits option.splits)

lemma imu_run_keeps:
  "stranded p \<Longrightarrow> run_res imu_step cs p = ok q \<Longrightarrow> stranded q"
  "imu_inv p \<Longrightarrow> first_number p \<Longrightarrow> run_res imu_step cs p = ok q \<Longrightarrow> first_number q"
proof (induction cs arbitrary: p)
  case (Cons c cs)
  { case 1
    then obtain u where u: "imu_step c p = ok u" "run_res imu_step cs u = ok q" by (auto simp: bind_res_ok_iff)
    from Cons.IH(1) [OF imu_step_stranded [OF 1(1) u(1)] u(2)] show ?case . }
  { case 2
    then obtain u where u: "imu_step c p = ok u" "run_res imu_step cs u = ok q" by (auto simp: bind_res_ok_iff)
    from Cons.IH(2) [OF _ imu_step_first [OF 2(1,2) u(1)] u(2)] imu_step_inv [OF 2(1) u(1)] show ?case by blast }
qed simp_all

lemma count_list_replicate: "count_list (replicate n x) x = n"
  by (induction n) auto

lemma subscribes_only:
  "imu_inv p \<Longrightarrow> run_res imu_step (replicate n Subscribe) p = ok q \<Longrightarrow>
   set (py_subscribed p) \<subseteq> set (py_subscribed q)"
proof (induction n arbitrary: p)
  case (Suc n)
  then obtain u where u: "imu_step Subscribe p = ok u" "run_res imu_step (replicate n Subscribe) u = ok q"
    by (auto simp: bind_res_ok_iff)
  have "set (py_subscribed p) \<subseteq> set (py_subscribed u)"
    using u(1) by (auto simp: imu_subscribe_def Let_def split: if_splits)
  then show ?case using Suc.IH [OF _ u(2)] imu_step_inv [OF Suc.prems(1) u(1)] by blast
qed simp

section \<open>Properties\<close>

text \<open>
  Subscription numbers work for the first 255 subscriptions and not beyond: up to there the number
  of each observer that is still subscribed removes that observer and no other; but when 257 have
  subscribed, the first observer's number belongs to the last one, and no sequence of later calls
  unsubscribes it.
\<close>

theorem imu_numbers_wrap:
  "(run_res imu_step cs imu_start = ok p \<and> count_list cs Subscribe < 256 \<and> obs \<in> set (py_subscribed p) \<longrightarrow>
     (\<exists>q. imu_unsubscribe (of_nat (Suc obs)) p = ok q \<and>
       py_subscribed q = filter (\<lambda>o'. o' \<noteq> obs) (py_subscribed p))) \<and>
   (run_res imu_step (replicate 257 Subscribe @ cs) imu_start = ok p \<longrightarrow> 0 \<in> set (py_subscribed p))"
proof (intro conjI impI)
  assume a: "run_res imu_step cs imu_start = ok p \<and> count_list cs Subscribe < 256 \<and> obs \<in> set (py_subscribed p)"
  with imu_run_inv [OF imu_start_inv(1), of cs p] imu_start_inv
  have "imu_inv p" "imu_exact p" by auto
  then have "py_observers p (of_nat (Suc obs)) = Some obs" "py_imu p"
    using a by (auto simp: imu_exact_def imu_inv_def)
  then show "\<exists>q. imu_unsubscribe (of_nat (Suc obs)) p = ok q \<and>
      py_subscribed q = filter (\<lambda>o'. o' \<noteq> obs) (py_subscribed p)"
    by (simp add: imu_unsubscribe_def del: of_nat_Suc)
next
  assume r: "run_res imu_step (replicate 257 Subscribe @ cs) imu_start = ok p"
  have split: "replicate 257 Subscribe = replicate 1 Subscribe @ replicate 255 Subscribe @ replicate 1 Subscribe"
    by (simp only: replicate_add [symmetric]) simp
  obtain p1 p2 p3 where p1: "imu_step Subscribe imu_start = ok p1"
    and p2: "run_res imu_step (replicate 255 Subscribe) p1 = ok p2"
    and p3: "imu_step Subscribe p2 = ok p3" and p: "run_res imu_step cs p3 = ok p"
    using r unfolding split run_res_append by (auto simp: run_res_append bind_res_ok_iff)
  have i1: "imu_inv p1" "py_created p1 = 1" "0 \<in> set (py_subscribed p1)" "first_number p1"
    using imu_step_inv [OF imu_start_inv(1) p1] p1 imu_start_inv(3)
    by (auto simp: imu_defs Let_def first_number_def split: if_splits)
  have i2: "imu_inv p2" "py_created p2 = 256" "first_number p2" "0 \<in> set (py_subscribed p2)"
    using imu_run_inv [OF i1(1) p2] imu_run_keeps(2) [OF i1(1,4) p2] subscribes_only [OF i1(1) p2] i1(2,3)
    by (auto simp: count_list_replicate)
  have "stranded p3" using p3 i2
    by (auto simp: imu_subscribe_def stranded_def first_number_def imu_inv_def Let_def split: if_splits)
  then show "0 \<in> set (py_subscribed p)" using imu_run_keeps(1) [OF _ p] by (simp add: stranded_def)
qed

theorem imu_numbers_wrap_witness:
  "\<exists>p q. run_res imu_step [Subscribe, Subscribe] imu_start = ok p \<and> imu_unsubscribe 1 p = ok q \<and>
     py_subscribed q = [1]"
proof -
  obtain p where p: "run_res imu_step [Subscribe, Subscribe] imu_start = ok p" "py_subscribed p = [0, 1]"
    by (simp add: imu_defs Let_def)
  have "\<exists>q. imu_unsubscribe (of_nat (Suc 0)) p = ok q \<and> py_subscribed q = filter (\<lambda>o'. o' \<noteq> 0) (py_subscribed p)"
    by (rule imu_numbers_wrap [where cs = "[Subscribe, Subscribe]", THEN conjunct1, THEN mp]) (use p in simp)
  then show ?thesis using p by auto
qed

end
