(* ===== verification/Matrix.thy ===== *)
theory Matrix
  imports Complex_Main Errors
begin

text \<open>
  \<open>Matrix<T>\<close> and the functions of \<open>extension/math/matrix.hpp\<close>, over a field in place of the
  floating-point type: the model says what the code computes without rounding. The cells of a new
  matrix are uninitialised: every construction takes the contents \<open>g\<close> the memory happens to have.
\<close>

section \<open>Matrices and their element-wise operations\<close>

type_synonym 'a cells = "nat \<Rightarrow> nat \<Rightarrow> 'a"

record 'a matrix =
  mx_row :: nat
  mx_col :: nat
  mx_cell :: "'a cells"

definition mx_new :: "'a cells \<Rightarrow> nat \<Rightarrow> nat \<Rightarrow> 'a matrix" where
  "mx_new g row col = \<lparr>mx_row = row, mx_col = col, mx_cell = g\<rparr>"

definition mx_set :: "nat \<Rightarrow> nat \<Rightarrow> 'a \<Rightarrow> 'a matrix \<Rightarrow> 'a matrix" where
  "mx_set row col v m = m\<lparr>mx_cell := (mx_cell m)(row := (mx_cell m row)(col := v))\<rparr>"

text \<open>\<open>traversal\<close>: the body runs for every row and column, rows first.\<close>

definition mx_indices :: "'a matrix \<Rightarrow> (nat \<times> nat) list" where
  "mx_indices m = concat (map (\<lambda>row. map (\<lambda>col. (row, col)) [0..<mx_col m]) [0..<mx_row m])"

definition mx_traversal :: "(nat \<Rightarrow> nat \<Rightarrow> 'b matrix \<Rightarrow> 'b matrix) \<Rightarrow> 'a matrix \<Rightarrow> 'b matrix \<Rightarrow> 'b matrix" where
  "mx_traversal func m acc = foldl (\<lambda>acc (row, col). func row col acc) acc (mx_indices m)"

definition mx_copy :: "'a cells \<Rightarrow> 'a matrix \<Rightarrow> 'a matrix" where
  "mx_copy g m = mx_traversal (\<lambda>row col. mx_set row col (mx_cell m row col)) m (mx_new g (mx_row m) (mx_col m))"

text \<open>The assignment operator copies; it has no \<open>return\<close> statement, so using it is undefined.\<close>

definition mx_assign :: "'a matrix \<Rightarrow> 'a matrix \<Rightarrow> 'a matrix res" where
  "mx_assign lhs mat =
     (if mx_col lhs \<noteq> mx_col mat \<or> mx_row lhs \<noteq> mx_row mat then Inl (StdException ''out_of_range'')
      else Inl (UndefinedBehaviour ''operator= does not return''))"

definition mx_transpose :: "'a cells \<Rightarrow> 'a matrix \<Rightarrow> 'a matrix" where
  "mx_transpose g m =
     mx_traversal (\<lambda>row col. mx_set col row (mx_cell m row col)) m (mx_new g (mx_col m) (mx_row m))"

definition mx_pointwise :: "('a \<Rightarrow> 'a \<Rightarrow> 'a) \<Rightarrow> 'a cells \<Rightarrow> 'a matrix \<Rightarrow> 'a matrix \<Rightarrow> 'a matrix res" where
  "mx_pointwise f g lhs rhs =
     (if mx_row lhs \<noteq> mx_row rhs \<or> mx_col lhs \<noteq> mx_col rhs then Inl (StdException ''out_of_range'')
      else let rtn = mx_new g (mx_row lhs) (mx_col lhs)
           in ok (mx_traversal (\<lambda>row col. mx_set row col (f (mx_cell lhs row col) (mx_cell rhs row col))) rtn rtn))"

definition mx_add :: "'a::field cells \<Rightarrow> 'a matrix \<Rightarrow> 'a matrix \<Rightarrow> 'a matrix res" where
  "mx_add = mx_pointwise (+)"

definition mx_sub :: "'a::field cells \<Rightarrow> 'a matrix \<Rightarrow> 'a matrix \<Rightarrow> 'a matrix res" where
  "mx_sub = mx_pointwise (-)"

definition mx_dot :: "'a::field matrix \<Rightarrow> 'a matrix \<Rightarrow> nat \<Rightarrow> nat \<Rightarrow> 'a" where
  "mx_dot lhs rhs row col =
     foldl (\<lambda>s x. s + mx_cell lhs row x * mx_cell rhs x col) (mx_cell lhs row 0 * mx_cell rhs 0 col) [1..<mx_col lhs]"

definition mx_mult :: "'a::field cells \<Rightarrow> 'a matrix \<Rightarrow> 'a matrix \<Rightarrow> 'a matrix res" where
  "mx_mult g lhs rhs =
     (if mx_col lhs \<noteq> mx_row rhs then Inl (StdException ''out_of_range'')
      else let rtn = mx_new g (mx_row lhs) (mx_col rhs)
           in ok (mx_traversal (\<lambda>row col. mx_set row col (mx_dot lhs rhs row col)) rtn rtn))"

text \<open>\<open>scalar * matrix\<close>: the result is built with rows and columns exchanged, and then written by the original indices.\<close>

definition mx_scale :: "'a::field cells \<Rightarrow> 'a \<Rightarrow> 'a matrix \<Rightarrow> 'a matrix res" where
  "mx_scale g scalar rhs =
     (if \<exists>(row, col) \<in> set (mx_indices rhs). mx_col rhs \<le> row \<or> mx_row rhs \<le> col
      then Inl (UndefinedBehaviour ''write outside the matrix'')
      else ok (mx_traversal (\<lambda>row col. mx_set row col (mx_cell rhs row col * scalar)) rhs
                 (mx_new g (mx_col rhs) (mx_row rhs))))"

definition mx_div :: "'a::field cells \<Rightarrow> 'a matrix \<Rightarrow> 'a \<Rightarrow> 'a matrix" where
  "mx_div g lhs scalar =
     (let rtn = mx_copy g lhs
      in mx_traversal (\<lambda>row col acc. mx_set row col (mx_cell acc row col / scalar) acc) rtn rtn)"

definition mx_eye :: "'a::field cells \<Rightarrow> nat \<Rightarrow> 'a matrix" where
  "mx_eye g n =
     (let rtn = mx_new g n n in mx_traversal (\<lambda>row col. mx_set row col (if row = col then 1 else 0)) rtn rtn)"

text \<open>
  \<open>matrix / matrix\<close> throws a string literal, which no handler for \<open>std::exception\<close> catches; \<open>print\<close> builds its
  output from the text \<open>std::to_string\<close> gives for a cell.
\<close>

definition mx_divide :: "'a matrix \<Rightarrow> 'a matrix \<Rightarrow> 'a matrix res" where
  "mx_divide lhs rhs = Inl (StdException ''Not implemented'')"

definition mx_print :: "('a \<Rightarrow> string) \<Rightarrow> 'a matrix \<Rightarrow> string" where
  "mx_print to_string m =
     concat (map (\<lambda>row. concat (map (\<lambda>col. to_string (mx_cell m row col) @ [CHR 0x09]) [0..<mx_col m]) @ [CHR 0x0A])
       [0..<mx_row m])"

text \<open>
  The arrays a constructor allocates, the table of rows and one per row, and those the destructor frees; a negative
  size is refused by \<open>new[]\<close>.
\<close>

definition mx_allocated :: "int \<Rightarrow> int \<Rightarrow> nat res" where
  "mx_allocated row col =
     (if row < 0 \<or> 0 < row \<and> col < 0 then Inl (StdException ''bad_array_new_length'') else ok (Suc (nat row)))"

definition mx_freed :: "int \<Rightarrow> nat" where
  "mx_freed row = (if 0 < row then Suc (nat row) else 0)"

lemma mx_leak: "mx_allocated row col = ok n \<Longrightarrow> mx_freed row = n \<longleftrightarrow> row \<noteq> 0"
  by (auto simp: mx_allocated_def mx_freed_def split: if_splits)

section \<open>Determinant, cofactors, inverse\<close>

text \<open>
  Both \<open>minor\<close> and \<open>cofactor\<close> write the cells they keep one after the other into a buffer, wrapping to
  the next row after \<open>_col - 1\<close> of them; the two differ in how they test for the wrap.
\<close>

definition minor_put :: "nat \<Rightarrow> 'a \<Rightarrow> nat \<times> nat \<times> 'a cells \<Rightarrow> nat \<times> nat \<times> 'a cells" where
  "minor_put n v st =
     (let (x, y, f) = st; f' = f(x := (f x)(y := v)); y' = y + 1
      in if y' = n - 1 then (x + 1, 0, f') else (x, y', f'))"

text \<open>\<open>minor\<close> on an \<open>n\<close> by \<open>n\<close> matrix: rows from 1, all columns but \<open>skip\<close>.\<close>

definition mx_minor :: "nat \<Rightarrow> 'a cells \<Rightarrow> nat \<Rightarrow> 'a cells \<Rightarrow> 'a cells" where
  "mx_minor n m skip buf =
     snd (snd (foldl (\<lambda>st (row, col). if col = skip then st else minor_put n (m row col) st) (0, 0, buf)
       (concat (map (\<lambda>row. map (\<lambda>col. (row, col)) [0..<n]) [1..<n]))))"

text \<open>
  \<open>determine\<close>: \<open>size\<close> shrinks while the matrix keeps its \<open>n\<close> rows and columns; \<open>g size\<close> is what the new
  buffer holds at first, and one buffer serves all columns.
\<close>

fun determine :: "(nat \<Rightarrow> 'a::field cells) \<Rightarrow> nat \<Rightarrow> nat \<Rightarrow> 'a cells \<Rightarrow> 'a" where
  "determine g n 0 m = 0"
| "determine g n (Suc 0) m = m 0 0"
| "determine g n (Suc (Suc 0)) m = m 0 0 * m 1 1 - m 0 1 * m 1 0"
| "determine g n (Suc (Suc (Suc k))) m =
     snd (foldl (\<lambda>(buf, sum) col.
        let buf' = mx_minor n m col buf
        in (buf', sum + m 0 col * (- 1) ^ col * determine g n (Suc (Suc k)) buf'))
      (g (Suc (Suc (Suc k))), 0) [0..<Suc (Suc (Suc k))])"

definition cofactor_put :: "nat \<Rightarrow> 'a \<Rightarrow> nat \<times> nat \<times> 'a cells \<Rightarrow> nat \<times> nat \<times> 'a cells" where
  "cofactor_put n v st =
     (let (row2, col2, f) = st; f' = f(row2 := (f row2)(col2 := v))
      in if int col2 < int n - 2 then (row2, col2 + 1, f') else (row2 + 1, 0, f'))"

definition cofactor_minor :: "nat \<Rightarrow> 'a cells \<Rightarrow> nat \<Rightarrow> nat \<Rightarrow> 'a cells \<Rightarrow> 'a cells" where
  "cofactor_minor n m row3 col3 buf =
     snd (snd (foldl (\<lambda>st (row, col). if row \<noteq> row3 \<and> col \<noteq> col3 then cofactor_put n (m row col) st else st)
       (0, 0, buf) (concat (map (\<lambda>row. map (\<lambda>col. (row, col)) [0..<n]) [0..<n]))))"

text \<open>\<open>cofactor\<close> of a square matrix, transposed at the end.\<close>

definition mx_cofactor :: "(nat \<Rightarrow> 'a::field cells) \<Rightarrow> 'a matrix \<Rightarrow> 'a matrix" where
  "mx_cofactor g m =
     (let n = mx_row m;
          (buf, cof) = foldl (\<lambda>(buf, cof) (row3, col3).
             let buf' = cofactor_minor n (mx_cell m) row3 col3 buf
             in (buf', mx_set row3 col3 ((- 1) ^ (row3 + col3) * determine g n (n - 1) buf') cof))
           (g 0, mx_new (g 1) n n) (mx_indices m)
      in mx_transpose (g 2) cof)"

definition mx_inverse :: "(nat \<Rightarrow> 'a::field cells) \<Rightarrow> 'a matrix \<Rightarrow> 'a matrix res" where
  "mx_inverse g m =
     (let determinate = determine g (mx_row m) (mx_row m) (mx_cell m)
      in if determinate = 0 then Inl (StdException ''out_of_range'')
         else if determinate = 1 then ok (mx_set 0 0 1 (mx_copy (g 3) m))
         else ok (mx_div (g 4) (mx_cofactor g m) determinate))"

lemmas mx_defs [op_defs] = mx_new_def mx_set_def mx_copy_def mx_transpose_def mx_pointwise_def mx_add_def
  mx_sub_def mx_mult_def mx_scale_def mx_div_def mx_eye_def

section \<open>What a traversal writes\<close>

lemma traversal_cells:
  fixes f :: "nat \<Rightarrow> nat \<Rightarrow> 'b"
  assumes "distinct ps"
  shows "foldl (\<lambda>acc (row, col). mx_set row col (f row col) acc) acc ps =
    acc\<lparr>mx_cell := \<lambda>i j. if (i, j) \<in> set ps then f i j else mx_cell acc i j\<rparr>"
  using assms
proof (induction ps arbitrary: acc)
  case (Cons p ps)
  then show ?case by (cases p) (auto simp: mx_set_def fun_eq_iff)
qed simp

lemma indices_product: "mx_indices m = List.product [0..<mx_row m] [0..<mx_col m]"
  by (simp add: mx_indices_def product_concat_map)

lemma indices_mem [simp]: "(i, j) \<in> set (mx_indices m) \<longleftrightarrow> i < mx_row m \<and> j < mx_col m"
  by (simp add: indices_product)

lemma indices_distinct: "distinct (mx_indices m)"
  by (simp add: indices_product distinct_product)

lemma traversal_set:
  "mx_traversal (\<lambda>row col. mx_set row col (f row col)) m acc =
   acc\<lparr>mx_cell := \<lambda>i j. if i < mx_row m \<and> j < mx_col m then f i j else mx_cell acc i j\<rparr>"
  using traversal_cells [OF indices_distinct, of f acc m] by (simp add: mx_traversal_def)

section \<open>Packing cells row by row\<close>

text \<open>Both buffers are filled by writing a list of values, \<open>w\<close> per row.\<close>

definition pack_put :: "nat \<Rightarrow> 'a \<Rightarrow> nat \<times> nat \<times> 'a cells \<Rightarrow> nat \<times> nat \<times> 'a cells" where
  "pack_put w v st =
     (let (x, y, f) = st; f' = f(x := (f x)(y := v))
      in if Suc y = w then (Suc x, 0, f') else (x, Suc y, f'))"

lemma minor_put_pack: "minor_put n = pack_put (n - 1)"
  by (simp add: minor_put_def pack_put_def fun_eq_iff Let_def)

definition in_row :: "nat \<Rightarrow> nat \<times> nat \<times> 'a cells \<Rightarrow> bool" where
  "in_row w st \<longleftrightarrow> fst (snd st) < w"

lemma pack_put_in_row: "in_row w st \<Longrightarrow> in_row w (pack_put w v st)"
  by (cases st) (auto simp: in_row_def pack_put_def Let_def)

lemma cofactor_put_pack: "in_row (n - 1) st \<Longrightarrow> cofactor_put n v st = pack_put (n - 1) v st"
  by (cases st) (auto simp: cofactor_put_def pack_put_def in_row_def Let_def)

text \<open>One full row, then a list of rows.\<close>

lemma pack_part:
  "y + length vs < w \<Longrightarrow>
   foldl (\<lambda>st v. pack_put w v st) (x, y, f) vs =
     (x, y + length vs, \<lambda>i j. if i = x \<and> y \<le> j \<and> j < y + length vs then vs ! (j - y) else f i j)"
proof (induction vs arbitrary: y f)
  case (Cons v vs)
  have "foldl (\<lambda>st v. pack_put w v st) (x, y, f) (v # vs) =
      foldl (\<lambda>st v. pack_put w v st) (x, Suc y, f(x := (f x)(y := v))) vs"
    using Cons.prems by (simp add: pack_put_def)
  also have "\<dots> = (x, Suc y + length vs, \<lambda>i j. if i = x \<and> Suc y \<le> j \<and> j < Suc y + length vs
      then vs ! (j - Suc y) else (f(x := (f x)(y := v))) i j)"
    using Cons.prems by (intro Cons.IH) simp
  finally show ?case by (auto simp: fun_eq_iff nth_Cons split: nat.splits) (metis Suc_diff_Suc Suc_le_lessD diff_Suc_Suc le_neq_implies_less nat.inject)+
qed (auto simp: fun_eq_iff)

lemma pack_row:
  assumes "length vs = w" "0 < w"
  shows "foldl (\<lambda>st v. pack_put w v st) (x, 0, f) vs =
    (Suc x, 0, \<lambda>i j. if i = x \<and> j < w then vs ! j else f i j)"
proof -
  from assms obtain us v where vs: "vs = us @ [v]" by (metis length_greater_0_conv rev_exhaust)
  then have "foldl (\<lambda>st v. pack_put w v st) (x, 0, f) us =
      (x, length us, \<lambda>i j. if i = x \<and> j < length us then us ! j else f i j)"
    using assms pack_part [of 0 us w x f] by (simp add: fun_eq_iff)
  then show ?thesis using vs assms by (auto simp: pack_put_def fun_eq_iff nth_append less_Suc_eq)
qed

lemma pack_rows:
  assumes "\<forall>vs\<in>set rows. length vs = w" "0 < w"
  shows "foldl (\<lambda>st v. pack_put w v st) (x, 0, f) (concat rows) =
    (x + length rows, 0, \<lambda>i j. if x \<le> i \<and> i < x + length rows \<and> j < w then rows ! (i - x) ! j else f i j)"
  using assms(1)
proof (induction rows arbitrary: x f)
  case (Cons vs rows)
  then show ?case
    using pack_row [of vs w x f] assms(2)
    by (auto simp: fun_eq_iff nth_Cons' diff_diff_left)
qed (auto simp: fun_eq_iff)

lemma nth_skip:
  "j < n - 1 \<Longrightarrow> c < n \<Longrightarrow> filter (\<lambda>k. k \<noteq> c) [0..<n] ! j = (if j < c then j else Suc j)"
proof -
  assume "j < n - 1" "c < n"
  have "[0..<n] = [0..<c] @ c # [Suc c..<n]"
    using \<open>c < n\<close> by (metis less_imp_le_nat upt_add_eq_append le_add_diff_inverse upt_conv_Cons zero_le)
  then have "filter (\<lambda>k. k \<noteq> c) [0..<n] = [0..<c] @ [Suc c..<n]" by simp
  then show ?thesis using \<open>j < n - 1\<close> \<open>c < n\<close> by (auto simp: nth_append)
qed

lemma length_skip: "c < n \<Longrightarrow> length (filter (\<lambda>k. k \<noteq> c) [0..<n]) = n - 1"
proof -
  assume "c < n"
  have "[0..<n] = [0..<c] @ c # [Suc c..<n]"
    using \<open>c < n\<close> by (metis less_imp_le_nat upt_add_eq_append le_add_diff_inverse upt_conv_Cons zero_le)
  then show ?thesis using \<open>c < n\<close> by simp
qed

section \<open>Minors\<close>

definition skip :: "nat \<Rightarrow> nat \<Rightarrow> nat" where
  "skip c j = (if j < c then j else Suc j)"

lemma foldl_filter:
  "foldl (\<lambda>st p. if P p then put (v p) st else st) st ps = foldl (\<lambda>st x. put x st) st (map v (filter P ps))"
  by (induction ps arbitrary: st) auto

lemma foldl_cofactor_put:
  "in_row (n - 1) st \<Longrightarrow>
   foldl (\<lambda>st v. cofactor_put n v st) st vs = foldl (\<lambda>st v. pack_put (n - 1) v st) st vs"
  by (induction vs arbitrary: st) (auto simp: cofactor_put_pack pack_put_in_row)

lemma pack_grid:
  assumes "2 \<le> n" "\<forall>r\<in>set rs. True" "c < n"
  shows "snd (snd (foldl (\<lambda>st v. pack_put (n - 1) v st) (0, 0, buf)
      (concat (map (\<lambda>row. map (m row) (filter (\<lambda>k. k \<noteq> c) [0..<n])) rs)))) =
    (\<lambda>i j. if i < length rs \<and> j < n - 1 then m (rs ! i) (skip c j) else buf i j)"
proof -
  let ?rows = "map (\<lambda>row. map (m row) (filter (\<lambda>k. k \<noteq> c) [0..<n])) rs"
  have "\<forall>vs\<in>set ?rows. length vs = n - 1" using length_skip [OF assms(3)] by auto
  from pack_rows [OF this, of 0 buf] assms(1)
  have "snd (snd (foldl (\<lambda>st v. pack_put (n - 1) v st) (0, 0, buf) (concat ?rows))) =
      (\<lambda>i j. if i < length rs \<and> j < n - 1 then ?rows ! i ! j else buf i j)"
    by (simp add: fun_eq_iff)
  moreover have "?rows ! i ! j = m (rs ! i) (skip c j)" if "i < length rs" "j < n - 1" for i j
    using that assms(3) length_skip [OF assms(3)] nth_skip [of j n c] by (simp add: skip_def)
  ultimately show ?thesis by (auto simp: fun_eq_iff)
qed

lemma mx_minor_cells:
  assumes "2 \<le> n" "c < n"
  shows "mx_minor n m c buf = (\<lambda>i j. if i < n - 1 \<and> j < n - 1 then m (Suc i) (skip c j) else buf i j)"
proof -
  let ?ps = "concat (map (\<lambda>row. map (\<lambda>col. (row, col)) [0..<n]) [1..<n])"
  have e: "(\<lambda>st (row, col). if col = c then st else minor_put n (m row col) st) =
      (\<lambda>st p. if snd p \<noteq> c then pack_put (n - 1) (m (fst p) (snd p)) st else st)"
    by (auto simp: fun_eq_iff minor_put_pack)
  have vals: "map (\<lambda>p. m (fst p) (snd p)) (filter (\<lambda>p. snd p \<noteq> c) ?ps) =
      concat (map (\<lambda>row. map (m row) (filter (\<lambda>k. k \<noteq> c) [0..<n])) [1..<n])"
    by (simp add: filter_concat map_concat comp_def filter_map)
  have "mx_minor n m c buf = snd (snd (foldl (\<lambda>st v. pack_put (n - 1) v st) (0, 0, buf)
      (map (\<lambda>p. m (fst p) (snd p)) (filter (\<lambda>p. snd p \<noteq> c) ?ps))))"
    unfolding mx_minor_def e by (subst foldl_filter [where put = "pack_put (n - 1)"]) simp
  also have "\<dots> = (\<lambda>i j. if i < length [1..<n] \<and> j < n - 1 then m ([1..<n] ! i) (skip c j) else buf i j)"
    unfolding vals using assms by (intro pack_grid) auto
  finally show ?thesis by (auto simp: fun_eq_iff)
qed

lemma cofactor_minor_cells:
  assumes "2 \<le> n" "r < n" "c < n"
  shows "cofactor_minor n m r c buf = (\<lambda>i j. if i < n - 1 \<and> j < n - 1 then m (skip r i) (skip c j) else buf i j)"
proof -
  let ?ps = "concat (map (\<lambda>row. map (\<lambda>col. (row, col)) [0..<n]) [0..<n])"
  let ?rs = "filter (\<lambda>k. k \<noteq> r) [0..<n]"
  have e: "(\<lambda>st (row, col). if row \<noteq> r \<and> col \<noteq> c then cofactor_put n (m row col) st else st) =
      (\<lambda>st p. if fst p \<noteq> r \<and> snd p \<noteq> c then cofactor_put n (m (fst p) (snd p)) st else st)"
    by (auto simp: fun_eq_iff)
  have rows: "concat (map (\<lambda>row. map (m row) (filter (\<lambda>k. row \<noteq> r \<and> k \<noteq> c) [0..<n])) rs) =
      concat (map (\<lambda>row. map (m row) (filter (\<lambda>k. k \<noteq> c) [0..<n])) (filter (\<lambda>k. k \<noteq> r) rs))" for rs
    by (induction rs) auto
  have vals: "map (\<lambda>p. m (fst p) (snd p)) (filter (\<lambda>p. fst p \<noteq> r \<and> snd p \<noteq> c) ?ps) =
      concat (map (\<lambda>row. map (m row) (filter (\<lambda>k. k \<noteq> c) [0..<n])) ?rs)"
    by (simp add: filter_concat map_concat comp_def filter_map rows)
  have start: "in_row (n - 1) (0, 0, buf)" using assms(1) by (simp add: in_row_def)
  have "cofactor_minor n m r c buf = snd (snd (foldl (\<lambda>st v. cofactor_put n v st) (0, 0, buf)
      (map (\<lambda>p. m (fst p) (snd p)) (filter (\<lambda>p. fst p \<noteq> r \<and> snd p \<noteq> c) ?ps))))"
    unfolding cofactor_minor_def e by (subst foldl_filter [where put = "cofactor_put n"]) simp
  also have "\<dots> = (\<lambda>i j. if i < length ?rs \<and> j < n - 1 then m (?rs ! i) (skip c j) else buf i j)"
    unfolding vals foldl_cofactor_put [OF start] using assms by (intro pack_grid) auto
  finally show ?thesis
    using assms length_skip [OF assms(2)] by (auto simp: fun_eq_iff nth_skip skip_def)
qed

section \<open>The determinant\<close>

text \<open>The determinant by expansion along the first row.\<close>

fun laplace :: "nat \<Rightarrow> 'a::field cells \<Rightarrow> 'a" where
  "laplace 0 m = 1"
| "laplace (Suc k) m =
     (\<Sum>c<Suc k. m 0 c * (- 1) ^ c * laplace k (\<lambda>i j. m (Suc i) (skip c j)))"

lemma laplace_cong:
  "(\<And>i j. i < n \<Longrightarrow> j < n \<Longrightarrow> m i j = m' i j) \<Longrightarrow> laplace n m = laplace n m'"
proof (induction n arbitrary: m m')
  case (Suc k)
  show ?case unfolding laplace.simps
  proof (rule sum.cong [OF refl])
    fix c assume "c \<in> {..<Suc k}"
    moreover have "laplace k (\<lambda>i j. m (Suc i) (skip c j)) = laplace k (\<lambda>i j. m' (Suc i) (skip c j))"
      by (rule Suc.IH) (use Suc.prems in \<open>auto simp: skip_def\<close>)
    ultimately show "m 0 c * (- 1) ^ c * laplace k (\<lambda>i j. m (Suc i) (skip c j)) =
        m' 0 c * (- 1) ^ c * laplace k (\<lambda>i j. m' (Suc i) (skip c j))"
      using Suc.prems by simp
  qed
qed simp

lemma determine_columns:
  assumes IH: "\<And>m. determine g n (Suc (Suc k)) m = laplace (Suc (Suc k)) m"
    and "Suc (Suc (Suc k)) \<le> n" and "c \<le> Suc (Suc (Suc k))"
  shows "snd (foldl (\<lambda>(buf, sum) col.
        let buf' = mx_minor n m col buf
        in (buf', sum + m 0 col * (- 1) ^ col * determine g n (Suc (Suc k)) buf')) (buf, acc) [0..<c]) =
      acc + (\<Sum>col<c. m 0 col * (- 1) ^ col * laplace (Suc (Suc k)) (\<lambda>i j. m (Suc i) (skip col j)))"
  using assms(3)
proof (induction c)
  case (Suc c)
  let ?f = "\<lambda>(buf, sum) col.
      let buf' = mx_minor n m col buf
      in (buf', sum + m 0 col * (- 1) ^ col * determine g n (Suc (Suc k)) buf')"
  obtain b v where bv: "foldl ?f (buf, acc) [0..<c] = (b, v)" by (cases "foldl ?f (buf, acc) [0..<c]")
  have "laplace (Suc (Suc k)) (mx_minor n m c b) = laplace (Suc (Suc k)) (\<lambda>i j. m (Suc i) (skip c j))"
    using assms(2) Suc.prems by (intro laplace_cong) (auto simp: mx_minor_cells)
  then show ?case using Suc bv by (simp add: Let_def IH del: laplace.simps)
qed simp

lemma determine_laplace:
  "1 \<le> s \<Longrightarrow> s \<le> n \<Longrightarrow> determine g n s m = laplace s m"
proof (induction s arbitrary: m)
  case (Suc k)
  consider "k = 0" | "k = 1" | j where "k = Suc (Suc j)" by (metis One_nat_def not0_implies_Suc)
  then show ?case
  proof cases
    case 3
    from Suc 3 have "\<And>m. determine g n (Suc (Suc j)) m = laplace (Suc (Suc j)) m" by simp
    from determine_columns [OF this _ le_refl] Suc.prems 3
    have "determine g n (Suc (Suc (Suc j))) m = 0 + (\<Sum>col<Suc (Suc (Suc j)).
        m 0 col * (- 1) ^ col * laplace (Suc (Suc j)) (\<lambda>i j. m (Suc i) (skip col j)))"
      unfolding determine.simps(4) by blast
    then show ?thesis unfolding 3 laplace.simps(2) [of "Suc (Suc j)"] by (simp only: add_0)
  qed (auto simp: skip_def numeral_eq_Suc)
qed simp

section \<open>Cofactors and the inverse\<close>

definition adjugate_cell :: "nat \<Rightarrow> 'a::field cells \<Rightarrow> nat \<Rightarrow> nat \<Rightarrow> 'a" where
  "adjugate_cell n m i j = (- 1) ^ (i + j) * laplace (n - 1) (\<lambda>k l. m (skip j k) (skip i l))"

lemma cofactor_fold:
  assumes "2 \<le> n" "\<forall>(r, c)\<in>set ps. r < n \<and> c < n"
  shows "snd (foldl (\<lambda>(buf, cof) (row3, col3).
      let buf' = cofactor_minor n m row3 col3 buf
      in (buf', mx_set row3 col3 ((- 1) ^ (row3 + col3) * determine g n (n - 1) buf') cof)) (buf, cof) ps) =
    foldl (\<lambda>acc (r, c). mx_set r c (adjugate_cell n m c r) acc) cof ps"
  using assms(2)
proof (induction ps arbitrary: buf cof)
  case (Cons p ps)
  obtain r c where p: "p = (r, c)" by (cases p)
  then have rc: "r < n" "c < n" using Cons.prems by auto
  have "determine g n (n - 1) (cofactor_minor n m r c buf) =
      laplace (n - 1) (cofactor_minor n m r c buf)"
    using assms(1) by (intro determine_laplace) auto
  also have "\<dots> = laplace (n - 1) (\<lambda>i j. m (skip r i) (skip c j))"
    using assms(1) rc by (intro laplace_cong) (simp add: cofactor_minor_cells)
  finally have "(- 1) ^ (r + c) * determine g n (n - 1) (cofactor_minor n m r c buf) = adjugate_cell n m c r"
    by (simp add: adjugate_cell_def add.commute)
  then show ?case using Cons p by (simp add: Let_def)
qed simp

lemma mx_copy_cells:
  "mx_row (mx_copy g m) = mx_row m" "mx_col (mx_copy g m) = mx_col m"
  "i < mx_row m \<Longrightarrow> j < mx_col m \<Longrightarrow> mx_cell (mx_copy g m) i j = mx_cell m i j"
  by (simp_all add: mx_copy_def traversal_set mx_new_def)

lemma mx_transpose_cells:
  "mx_row (mx_transpose g m) = mx_col m" "mx_col (mx_transpose g m) = mx_row m"
  "i < mx_row m \<Longrightarrow> j < mx_col m \<Longrightarrow> mx_cell (mx_transpose g m) j i = mx_cell m i j"
proof -
  have gen: "foldl (\<lambda>acc (row, col). mx_set col row (f row col) acc) acc ps =
      acc\<lparr>mx_cell := \<lambda>j i. if (i, j) \<in> set ps then f i j else mx_cell acc j i\<rparr>"
    if "distinct ps" for f :: "nat \<Rightarrow> nat \<Rightarrow> 'a" and acc ps
    using that
  proof (induction ps arbitrary: acc)
    case (Cons p ps)
    then show ?case by (cases p) (auto simp: mx_set_def fun_eq_iff)
  qed simp
  from gen [OF indices_distinct, of "mx_cell m" "mx_new g (mx_col m) (mx_row m)" m]
  show "mx_row (mx_transpose g m) = mx_col m" "mx_col (mx_transpose g m) = mx_row m"
    "i < mx_row m \<Longrightarrow> j < mx_col m \<Longrightarrow> mx_cell (mx_transpose g m) j i = mx_cell m i j"
    by (simp_all add: mx_transpose_def mx_traversal_def mx_new_def)
qed

lemma mx_div_cells:
  "mx_row (mx_div g m s) = mx_row m" "mx_col (mx_div g m s) = mx_col m"
  "i < mx_row m \<Longrightarrow> j < mx_col m \<Longrightarrow> mx_cell (mx_div g m s) i j = mx_cell m i j / s"
proof -
  have gen: "foldl (\<lambda>acc (row, col). mx_set row col (mx_cell acc row col / s) acc) acc ps =
      acc\<lparr>mx_cell := \<lambda>i j. if (i, j) \<in> set ps then mx_cell acc i j / s else mx_cell acc i j\<rparr>"
    if "distinct ps" for acc :: "'a matrix" and ps
    using that
  proof (induction ps arbitrary: acc)
    case (Cons p ps)
    then show ?case by (cases p) (auto simp: mx_set_def fun_eq_iff)
  qed simp
  have f: "(\<lambda>acc (row, col). (\<lambda>row col acc. mx_set row col (mx_cell acc row col / s) acc) row col acc) =
      (\<lambda>acc (row, col). mx_set row col (mx_cell acc row col / s) acc)" by simp
  from gen [OF indices_distinct, of "mx_copy g m" "mx_copy g m"]
  show "mx_row (mx_div g m s) = mx_row m" "mx_col (mx_div g m s) = mx_col m"
    "i < mx_row m \<Longrightarrow> j < mx_col m \<Longrightarrow> mx_cell (mx_div g m s) i j = mx_cell m i j / s"
    by (simp_all add: mx_div_def Let_def mx_traversal_def mx_copy_cells)
qed

lemma mx_cofactor_cells:
  assumes "mx_row m = n" "mx_col m = n" "2 \<le> n"
  shows "mx_row (mx_cofactor g m) = n" "mx_col (mx_cofactor g m) = n"
    "i < n \<Longrightarrow> j < n \<Longrightarrow> mx_cell (mx_cofactor g m) i j = adjugate_cell n (mx_cell m) i j"
proof -
  define cof where "cof = foldl (\<lambda>acc (r, c). mx_set r c (adjugate_cell n (mx_cell m) c r) acc)
    (mx_new (g 1) n n) (mx_indices m)"
  have "\<forall>(r, c)\<in>set (mx_indices m). r < n \<and> c < n" using assms by auto
  from cofactor_fold [OF assms(3) this, of "mx_cell m" g "g 0" "mx_new (g 1) n n"]
  have c: "mx_cofactor g m = mx_transpose (g 2) cof"
    using assms(1) by (simp add: mx_cofactor_def Let_def cof_def split_beta)
  have k: "cof = (mx_new (g 1) n n)\<lparr>mx_cell := \<lambda>i j. if i < n \<and> j < n then adjugate_cell n (mx_cell m) j i
      else mx_cell (mx_new (g 1) n n) i j\<rparr>"
    using traversal_cells [OF indices_distinct, of "\<lambda>r c. adjugate_cell n (mx_cell m) c r" _ m] assms(1,2)
    by (simp add: cof_def del: One_nat_def)
  show "mx_row (mx_cofactor g m) = n" "mx_col (mx_cofactor g m) = n"
    by (simp_all add: c mx_transpose_cells k mx_new_def)
  show "i < n \<Longrightarrow> j < n \<Longrightarrow> mx_cell (mx_cofactor g m) i j = adjugate_cell n (mx_cell m) i j"
    using mx_transpose_cells(3) [of j cof i "g 2"] by (simp add: c k mx_new_def)
qed

section \<open>Properties\<close>

text \<open>
  \<open>determine\<close> computes the determinant, by expansion along the first row, of every matrix of size at
  least one, and does not depend on what the uninitialised buffers contain; of an empty matrix it is
  0 instead of 1.
\<close>

theorem determine_correct:
  "determine g n n m = (if n = 0 then 0 else laplace n m)"
  using determine_laplace [of n n g m] by auto

lemma foldl_sum: "foldl (\<lambda>s x. s + f x) (f 0) [1..<Suc n] = (\<Sum>x<Suc n. f x)" for f :: "nat \<Rightarrow> 'a::comm_monoid_add"
  by (induction n) auto

lemma mx_dot_sum:
  assumes "0 < mx_col a"
  shows "mx_dot a b i j = (\<Sum>x<mx_col a. mx_cell a i x * mx_cell b x j)"
proof -
  from assms obtain n where n: "mx_col a = Suc n" by (metis gr0_implies_Suc)
  show ?thesis
    using foldl_sum [of "\<lambda>x. mx_cell a i x * mx_cell b x j" n] by (simp only: mx_dot_def n)
qed



definition twice_identity :: "rat matrix" where
  "twice_identity = mx_new (\<lambda>i j. if i = j then 2 else 0) 2 2"

lemma twice_identity_det: "mx_row twice_identity = 2" "mx_col twice_identity = 2"
  "laplace 2 (mx_cell twice_identity) = 4"
  by (simp_all add: twice_identity_def mx_new_def skip_def numeral_2_eq_2)

text \<open>
  For a square matrix of size at least two \<open>inverse\<close> throws exactly when the determinant is 0, and
  gives the adjugate divided by the determinant when it is neither 0 nor 1.
\<close>

theorem inverse_is_adjugate:
  assumes "mx_row m = n" "mx_col m = n" "2 \<le> n"
  shows "(case mx_inverse g m of
      Inl e \<Rightarrow> laplace n (mx_cell m) = 0
    | Inr r \<Rightarrow> laplace n (mx_cell m) \<noteq> 0 \<and> mx_row r = n \<and> mx_col r = n \<and>
        (laplace n (mx_cell m) \<noteq> 1 \<longrightarrow> (\<forall>i<n. \<forall>j<n.
          mx_cell r i j = adjugate_cell n (mx_cell m) i j / laplace n (mx_cell m))))"
proof -
  have d: "determine g n n (mx_cell m) = laplace n (mx_cell m)"
    using assms(3) determine_laplace [of n n] by simp
  show ?thesis
    using assms mx_cofactor_cells [OF assms]
    by (auto simp: mx_inverse_def d Let_def mx_div_cells mx_copy_cells mx_set_def)
qed

theorem inverse_is_adjugate_witness:
  "\<exists>r. mx_inverse (\<lambda>_ _ _. 0) twice_identity = ok r \<and> mx_row r = 2"
  using inverse_is_adjugate [OF twice_identity_det(1,2) order_refl, of "\<lambda>_ _ _. 0"] twice_identity_det(3)
  by (cases "mx_inverse (\<lambda>_ _ _. 0) twice_identity") auto

definition is_identity2 :: "'a::field matrix \<Rightarrow> bool" where
  "is_identity2 m \<longleftrightarrow> mx_cell m 0 0 = 1 \<and> mx_cell m 0 1 = 0 \<and> mx_cell m 1 0 = 0 \<and> mx_cell m 1 1 = 1"

lemma two_cells:
  "mx_row a = 2 \<Longrightarrow> mx_col a = 2 \<Longrightarrow> mx_row b = 2 \<Longrightarrow> mx_col b = 2 \<Longrightarrow>
   \<exists>p. mx_mult h a b = ok p \<and>
     (is_identity2 p \<longleftrightarrow>
        mx_cell a 0 0 * mx_cell b 0 0 + mx_cell a 0 1 * mx_cell b 1 0 = 1 \<and>
        mx_cell a 0 0 * mx_cell b 0 1 + mx_cell a 0 1 * mx_cell b 1 1 = 0 \<and>
        mx_cell a 1 0 * mx_cell b 0 0 + mx_cell a 1 1 * mx_cell b 1 0 = 0 \<and>
        mx_cell a 1 0 * mx_cell b 0 1 + mx_cell a 1 1 * mx_cell b 1 1 = 1)"
  by (simp add: mx_mult_def Let_def traversal_set mx_new_def is_identity2_def mx_dot_sum numeral_2_eq_2)

lemma adjugate2:
  "adjugate_cell 2 m 0 0 = m 1 1" "adjugate_cell 2 m 0 1 = - m 0 1"
  "adjugate_cell 2 m 1 0 = - m 1 0" "adjugate_cell 2 m 1 1 = m 0 0"
  "laplace 2 m = m 0 0 * m 1 1 - m 0 1 * m 1 0"
  by (simp_all add: adjugate_cell_def skip_def numeral_2_eq_2)

lemma det1_identity:
  fixes a b c d :: "'a::field_char_0"
  assumes "a * d - b * c = 1"
  shows "a + b * c = 1 \<and> a * b + b * d = 0 \<and> c + d * c = 0 \<and> c * b + d * d = 1 \<longleftrightarrow>
    a = 1 \<and> b = 0 \<and> c = 0 \<and> d = 1"
proof
  assume eq: "a + b * c = 1 \<and> a * b + b * d = 0 \<and> c + d * c = 0 \<and> c * b + d * d = 1"
  then have "c * (1 + d) = 0" by (simp add: algebra_simps)
  then consider "c = 0" | "d = - 1" by (auto simp: add_eq_0_iff)
  then show "a = 1 \<and> b = 0 \<and> c = 0 \<and> d = 1"
  proof cases
    case 1
    with eq assms have "a = 1" "d = 1" by auto
    with eq 1 show ?thesis by simp
  next
    case 2
    with assms have "- a = 1 + b * c" by (simp add: algebra_simps)
    then have "a = - 1 - b * c" by (metis minus_add_distrib minus_minus uminus_add_conv_diff add.commute)
    with eq show ?thesis by simp
  qed
qed simp

text \<open>
  On 2 by 2 matrices: with a determinant other than 0 and 1 the result of \<open>inverse\<close> is the
  inverse; with determinant 1 the shortcut returns the matrix itself with its first cell set to 1,
  which is the inverse only of the identity.
\<close>

theorem inverse_2x2:
  fixes m :: "'a::field_char_0 matrix"
  assumes "mx_row m = 2" "mx_col m = 2" "mx_inverse g m = ok r"
  shows "\<exists>p. mx_mult h m r = ok p \<and>
    (if laplace 2 (mx_cell m) = 1 then is_identity2 p \<longleftrightarrow> is_identity2 m else is_identity2 p)"
proof -
  let ?a = "mx_cell m 0 0" and ?b = "mx_cell m 0 1" and ?c = "mx_cell m 1 0" and ?d = "mx_cell m 1 1"
  let ?D = "laplace 2 (mx_cell m)"
  have D: "determine g 2 2 (mx_cell m) = ?D" using determine_laplace [of 2 2] by simp
  have r: "mx_row r = 2" "mx_col r = 2" and D0: "?D \<noteq> 0"
    using assms mx_cofactor_cells [where g = g, OF assms(1,2)]
    by (auto simp: mx_inverse_def D Let_def mx_div_cells mx_copy_cells mx_set_def split: if_splits)
  from two_cells [OF assms(1,2) r, of h] obtain p where p: "mx_mult h m r = ok p" and
    id: "is_identity2 p \<longleftrightarrow> ?a * mx_cell r 0 0 + ?b * mx_cell r 1 0 = 1 \<and>
      ?a * mx_cell r 0 1 + ?b * mx_cell r 1 1 = 0 \<and> ?c * mx_cell r 0 0 + ?d * mx_cell r 1 0 = 0 \<and>
      ?c * mx_cell r 0 1 + ?d * mx_cell r 1 1 = 1" by blast
  show ?thesis
  proof (cases "?D = 1")
    case True
    then have "mx_cell r 0 0 = 1" "mx_cell r 0 1 = ?b" "mx_cell r 1 0 = ?c" "mx_cell r 1 1 = ?d"
      using assms by (auto simp: mx_inverse_def D Let_def mx_copy_cells mx_set_def)
    then show ?thesis using p id True det1_identity [where a = ?a and b = ?b and c = ?c and d = ?d] by (simp add: adjugate2 is_identity2_def)
  next
    case False
    have "mx_cell r i j = adjugate_cell 2 (mx_cell m) i j / ?D" if "i < 2" "j < 2" for i j
      using assms False D0 that mx_cofactor_cells [where g = g, OF assms(1,2)]
      by (auto simp: mx_inverse_def D Let_def mx_div_cells)
    then have "mx_cell r 0 0 = ?d / ?D" "mx_cell r 0 1 = - ?b / ?D" "mx_cell r 1 0 = - ?c / ?D"
      "mx_cell r 1 1 = ?a / ?D" by (simp_all add: adjugate2(1-4) del: One_nat_def)
    then have "is_identity2 p"
      using id False D0 adjugate2(5) [of "mx_cell m"] by (simp add: field_simps del: One_nat_def)
    then show ?thesis using p False by auto
  qed
qed

theorem inverse_2x2_witness:
  "\<exists>r p. mx_inverse (\<lambda>_ _ _. 0) twice_identity = ok r \<and> mx_mult (\<lambda>_ _. 0) twice_identity r = ok p \<and> is_identity2 p"
proof -
  have "determine (\<lambda>_ _ _. 0) 2 2 (mx_cell twice_identity) = 4"
    by (subst determine_laplace) (simp_all add: twice_identity_det(3))
  then obtain r where r: "mx_inverse (\<lambda>_ _ _. 0) twice_identity = ok r"
    by (simp add: mx_inverse_def twice_identity_det(1))
  from inverse_2x2 [OF twice_identity_det(1,2) r, of "\<lambda>_ _. 0"] r show ?thesis
    by (auto simp: twice_identity_det(3))
qed

end
