(* ===== verification/MatrixInverse.thy ===== *)
theory MatrixInverse
  imports Matrix
begin

text \<open>
  The inverse of \<open>extension/math/matrix.hpp\<close> for every size: expansion of the determinant along any row,
  vanishing on equal rows, and from them that a matrix times the result of \<open>inverse\<close> is the identity.
\<close>

section \<open>Two rows at a time\<close>

text \<open>
  Expanding along two rows sums over pairs of a column and a column of what remains. \<open>flip_pair\<close> exchanges
  the order in which the same two columns are chosen.
\<close>

definition flip_pair :: "nat \<times> nat \<Rightarrow> nat \<times> nat" where
  "flip_pair p = (case p of (a, b) \<Rightarrow> if b < a then (b, a - 1) else (Suc b, a))"

lemma flip_flip [simp]: "flip_pair (flip_pair p) = p"
  by (cases p) (auto simp: flip_pair_def)

lemma fst_flip: "fst (flip_pair (a, b)) = skip a b"
  by (auto simp: flip_pair_def skip_def)

lemma skip_flip: "skip (fst (flip_pair p)) (snd (flip_pair p)) = fst p"
  by (cases p) (auto simp: flip_pair_def skip_def)

lemma skip_skip_flip:
  "skip (fst (flip_pair p)) (skip (snd (flip_pair p)) j) = skip (fst p) (skip (snd p) j)"
  by (cases p) (auto simp: flip_pair_def skip_def)

lemma sign_flip:
  "(- 1) ^ (fst (flip_pair p) + snd (flip_pair p)) = - ((- 1) ^ (fst p + snd p) :: 'a::comm_ring_1)"
proof (cases p)
  case (Pair a b)
  show ?thesis
  proof (cases "b < a")
    case True
    then obtain a' where "a = Suc a'" by (cases a) auto
    with True Pair show ?thesis by (simp add: flip_pair_def add.commute)
  qed (simp add: Pair flip_pair_def add.commute)
qed

definition column_pairs :: "nat \<Rightarrow> (nat \<times> nat) set" where
  "column_pairs n = {..<Suc (Suc n)} \<times> {..<Suc n}"

lemma finite_pairs [simp]: "finite (column_pairs n)"
  by (simp add: column_pairs_def)

lemma flip_mem: "p \<in> column_pairs n \<Longrightarrow> flip_pair p \<in> column_pairs n"
  by (cases p) (auto simp: column_pairs_def flip_pair_def)

lemma flip_lt: "snd (flip_pair p) < fst (flip_pair p) \<longleftrightarrow> \<not> snd p < fst p"
  by (cases p) (auto simp: flip_pair_def)

lemma sum_flip: "(\<Sum>p\<in>column_pairs n. f (flip_pair p)) = (\<Sum>p\<in>column_pairs n. f p)"
  by (rule sum.reindex_bij_witness [of _ flip_pair flip_pair]) (auto intro: flip_mem)

text \<open>A summand that changes its sign when the columns are exchanged adds up to 0, in any characteristic.\<close>

lemma sum_antisymmetric:
  fixes f :: "nat \<times> nat \<Rightarrow> 'a::ab_group_add"
  assumes "\<And>p. p \<in> column_pairs n \<Longrightarrow> f (flip_pair p) = - f p"
  shows "(\<Sum>p\<in>column_pairs n. f p) = 0"
proof -
  let ?lo = "{p \<in> column_pairs n. snd p < fst p}" and ?hi = "{p \<in> column_pairs n. \<not> snd p < fst p}"
  have "(\<Sum>p\<in>?hi. f p) = (\<Sum>p\<in>?lo. f (flip_pair p))"
    by (rule sum.reindex_bij_witness [of _ flip_pair flip_pair]) (auto simp: flip_lt intro: flip_mem)
  also have "\<dots> = - (\<Sum>p\<in>?lo. f p)"
    by (simp add: assms flip: sum_negf)
  finally have "(\<Sum>p\<in>?hi. f p) = - (\<Sum>p\<in>?lo. f p)" .
  moreover have "(\<Sum>p\<in>column_pairs n. f p) = (\<Sum>p\<in>?lo. f p) + (\<Sum>p\<in>?hi. f p)"
    by (subst sum.union_disjoint [symmetric]) (auto intro!: sum.cong)
  ultimately show ?thesis by simp
qed

lemma sum_pairs: "(\<Sum>a<Suc (Suc n). \<Sum>b<Suc n. f a b) = (\<Sum>p\<in>column_pairs n. f (fst p) (snd p))"
  by (simp add: column_pairs_def sum.cartesian_product split_beta del: sum.lessThan_Suc)

section \<open>Expansion along any row\<close>

declare laplace.simps(2) [simp del] sum.lessThan_Suc [simp del]

definition expansion :: "nat \<Rightarrow> nat \<Rightarrow> 'a::field cells \<Rightarrow> 'a" where
  "expansion n r m = (\<Sum>c<n. m r c * (- 1) ^ (r + c) * laplace (n - 1) (\<lambda>i j. m (skip r i) (skip c j)))"

definition two_rows :: "nat \<Rightarrow> 'a::field cells \<Rightarrow> nat \<Rightarrow> (nat \<Rightarrow> 'a) \<Rightarrow> (nat \<Rightarrow> 'a) \<Rightarrow> nat \<times> nat \<Rightarrow> 'a" where
  "two_rows n m r u v p =
     u (fst p) * v (skip (fst p) (snd p)) * (- 1) ^ (fst p + snd p) *
     laplace n (\<lambda>i j. m (Suc (skip r i)) (skip (fst p) (skip (snd p) j)))"

lemma two_rows_flip: "two_rows n m r u v (flip_pair p) = - two_rows n m r v u p"
proof (cases p)
  case (Pair a b)
  show ?thesis
    unfolding two_rows_def skip_flip skip_skip_flip sign_flip
    by (simp add: Pair fst_flip mult.commute mult.left_commute)
qed

lemma two_row_expansion:
  fixes m :: "'a::field cells"
  assumes "\<And>m :: 'a cells. laplace (Suc n) m = expansion (Suc n) r m"
  shows "laplace (Suc (Suc n)) m =
    (- 1) ^ r * (\<Sum>p\<in>column_pairs n. two_rows n m r (m 0) (m (Suc r)) p)"
proof -
  have "laplace (Suc (Suc n)) m = (\<Sum>a<Suc (Suc n). \<Sum>b<Suc n. m 0 a * (- 1) ^ a *
      (m (Suc r) (skip a b) * (- 1) ^ (r + b) * laplace n (\<lambda>i j. m (Suc (skip r i)) (skip a (skip b j)))))"
    unfolding laplace.simps(2) [of "Suc n"] assms expansion_def
    by (simp only: sum_distrib_left diff_Suc_1)
  also have "\<dots> = (\<Sum>p\<in>column_pairs n. (- 1) ^ r * two_rows n m r (m 0) (m (Suc r)) p)"
    unfolding sum_pairs two_rows_def by (rule sum.cong) (simp_all add: power_add mult_ac)
  finally show ?thesis by (simp add: sum_distrib_left)
qed

lemma skip_0 [simp]: "skip 0 j = Suc j" "skip (Suc r) 0 = 0" "skip (Suc r) (Suc i) = Suc (skip r i)"
  by (auto simp: skip_def)

lemma laplace_any_row:
  fixes m :: "'a::field cells"
  shows "r < n \<Longrightarrow> laplace n m = expansion n r m"
proof (induction n arbitrary: r m)
  case (Suc n)
  show ?case
  proof (cases r)
    case 0
    then show ?thesis unfolding expansion_def laplace.simps(2) [of n] by simp
  next
    case (Suc r')
    then obtain n' where n: "n = Suc n'" and "r' < n" using Suc.prems by (cases n) auto
    have IH: "laplace (Suc n') m = expansion (Suc n') r' m" for m :: "'a cells"
      using Suc.IH [OF \<open>r' < n\<close>, of m] by (simp only: n)
    have "expansion (Suc n) r m = (\<Sum>a<Suc (Suc n'). \<Sum>b<Suc n'. m r a * (- 1) ^ (r + a) *
        (m 0 (skip a b) * (- 1) ^ b * laplace n' (\<lambda>i j. m (Suc (skip r' i)) (skip a (skip b j)))))"
      unfolding expansion_def n diff_Suc_1 laplace.simps(2) [of n'] Suc skip_0
      by (simp only: sum_distrib_left)
    also have "\<dots> = (\<Sum>p\<in>column_pairs n'. (- 1) ^ r * two_rows n' m r' (m r) (m 0) p)"
      unfolding sum_pairs two_rows_def by (rule sum.cong) (simp_all add: power_add mult_ac)
    also have "\<dots> = (- 1) ^ r' * (\<Sum>p\<in>column_pairs n'. two_rows n' m r' (m 0) (m r) (flip_pair p))"
      by (simp add: Suc two_rows_flip sum_distrib_left)
    also have "\<dots> = laplace (Suc n) m"
      unfolding sum_flip n using two_row_expansion [OF IH] Suc by simp
    finally show ?thesis by simp
  qed
qed simp

section \<open>Equal rows\<close>

lemma laplace_equal_rows:
  fixes m :: "'a::field cells"
  shows "p < q \<Longrightarrow> q < n \<Longrightarrow> (\<And>c. m p c = m q c) \<Longrightarrow> laplace n m = 0"
proof (induction n arbitrary: p q m)
  case (Suc n)
  from Suc.prems obtain q' n' where q: "q = Suc q'" and n: "n = Suc n'" by (cases q; cases n) auto
  show ?case
  proof (cases p)
    case 0
    have "laplace (Suc n') m = expansion (Suc n') q' m" for m :: "'a cells"
      by (rule laplace_any_row) (use Suc.prems(2) n q in simp)
    from two_row_expansion [OF this, of m] have "laplace (Suc n) m =
        (- 1) ^ q' * (\<Sum>p\<in>column_pairs n'. two_rows n' m q' (m q) (m q) p)"
      using Suc.prems(3) 0 n q by (metis (full_types) ext)
    moreover have "(\<Sum>p\<in>column_pairs n'. two_rows n' m q' (m q) (m q) p) = 0"
      by (rule sum_antisymmetric) (rule two_rows_flip)
    ultimately show ?thesis by simp
  next
    case (Suc p')
    have "laplace n (\<lambda>i j. m (Suc i) (skip c j)) = 0" for c
      by (rule Suc.IH [of p' q']) (use Suc.prems Suc q in auto)
    then show ?thesis unfolding laplace.simps(2) [of n] by simp
  qed
qed simp

section \<open>The adjugate\<close>

lemma row_times_adjugate:
  fixes m :: "'a::field cells"
  assumes "i < n" "j < n"
  shows "(\<Sum>x<n. m i x * adjugate_cell n m x j) = (if i = j then laplace n m else 0)"
proof -
  let ?m = "m(j := m i)"
  have skip: "skip j k \<noteq> j" for k by (simp add: skip_def)
  have "(\<Sum>x<n. m i x * adjugate_cell n m x j) = expansion n j ?m"
    unfolding expansion_def adjugate_cell_def
    by (rule sum.cong) (simp_all add: skip fun_upd_def add.commute mult_ac)
  also have "\<dots> = laplace n ?m" by (rule laplace_any_row [OF assms(2), symmetric])
  also have "\<dots> = (if i = j then laplace n m else 0)"
  proof (cases "i = j")
    case False
    then have "laplace n ?m = 0"
      using assms laplace_equal_rows [of "min i j" "max i j" n ?m] by (auto simp: min_def max_def split: if_splits)
    then show ?thesis using False by simp
  qed simp
  finally show ?thesis .
qed

section \<open>Rows and columns exchanged\<close>

definition corner :: "nat \<Rightarrow> 'a::field cells \<Rightarrow> 'a" where
  "corner k m = (\<Sum>c<Suc k. \<Sum>r<Suc k. m 0 (Suc c) * (- 1) ^ Suc c * (m (Suc r) 0 * (- 1) ^ r) *
     laplace k (\<lambda>i j. m (Suc (skip r j)) (Suc (skip c i))))"

lemma laplace_corner:
  fixes m :: "'a::field cells"
  assumes IH: "\<And>m :: 'a cells. laplace (Suc k) (\<lambda>i j. m j i) = laplace (Suc k) m"
  shows "laplace (Suc (Suc k)) m = m 0 0 * laplace (Suc k) (\<lambda>i j. m (Suc i) (Suc j)) + corner k m"
proof -
  have minor: "laplace (Suc k) (\<lambda>i j. m (Suc i) (skip (Suc c) j)) =
      (\<Sum>r<Suc k. m (Suc r) 0 * (- 1) ^ r * laplace k (\<lambda>i j. m (Suc (skip r j)) (Suc (skip c i))))" for c
    using IH [of "\<lambda>i j. m (Suc i) (skip (Suc c) j)"] by (simp add: laplace.simps(2) [of k])
  show ?thesis
    unfolding laplace.simps(2) [of "Suc k"] sum.lessThan_Suc_shift [of _ "Suc k"] minor corner_def
    by (simp add: sum_distrib_left mult_ac)
qed

lemma corner_transpose:
  fixes m :: "'a::field cells"
  assumes IH: "\<And>m :: 'a cells. laplace k (\<lambda>i j. m j i) = laplace k m"
  shows "corner k (\<lambda>i j. m j i) = corner k m"
proof -
  have "corner k (\<lambda>i j. m j i) = (\<Sum>r<Suc k. \<Sum>c<Suc k. m (Suc r) 0 * (- 1) ^ Suc r * (m 0 (Suc c) * (- 1) ^ c) *
      laplace k (\<lambda>i j. m (Suc (skip r j)) (Suc (skip c i))))"
    unfolding corner_def by (intro sum.cong refl arg_cong2 [where f = "(*)"]) (rule IH)
  also have "\<dots> = corner k m"
    unfolding corner_def by (subst sum.swap) (simp only: power_Suc mult_ac)
  finally show ?thesis .
qed

lemma laplace_transpose:
  fixes m :: "'a::field cells"
  shows "laplace n (\<lambda>i j. m j i) = laplace n m"
proof (induction n arbitrary: m rule: less_induct)
  case (less n)
  consider "n = 0" | "n = 1" | k where "n = Suc (Suc k)" by (metis One_nat_def not0_implies_Suc)
  then show ?case
  proof cases
    case 3
    have IH: "laplace (Suc k) (\<lambda>i j. m j i) = laplace (Suc k) m"
      "laplace k (\<lambda>i j. m j i) = laplace k m" for m :: "'a cells"
      by (rule less.IH, simp add: 3)+
    have "laplace (Suc (Suc k)) (\<lambda>i j. m j i) =
        m 0 0 * laplace (Suc k) (\<lambda>i j. m (Suc j) (Suc i)) + corner k (\<lambda>i j. m j i)"
      by (rule laplace_corner [OF IH(1)])
    also have "\<dots> = m 0 0 * laplace (Suc k) (\<lambda>i j. m (Suc i) (Suc j)) + corner k m"
      by (simp only: corner_transpose [OF IH(2), of m] IH(1) [of "\<lambda>i j. m (Suc i) (Suc j)"])
    also have "\<dots> = laplace (Suc (Suc k)) m"
      by (rule laplace_corner [OF IH(1), symmetric])
    finally show ?thesis by (simp only: 3)
  qed (simp_all add: laplace.simps(2) [of 0])
qed

lemma adjugate_times_column:
  fixes m :: "'a::field cells"
  assumes "i < n" "j < n"
  shows "(\<Sum>x<n. adjugate_cell n m i x * m x j) = (if i = j then laplace n m else 0)"
proof -
  have adj: "adjugate_cell n (\<lambda>i j. m j i) x i = adjugate_cell n m i x" for x
    unfolding adjugate_cell_def
    using laplace_transpose [of "n - 1" "\<lambda>k l. m (skip x k) (skip i l)"] by (simp add: add.commute)
  have "(\<Sum>x<n. adjugate_cell n m i x * m x j) =
      (\<Sum>x<n. (\<lambda>i j. m j i) j x * adjugate_cell n (\<lambda>i j. m j i) x i)"
    by (simp add: adj mult.commute)
  also have "\<dots> = (if j = i then laplace n m else 0)"
    by (subst row_times_adjugate [OF assms(2,1)]) (simp only: laplace_transpose [of n m])
  finally show ?thesis by auto
qed

section \<open>The inverse\<close>

definition is_identity :: "nat \<Rightarrow> 'a::field matrix \<Rightarrow> bool" where
  "is_identity n p \<longleftrightarrow> mx_row p = n \<and> mx_col p = n \<and>
     (\<forall>i<n. \<forall>j<n. mx_cell p i j = (if i = j then 1 else 0))"

lemma inverse_cells:
  assumes "mx_row m = n" "mx_col m = n" "2 \<le> n" "mx_inverse g m = ok r" "laplace n (mx_cell m) \<noteq> 1"
  shows "laplace n (mx_cell m) \<noteq> 0" "mx_row r = n" "mx_col r = n"
    "i < n \<Longrightarrow> j < n \<Longrightarrow> mx_cell r i j = adjugate_cell n (mx_cell m) i j / laplace n (mx_cell m)"
proof -
  have d: "determine g n n (mx_cell m) = laplace n (mx_cell m)"
    using assms(3) determine_laplace [of n n] by simp
  show "laplace n (mx_cell m) \<noteq> 0" "mx_row r = n" "mx_col r = n"
    "i < n \<Longrightarrow> j < n \<Longrightarrow> mx_cell r i j = adjugate_cell n (mx_cell m) i j / laplace n (mx_cell m)"
    using assms mx_cofactor_cells [OF assms(1-3)]
    by (auto simp: mx_inverse_def d Let_def mx_div_cells split: if_splits)
qed

lemma mx_mult_square:
  assumes "mx_row a = n" "mx_col a = n" "mx_row b = n" "mx_col b = n" "0 < n"
  shows "\<exists>p. mx_mult h a b = ok p \<and> mx_row p = n \<and> mx_col p = n \<and>
    (\<forall>i j. i < n \<and> j < n \<longrightarrow> mx_cell p i j = (\<Sum>x<n. mx_cell a i x * mx_cell b x j))"
  using assms by (simp add: mx_mult_def Let_def traversal_set mx_new_def mx_dot_sum)

lemma inverse_products:
  assumes "mx_row m = n" "mx_col m = n" "2 \<le> n" "mx_inverse g m = ok r" "laplace n (mx_cell m) \<noteq> 1"
  shows "\<exists>p q. mx_mult h m r = ok p \<and> is_identity n p \<and> mx_mult h r m = ok q \<and> is_identity n q"
proof -
  note r = inverse_cells [OF assms]
  have n: "0 < n" using assms(3) by simp
  obtain p where p: "mx_mult h m r = ok p" "mx_row p = n" "mx_col p = n"
    "\<And>i j. i < n \<Longrightarrow> j < n \<Longrightarrow> mx_cell p i j = (\<Sum>x<n. mx_cell m i x * mx_cell r x j)"
    using mx_mult_square [OF assms(1,2) r(2,3) n, of h] by blast
  obtain q where q: "mx_mult h r m = ok q" "mx_row q = n" "mx_col q = n"
    "\<And>i j. i < n \<Longrightarrow> j < n \<Longrightarrow> mx_cell q i j = (\<Sum>x<n. mx_cell r i x * mx_cell m x j)"
    using mx_mult_square [OF r(2,3) assms(1,2) n, of h] by blast
  have "mx_cell p i j = (\<Sum>x<n. mx_cell m i x * adjugate_cell n (mx_cell m) x j) / laplace n (mx_cell m)"
    "mx_cell q i j = (\<Sum>x<n. adjugate_cell n (mx_cell m) i x * mx_cell m x j) / laplace n (mx_cell m)"
    if "i < n" "j < n" for i j
    using that by (simp_all add: p(4) q(4) r(4) sum_divide_distrib)
  then have "is_identity n p" "is_identity n q"
    using r(1) p(2,3) q(2,3) by (auto simp: is_identity_def row_times_adjugate adjugate_times_column)
  then show ?thesis using p(1) q(1) by blast
qed

section \<open>Properties\<close>

text \<open>
  C35. For every square matrix of size at least two, over any field, \<open>inverse\<close> throws exactly when the determinant
  is 0; when the determinant is neither 0 nor 1 the result is a two-sided inverse: both products with the matrix,
  computed by the code's own \<open>operator*\<close>, are the identity. What the uninitialised buffers hold does not
  matter. With determinant 1 the result is the matrix itself, its first cell set to 1.
\<close>

theorem inverse_correct:
  assumes "mx_row m = n" "mx_col m = n" "2 \<le> n"
  shows "(case mx_inverse g m of
      Inl e \<Rightarrow> e = StdException ''out_of_range'' \<and> laplace n (mx_cell m) = 0
    | Inr r \<Rightarrow> laplace n (mx_cell m) \<noteq> 0 \<and>
        (if laplace n (mx_cell m) = 1
         then mx_row r = n \<and> mx_col r = n \<and>
           (\<forall>i<n. \<forall>j<n. mx_cell r i j = (if i = 0 \<and> j = 0 then 1 else mx_cell m i j))
         else \<exists>p q. mx_mult h m r = ok p \<and> is_identity n p \<and> mx_mult h r m = ok q \<and> is_identity n q))"
proof (cases "laplace n (mx_cell m) \<in> {0, 1}")
  case True
  have "determine g n n (mx_cell m) = laplace n (mx_cell m)"
    using assms(3) determine_laplace [of n n] by simp
  with True assms show ?thesis
    by (auto simp: mx_inverse_def Let_def mx_copy_cells mx_set_def)
next
  case False
  have d: "determine g n n (mx_cell m) = laplace n (mx_cell m)"
    using assms(3) determine_laplace [of n n] by simp
  then obtain r where "mx_inverse g m = ok r" using False assms by (auto simp: mx_inverse_def Let_def)
  with False inverse_products [OF assms this, of h] show ?thesis by simp
qed

definition witness_3x3 :: "rat matrix" where
  "witness_3x3 = mx_new (\<lambda>i j. if i = 0 \<and> j = 1 then 3 else if i = j then 2 else if i = 2 \<and> j = 0 then 5 else 0) 3 3"

lemma witness_3x3_det: "mx_row witness_3x3 = 3" "mx_col witness_3x3 = 3"
  "laplace 3 (mx_cell witness_3x3) = 8"
  by (simp_all add: witness_3x3_def mx_new_def skip_def eval_nat_numeral laplace.simps(2) sum.lessThan_Suc)

theorem inverse_correct_witness:
  "\<exists>r p. mx_inverse (\<lambda>_ _ _. 7) witness_3x3 = ok r \<and> mx_mult (\<lambda>_ _. 0) witness_3x3 r = ok p \<and> is_identity 3 p"
  using inverse_correct [OF witness_3x3_det(1,2), where g = "\<lambda>_ _ _. 7" and h = "\<lambda>_ _. 0"] witness_3x3_det(3)
  by (cases "mx_inverse (\<lambda>_ _ _. 7) witness_3x3") auto

end
