(* ===== verification/Angle.thy ===== *)
theory Angle
  imports Matrix
begin

text \<open>
  \<open>Euler\<close> and \<open>Quaternion\<close> of \<open>extension/math/angle.hpp\<close> and \<open>src/angle.cpp\<close>, over the real numbers in
  place of \<open>double\<close>, and \<open>constant.hpp\<close>. \<open>std::atan2\<close> is the angle of the point, in \<open>(-pi, pi]\<close>.
\<close>

section \<open>Euler and Quaternion\<close>

record euler =
  eu_roll :: real
  eu_pitch :: real
  eu_yaw :: real

record quaternion =
  qu_w :: real
  qu_x :: real
  qu_y :: real
  qu_z :: real

text \<open>The default constructors: no rotation as Euler angles, but the zero quaternion, which is no rotation at all.\<close>

definition euler_new :: euler where
  "euler_new = \<lparr>eu_roll = 0, eu_pitch = 0, eu_yaw = 0\<rparr>"

definition quaternion_new :: quaternion where
  "quaternion_new = \<lparr>qu_w = 0, qu_x = 0, qu_y = 0, qu_z = 0\<rparr>"

definition DEG2RAD :: real where "DEG2RAD = 180 / pi"

definition atan2 :: "real \<Rightarrow> real \<Rightarrow> real" where
  "atan2 y x =
     (if 0 < x then arctan (y / x)
      else if x < 0 then (if 0 \<le> y then arctan (y / x) + pi else arctan (y / x) - pi)
      else if 0 < y then pi / 2 else if y < 0 then - pi / 2 else 0)"

definition to_quaternion :: "euler \<Rightarrow> quaternion" where
  "to_quaternion e =
     (let sr = sin (eu_roll e / 2); cr = cos (eu_roll e / 2);
          sp = sin (eu_pitch e / 2); cp = cos (eu_pitch e / 2);
          sy = sin (eu_yaw e / 2); cy = cos (eu_yaw e / 2)
      in \<lparr>qu_w = cr * cp * cy + sr * sp * sy, qu_x = sr * cp * cy - cr * sp * sy,
          qu_y = cr * sp * cy + sr * cp * sy, qu_z = cr * cp * sy - sr * sp * cy\<rparr>)"

definition to_euler :: "quaternion \<Rightarrow> euler" where
  "to_euler q =
     (let w = qu_w q; x = qu_x q; y = qu_y q; z = qu_z q;
          t0 = 2 * (y * z + w * x); t1 = 1 - 2 * (x * x + y * y);
          t2 = 2 * (x * z - w * y);
          t3 = 2 * (x * y + w * z); t4 = 1 - 2 * (y * y + z * z)
      in \<lparr>eu_roll = atan2 t0 t1, eu_pitch = - 1 * arcsin t2, eu_yaw = atan2 t3 t4\<rparr>)"

definition column :: "real cells \<Rightarrow> real list \<Rightarrow> real matrix" where
  "column g vs = foldl (\<lambda>m i. mx_set i 0 (vs ! i) m) (mx_new g (length vs) 1) [0..<length vs]"

definition euler_to_matrix :: "real cells \<Rightarrow> euler \<Rightarrow> real matrix" where
  "euler_to_matrix g e = column g [eu_roll e, eu_pitch e, eu_yaw e]"

definition euler_from_matrix :: "real matrix \<Rightarrow> euler res" where
  "euler_from_matrix m =
     (if mx_col m \<noteq> 1 \<or> mx_row m \<noteq> 3 then Inl (StdException ''out_of_range'')
      else ok \<lparr>eu_roll = mx_cell m 0 0, eu_pitch = mx_cell m 1 0, eu_yaw = mx_cell m 2 0\<rparr>)"

definition quaternion_to_matrix :: "real cells \<Rightarrow> quaternion \<Rightarrow> real matrix" where
  "quaternion_to_matrix g q = column g [qu_w q, qu_x q, qu_y q, qu_z q]"

definition quaternion_from_matrix :: "real matrix \<Rightarrow> quaternion res" where
  "quaternion_from_matrix m =
     (if mx_col m \<noteq> 1 \<or> mx_row m \<noteq> 4 then Inl (StdException ''out_of_range'')
      else ok \<lparr>qu_w = mx_cell m 0 0, qu_x = mx_cell m 1 0, qu_y = mx_cell m 2 0, qu_z = mx_cell m 3 0\<rparr>)"

definition from_acc :: "real \<Rightarrow> real \<Rightarrow> real \<Rightarrow> euler" where
  "from_acc x y z =
     (let pitch = arcsin (x / 9.8)
      in \<lparr>eu_roll = arcsin ((- 1) * y / (9.8 * cos pitch)), eu_pitch = pitch, eu_yaw = 0\<rparr>)"

definition from_acc2 :: "real \<Rightarrow> real \<Rightarrow> euler" where
  "from_acc2 x y = from_acc x y 0"

section \<open>Lemmas\<close>

lemma tan_shift: "tan (r - pi) = tan r" "tan (r + pi) = tan r" for r :: real
  by (simp_all add: tan_def sin_diff cos_diff sin_add cos_add)

lemma atan2_polar:
  assumes "0 < c" "- pi < r" "r \<le> pi"
  shows "atan2 (sin r * c) (cos r * c) = r"
proof -
  have q: "sin r * c / (cos r * c) = tan r" using assms(1) by (simp add: tan_def)
  consider "- (pi / 2) < r" "r < pi / 2" | "r = pi / 2" | "r = - (pi / 2)" | "pi / 2 < r" | "r < - (pi / 2)"
    by linarith
  then show ?thesis
  proof cases
    case 1
    then have "0 < cos r * c" using assms(1) cos_gt_zero_pi by simp
    then show ?thesis using 1 q by (simp add: atan2_def arctan_tan)
  next
    case 2
    then have sc: "sin r = 1" "cos r = 0" by (simp_all only: sin_pi_half cos_pi_half)
    show ?thesis unfolding atan2_def sc using assms(1) 2 by simp
  next
    case 3
    then have sc: "sin r = - 1" "cos r = 0" by (simp_all only: sin_minus cos_minus sin_pi_half cos_pi_half)
    show ?thesis unfolding atan2_def sc using assms(1) 3 by simp
  next
    case 4
    have "0 < cos (r - pi)" by (rule cos_gt_zero_pi) (use 4 assms in auto)
    then have "cos r * c < 0" using assms(1) by (simp add: cos_diff mult_less_0_iff)
    moreover have "0 \<le> sin r * c" using 4 assms sin_ge_zero [of r] by simp
    moreover have "arctan (tan (r - pi)) = r - pi" by (rule arctan_tan) (use 4 assms in auto)
    ultimately show ?thesis using q by (simp add: atan2_def tan_shift)
  next
    case 5
    have "0 < cos (r + pi)" by (rule cos_gt_zero_pi) (use 5 assms in auto)
    then have "cos r * c < 0" using assms(1) by (simp add: cos_add mult_less_0_iff)
    moreover have "sin r * c < 0" using 5 assms sin_gt_zero [of "- r"] by (simp add: mult_less_0_iff)
    moreover have "arctan (tan (r + pi)) = r + pi" by (rule arctan_tan) (use 5 assms in auto)
    ultimately show ?thesis using q by (simp add: atan2_def tan_shift)
  qed
qed

lemma half_angles:
  fixes t :: real
  shows "sin t = 2 * sin (t / 2) * cos (t / 2)" "cos t = cos (t / 2) * cos (t / 2) - sin (t / 2) * sin (t / 2)"
    "sin (t / 2) * sin (t / 2) + cos (t / 2) * cos (t / 2) = 1"
  using sin_double [of "t / 2"] cos_double [of "t / 2"] sin_cos_squared_add [of "t / 2"]
  by (simp_all add: power2_eq_square)

lemma quaternion_terms:
  fixes sr cr sp cp sy cy :: real
  defines "w \<equiv> cr * cp * cy + sr * sp * sy" and "x \<equiv> sr * cp * cy - cr * sp * sy"
    and "y \<equiv> cr * sp * cy + sr * cp * sy" and "z \<equiv> cr * cp * sy - sr * sp * cy"
  assumes r: "sr * sr + cr * cr = 1" and p: "sp * sp + cp * cp = 1" and q: "sy * sy + cy * cy = 1"
  shows "2 * (y * z + w * x) = 2 * sr * cr * (cp * cp - sp * sp)"
    "1 - 2 * (x * x + y * y) = (cr * cr - sr * sr) * (cp * cp - sp * sp)"
    "2 * (x * z - w * y) = - (2 * sp * cp)"
    "2 * (x * y + w * z) = 2 * sy * cy * (cp * cp - sp * sp)"
    "1 - 2 * (y * y + z * z) = (cy * cy - sy * sy) * (cp * cp - sp * sp)"
    "w * w + x * x + y * y + z * z = 1"
  using r p q unfolding w_def x_def y_def z_def by algebra+

section \<open>Properties\<close>



lemma quaternion_unit:
  "(let q = to_quaternion e in qu_w q * qu_w q + qu_x q * qu_x q + qu_y q * qu_y q + qu_z q * qu_z q) = 1"
  using quaternion_terms(6) [OF half_angles(3) [of "eu_roll e"] half_angles(3) [of "eu_pitch e"]
      half_angles(3) [of "eu_yaw e"]]
  by (simp add: to_quaternion_def Let_def)

lemma column_round_trips:
  "euler_from_matrix (euler_to_matrix g e) = ok e"
  "quaternion_from_matrix (quaternion_to_matrix h q) = ok q"
  by (simp_all add: euler_from_matrix_def euler_to_matrix_def quaternion_from_matrix_def
      quaternion_to_matrix_def column_def mx_set_def mx_new_def upt_rec)

text \<open>The default Euler angles convert to the unit quaternion, the default quaternion back to the default angles.\<close>

lemma default_rotations:
  "to_quaternion euler_new = quaternion_new\<lparr>qu_w := 1\<rparr>" "to_euler quaternion_new = euler_new"
  by (simp_all add: to_quaternion_def to_euler_def euler_new_def quaternion_new_def atan2_def Let_def)

end
