(* ===== verification/Filters.thy ===== *)
theory Filters
  imports Matrix
begin

text \<open>
  The filters of \<open>extension/math/filter\<close>: \<open>KalmanFilter<T>\<close>, \<open>KalmanFilter<Matrix<T>>\<close> and
  \<open>LowPassFilter<T>\<close>, with the real numbers (a field, for the matrices) in place of the
  floating-point type.
\<close>

section \<open>KalmanFilter, scalar\<close>

record kalman =
  kf_Q :: real
  kf_R :: real
  kf_P :: real

definition kalman_new :: "real \<Rightarrow> real \<Rightarrow> real \<Rightarrow> kalman" where
  "kalman_new Q R P = \<lparr>kf_Q = Q, kf_R = R, kf_P = P\<rparr>"

definition kalman_run :: "real \<Rightarrow> real \<Rightarrow> kalman \<Rightarrow> kalman \<times> real" where
  "kalman_run measurement prediction f =
     (let P1 = kf_P f + kf_Q f;
          K = P1 / (P1 + kf_R f);
          xp = prediction + K * (measurement - prediction)
      in (f\<lparr>kf_P := (1 - K) * P1\<rparr>, xp))"

fun kalman_runs :: "(real \<times> real) list \<Rightarrow> kalman \<Rightarrow> kalman \<times> real list" where
  "kalman_runs [] f = (f, [])"
| "kalman_runs ((m, p) # mps) f =
     (let (f1, x) = kalman_run m p f; (f2, xs) = kalman_runs mps f1 in (f2, x # xs))"

definition kalman_ok :: "kalman \<Rightarrow> bool" where
  "kalman_ok f \<longleftrightarrow> 0 \<le> kf_Q f \<and> 0 < kf_R f \<and> 0 \<le> kf_P f"

definition between :: "real \<Rightarrow> real \<Rightarrow> real \<Rightarrow> bool" where
  "between a b x \<longleftrightarrow> min a b \<le> x \<and> x \<le> max a b"

lemma mix_between:
  assumes "0 \<le> k" "k \<le> 1"
  shows "between a b (a + k * (b - a))"
proof (cases "a \<le> b")
  case True
  then have "k * (b - a) \<le> 1 * (b - a)" using assms by (intro mult_right_mono) auto
  then show ?thesis using True assms by (simp add: between_def)
next
  case False
  then have "k * (a - b) \<le> 1 * (a - b)" using assms by (intro mult_right_mono) auto
  moreover have "0 \<le> k * (a - b)" using False assms by simp
  ultimately show ?thesis using False by (simp add: between_def algebra_simps)
qed

lemma kalman_run_ok:
  assumes "kalman_ok f" "kalman_run m p f = (f1, x)"
  shows "kalman_ok f1 \<and> between p m x \<and> kf_P f1 \<le> kf_R f \<and> kf_P f1 \<le> kf_P f + kf_Q f \<and>
    kf_Q f1 = kf_Q f \<and> kf_R f1 = kf_R f"
proof -
  let ?P = "kf_P f + kf_Q f" and ?R = "kf_R f"
  let ?K = "?P / (?P + ?R)"
  have P: "0 \<le> ?P" and R: "0 < ?R" using assms(1) by (auto simp: kalman_ok_def)
  then have K: "0 \<le> ?K" "?K \<le> 1" by (auto simp: divide_le_eq_1)
  have K1: "1 - ?K = ?R / (?P + ?R)" using P R by (simp add: field_simps)
  have f1: "f1 = f\<lparr>kf_P := (1 - ?K) * ?P\<rparr>" and x: "x = p + ?K * (m - p)"
    using assms(2) by (simp_all add: kalman_run_def Let_def)
  have up: "(1 - ?K) * ?P \<le> ?P" using K P by (simp add: mult_left_le_one_le)
  have "(1 - ?K) * ?P = ?R * ?K" by (simp add: K1)
  also have "\<dots> \<le> ?R * 1" using K R by (intro mult_left_mono) auto
  finally have ur: "(1 - ?K) * ?P \<le> ?R" by simp
  have "0 \<le> (1 - ?K) * ?P" using K P by simp
  then show ?thesis
    using assms(1) up ur mix_between [OF K, of p m] by (simp add: f1 x kalman_ok_def)
qed

section \<open>KalmanFilter over matrices\<close>

record 'a kalman_matrix =
  km_H :: "'a matrix"
  km_Q :: "'a matrix"
  km_R :: "'a matrix"
  km_x :: "'a matrix"
  km_P :: "'a matrix"
  km_first :: bool

definition kalman_matrix_new ::
  "'a matrix \<Rightarrow> 'a matrix \<Rightarrow> 'a matrix \<Rightarrow> 'a matrix \<Rightarrow> 'a matrix \<Rightarrow> 'a kalman_matrix" where
  "kalman_matrix_new H Q R x P =
     \<lparr>km_H = H, km_Q = Q, km_R = R, km_x = x, km_P = P, km_first = True\<rparr>"

text \<open>\<open>g\<close> gives each new matrix its initial contents; \<open>_x\<close> and \<open>_P\<close> are assigned with \<open>Matrix::operator=\<close>.\<close>

definition kalman_matrix_run ::
  "(nat \<Rightarrow> 'a::field cells) \<Rightarrow> 'a matrix \<Rightarrow> 'a matrix \<Rightarrow> 'a kalman_matrix \<Rightarrow>
   ('a kalman_matrix \<times> 'a matrix) res" where
  "kalman_matrix_run g A z f =
     (if km_first f then ok (f\<lparr>km_first := False\<rparr>, km_x f)
      else bind_res (mx_mult (g 0) A (km_x f)) (\<lambda>xp.
           bind_res (mx_mult (g 1) A (km_P f)) (\<lambda>AP.
           bind_res (mx_mult (g 2) AP (mx_transpose (g 3) A)) (\<lambda>APA.
           bind_res (mx_add (g 4) APA (km_Q f)) (\<lambda>Pp.
           bind_res (mx_mult (g 5) Pp (mx_transpose (g 6) (km_H f))) (\<lambda>PH.
           bind_res (mx_mult (g 7) (km_H f) Pp) (\<lambda>HP.
           bind_res (mx_mult (g 8) HP (mx_transpose (g 9) (km_H f))) (\<lambda>HPH.
           bind_res (mx_add (g 10) HPH (km_R f)) (\<lambda>S.
           bind_res (mx_inverse g S) (\<lambda>SI.
           bind_res (mx_mult (g 11) PH SI) (\<lambda>K.
           bind_res (mx_mult (g 12) (km_H f) xp) (\<lambda>Hx.
           bind_res (mx_sub (g 13) z Hx) (\<lambda>inno.
           bind_res (mx_mult (g 14) K inno) (\<lambda>Ki.
           bind_res (mx_add (g 15) xp Ki) (\<lambda>x1.
           bind_res (mx_assign (km_x f) x1) (\<lambda>x2.
           bind_res (mx_mult (g 16) K (km_H f)) (\<lambda>KH.
           bind_res (mx_mult (g 17) KH Pp) (\<lambda>KHP.
           bind_res (mx_sub (g 18) Pp KHP) (\<lambda>P1.
           bind_res (mx_assign (km_P f) P1) (\<lambda>P2.
             ok (f\<lparr>km_x := x2, km_P := P2\<rparr>, x2)))))))))))))))))))))"

lemma mx_assign_fails: "\<exists>e. bind_res (mx_assign a b) f = Inl e"
  by (simp add: mx_assign_def)

lemma bind_res_fails: "(\<And>x. \<exists>e. f x = Inl e) \<Longrightarrow> \<exists>e. bind_res r f = Inl e"
  by (cases r) auto

section \<open>LowPassFilter\<close>

record low_pass =
  lp_prev :: real
  lp_alpha :: real
  lp_first :: bool

definition low_pass_new :: "real \<Rightarrow> real \<Rightarrow> low_pass" where
  "low_pass_new init alpha = \<lparr>lp_prev = init, lp_alpha = alpha, lp_first = True\<rparr>"

definition low_pass_run :: "real \<Rightarrow> low_pass \<Rightarrow> low_pass \<times> real" where
  "low_pass_run x f =
     (let f1 = (if lp_first f then f\<lparr>lp_prev := x, lp_first := False\<rparr> else f);
          y = lp_alpha f1 * lp_prev f1 + (1 - lp_alpha f1) * x
      in (f1\<lparr>lp_prev := y\<rparr>, y))"

fun low_pass_runs :: "real list \<Rightarrow> low_pass \<Rightarrow> real list" where
  "low_pass_runs [] f = []"
| "low_pass_runs (x # xs) f = (let (f1, y) = low_pass_run x f in y # low_pass_runs xs f1)"

lemma low_pass_bounds:
  "\<not> lp_first f \<Longrightarrow> 0 \<le> lp_alpha f \<Longrightarrow> lp_alpha f \<le> 1 \<Longrightarrow> lo \<le> lp_prev f \<Longrightarrow> lp_prev f \<le> hi \<Longrightarrow>
   \<forall>x\<in>set xs. lo \<le> x \<and> x \<le> hi \<Longrightarrow> \<forall>y\<in>set (low_pass_runs xs f). lo \<le> y \<and> y \<le> hi"
proof (induction xs arbitrary: f)
  case (Cons x xs)
  let ?a = "lp_alpha f" and ?p = "lp_prev f"
  let ?y = "?a * ?p + (1 - ?a) * x"
  have "?a * lo + (1 - ?a) * lo \<le> ?y" "?y \<le> ?a * hi + (1 - ?a) * hi"
    using Cons.prems by (intro add_mono mult_left_mono; simp)+
  then have y: "lo \<le> ?y" "?y \<le> hi" by (simp_all add: algebra_simps)
  have "low_pass_run x f = (f\<lparr>lp_prev := ?y\<rparr>, ?y)" using Cons.prems(1) by (simp add: low_pass_run_def Let_def)
  then show ?case using Cons.IH [of "f\<lparr>lp_prev := ?y\<rparr>"] Cons.prems y by auto
qed simp

section \<open>Properties\<close>



text \<open>
  The matrix filter never gets past its first run: the first call gives back the initial state
  whatever is measured, and every later call fails, at the latest in the assignment operator of
  \<open>Matrix\<close>, which does not return.
\<close>

theorem kalman_matrix_stops:
  "\<exists>f. kalman_matrix_run g A z (kalman_matrix_new H Q R x P) = ok (f, x) \<and>
     (\<forall>g' A' z'. \<exists>e. kalman_matrix_run g' A' z' f = Inl e)"
proof -
  have "\<exists>e. kalman_matrix_run g' A' z' ((kalman_matrix_new H Q R x P)\<lparr>km_first := False\<rparr>) = Inl e" for g' A' z'
    unfolding kalman_matrix_run_def
    by (simp add: kalman_matrix_new_def) (rule mx_assign_fails | rule bind_res_fails)+
  then show ?thesis by (simp add: kalman_matrix_run_def kalman_matrix_new_def)
qed

text \<open>
  The low-pass filter stays within its inputs: with a coefficient between 0 and 1 every output
  lies between the bounds of the inputs so far; and the initial value given to the constructor has
  no effect at all, since the first run overwrites it.
\<close>

theorem low_pass_within_inputs:
  assumes "0 \<le> alpha" "alpha \<le> 1" "\<forall>x\<in>set xs. lo \<le> x \<and> x \<le> hi"
  shows "(\<forall>y\<in>set (low_pass_runs xs (low_pass_new init alpha)). lo \<le> y \<and> y \<le> hi) \<and>
    low_pass_runs xs (low_pass_new init alpha) = low_pass_runs xs (low_pass_new init' alpha)"
proof (cases xs)
  case (Cons x rest)
  have "alpha * x + (1 - alpha) * x = x" by (simp add: algebra_simps)
  then have r: "low_pass_run x (low_pass_new i alpha) = (\<lparr>lp_prev = x, lp_alpha = alpha, lp_first = False\<rparr>, x)" for i
    by (simp add: low_pass_run_def low_pass_new_def Let_def)
  show ?thesis
    using assms Cons r low_pass_bounds [of "\<lparr>lp_prev = x, lp_alpha = alpha, lp_first = False\<rparr>" lo hi rest]
    by simp
qed simp

theorem low_pass_within_inputs_witness:
  "list_all (\<lambda>y. 1 \<le> y \<and> y \<le> 3) (low_pass_runs [1, 3, 2] (low_pass_new 50 (1 / 2)))"
  using low_pass_within_inputs [of "1 / 2" "[1, 3, 2]" 1 3 50] by (simp add: list_all_iff)

end
